(* ===== verification/Prelude.thy ===== *)
theory Prelude
  imports Main "HOL-Library.Word"
begin

text \<open>
  Shared vocabulary of the development: the faults an operation of the code can run into,
  arrays as functions on indices, ring-buffer index arithmetic, and the C++ integer
  conversions the code performs.  The components import this theory and nothing else of
  the development unless they call each other.
\<close>

unbundle bit_operations_syntax

named_theorems inv_defs \<open>definitions of the invariants of the components\<close>
named_theorems op_defs \<open>definitions of the operations of the components\<close>
named_theorems ring_simps \<open>facts about positions and contents of ring buffers\<close>
named_theorems mem_simps \<open>facts about reading and writing arrays\<close>

section \<open>Faults\<close>

text \<open>
  What the C++ code does not define, or what ends the process: a failed \<open>assert\<close>, a null
  or dangling pointer, an index outside an array, a \<open>memcpy\<close> of overlapping ranges, a
  negative allocation size, a remainder by zero, a use of a pointer never assigned, a shift into
  or beyond the sign bit, a loop that never ends, a conversion in a format string without its
  argument.  An operation that can reach one of these returns a sum.
\<close>

datatype fault =
    AssertFail | NullDeref | UseAfterFree | OutOfBounds | MemcpyOverlap | BadAlloc | DivByZero
  | Uninitialised | ShiftOverflow | Diverges | JoinDetached | BadFormat | SignedOverflow | MissingReturn

type_synonym 'a outcome = "fault + 'a"

primrec obind :: "'a outcome \<Rightarrow> ('a \<Rightarrow> 'b outcome) \<Rightarrow> 'b outcome" where
  "obind (Inl e) k = Inl e"
| "obind (Inr a) k = k a"

definition oassert :: "fault \<Rightarrow> bool \<Rightarrow> unit outcome" where
  "oassert e b = (if b then Inr () else Inl e)"

lemma oassert_simps [simp]:
  "oassert e True = Inr ()"
  "oassert e False = Inl e"
  by (simp_all add: oassert_def)

lemma obind_eq_Inr:
  "obind x k = Inr b \<longleftrightarrow> (\<exists>a. x = Inr a \<and> k a = Inr b)"
  by (cases x) auto

lemma obind_assoc: "obind (obind x f) g = obind x (\<lambda>a. obind (f a) g)"
  by (cases x) auto

lemma obind_Inr [simp]: "obind x Inr = x"
  by (cases x) auto

section \<open>Arrays\<close>

type_synonym byte = "8 word"
type_synonym 'a arr = "nat \<Rightarrow> 'a"

definition mem_read :: "'a arr \<Rightarrow> nat \<Rightarrow> nat \<Rightarrow> 'a list" where
  "mem_read m off n = map m [off..<off + n]"

definition mem_write :: "'a arr \<Rightarrow> nat \<Rightarrow> 'a list \<Rightarrow> 'a arr" where
  "mem_write m off bs = (\<lambda>i. if off \<le> i \<and> i < off + length bs then bs ! (i - off) else m i)"

definition mem_copy :: "'a arr \<Rightarrow> nat \<Rightarrow> nat \<Rightarrow> nat \<Rightarrow> 'a arr" where
  "mem_copy m dst src n = mem_write m dst (mem_read m src n)"

definition memcpy_ok :: "nat \<Rightarrow> nat \<Rightarrow> nat \<Rightarrow> bool" where
  "memcpy_ok dst src n \<longleftrightarrow> n = 0 \<or> dst + n \<le> src \<or> src + n \<le> dst"

lemma length_mem_read [simp]: "length (mem_read m off n) = n"
  by (simp add: mem_read_def)

lemma mem_read_0 [simp]: "mem_read m off 0 = []"
  by (simp add: mem_read_def)

lemma mem_write_Nil [simp]: "mem_write m off [] = m"
  by (rule ext) (auto simp: mem_write_def)

lemma nth_mem_read [simp]: "i < n \<Longrightarrow> mem_read m off n ! i = m (off + i)"
  by (simp add: mem_read_def)

lemma mem_read_append [mem_simps]:
  "mem_read m off (a + b) = mem_read m off a @ mem_read m (off + a) b"
  by (rule nth_equalityI) (auto simp: nth_append)

lemma mem_read_write_same [mem_simps, simp]:
  "n = length bs \<Longrightarrow> mem_read (mem_write m off bs) off n = bs"
  by (rule nth_equalityI) (auto simp: mem_write_def)

lemma mem_read_write_disjoint [mem_simps]:
  "off + n \<le> off' \<or> off' + length bs \<le> off \<Longrightarrow>
    mem_read (mem_write m off' bs) off n = mem_read m off n"
  by (rule nth_equalityI) (auto simp: mem_write_def)

lemma mem_read_write_after [mem_simps]:
  assumes "off \<le> w"
  shows "mem_read (mem_write m w bs) off (w - off + length bs) = mem_read m off (w - off) @ bs"
proof -
  have "mem_read (mem_write m w bs) (off + (w - off)) (length bs) = bs"
    using assms by simp
  moreover have "mem_read (mem_write m w bs) off (w - off) = mem_read m off (w - off)"
    using assms by (intro mem_read_write_disjoint) simp
  ultimately show ?thesis by (simp only: mem_read_append)
qed

lemma mem_read_copy [mem_simps]:
  "mem_read (mem_copy m dst src n) dst n = mem_read m src n"
  by (simp add: mem_copy_def)

lemma take_mem_read [mem_simps]: "take k (mem_read m off n) = mem_read m off (min k n)"
  by (rule nth_equalityI) auto

lemma drop_mem_read [mem_simps]: "drop k (mem_read m off n) = mem_read m (off + k) (n - k)"
  by (rule nth_equalityI) (auto simp: add.assoc)

section \<open>Ring buffers\<close>

text \<open>
  A ring of \<open>N\<close> slots with a read position \<open>f\<close> and a write position \<open>r\<close>: empty when they
  are equal, full when the slot after \<open>r\<close> is \<open>f\<close>, so it holds at most \<open>N - 1\<close> elements.
\<close>

definition ring_len :: "nat \<Rightarrow> nat \<Rightarrow> nat \<Rightarrow> nat" where
  "ring_len N f r = (if f \<le> r then r - f else r + N - f)"

definition ring_list :: "'a arr \<Rightarrow> nat \<Rightarrow> nat \<Rightarrow> nat \<Rightarrow> 'a list" where
  "ring_list a N f r = map (\<lambda>i. a ((f + i) mod N)) [0..<ring_len N f r]"

lemma length_ring_list [simp]: "length (ring_list a N f r) = ring_len N f r"
  by (simp add: ring_list_def)

lemma ring_len_less [ring_simps]: "f < N \<Longrightarrow> r < N \<Longrightarrow> ring_len N f r < N"
  by (auto simp: ring_len_def)

lemma ring_len_eq_0 [ring_simps]: "f < N \<Longrightarrow> r < N \<Longrightarrow> ring_len N f r = 0 \<longleftrightarrow> f = r"
  by (auto simp: ring_len_def)

lemma ring_list_eq_Nil [ring_simps]:
  "f < N \<Longrightarrow> r < N \<Longrightarrow> ring_list a N f r = [] \<longleftrightarrow> f = r"
  by (simp add: ring_list_def ring_len_eq_0)

lemma ring_next_less [ring_simps]: "r < N \<Longrightarrow> (r + 1) mod N < N"
  for r N :: nat
  by simp

lemma ring_next: "r < N \<Longrightarrow> (r + 1) mod N = (if r + 1 = N then 0 else r + 1)"
  for r N :: nat
  by auto

lemma ring_next_Suc: "r < N \<Longrightarrow> Suc r mod N = (if Suc r = N then 0 else Suc r)"
  for r N :: nat
  by auto

lemma ring_len_push [ring_simps]:
  assumes "f < N" "r < N" "(r + 1) mod N \<noteq> f"
  shows "ring_len N f ((r + 1) mod N) = Suc (ring_len N f r)"
  using assms by (auto simp: ring_len_def ring_next_Suc split: if_splits)

lemma ring_len_pop [ring_simps]:
  assumes "f < N" "r < N" "f \<noteq> r"
  shows "ring_len N f r = Suc (ring_len N ((f + 1) mod N) r)"
  using assms by (auto simp: ring_len_def ring_next_Suc split: if_splits)

lemma ring_full_len [ring_simps]:
  assumes "f < N" "r < N"
  shows "(r + 1) mod N = f \<longleftrightarrow> ring_len N f r = N - 1"
  using assms by (auto simp: ring_len_def ring_next_Suc split: if_splits)

lemma ring_index_mod: "i < N \<Longrightarrow> f < N \<Longrightarrow> (f + i) mod N = (if f + i < N then f + i else f + i - N)"
  for i f N :: nat
  by (simp add: mod_if)

lemma ring_slot_inj [ring_simps]:
  assumes "f < N" "r < N" "i < ring_len N f r"
  shows "(f + i) mod N \<noteq> r"
proof -
  have "i < N" using assms ring_len_less[of f N r] by linarith
  with assms show ?thesis
    by (auto simp: ring_index_mod ring_len_def split: if_splits)
qed

lemma ring_end_slot [ring_simps]:
  assumes "f < N" "r < N"
  shows "(f + ring_len N f r) mod N = r"
  using assms by (auto simp: ring_len_def)

lemma ring_list_push [ring_simps]:
  assumes "f < N" "r < N" "(r + 1) mod N \<noteq> f"
  shows "ring_list (a(r := x)) N f ((r + 1) mod N) = ring_list a N f r @ [x]"
proof -
  have "map (\<lambda>i. (a(r := x)) ((f + i) mod N)) [0..<ring_len N f r] = ring_list a N f r"
    unfolding ring_list_def by (rule map_cong) (auto simp: ring_slot_inj[OF assms(1,2)])
  then show ?thesis
    using assms by (simp add: ring_list_def ring_len_push[simplified] ring_end_slot)
qed

lemma ring_list_pop [ring_simps]:
  assumes "f < N" "r < N" "f \<noteq> r"
  shows "ring_list a N f r = a f # ring_list a N ((f + 1) mod N) r"
proof -
  have *: "((f + 1) mod N + i) mod N = (f + Suc i) mod N" for i
    by (simp add: mod_simps)
  have "ring_list a N f r =
      map (\<lambda>i. a ((f + i) mod N)) (0 # map Suc [0..<ring_len N ((f + 1) mod N) r])"
    using ring_len_pop[OF assms] by (simp only: ring_list_def upt_conv_Cons map_Suc_upt zero_less_Suc One_nat_def)
  then show ?thesis
    using assms(1) * by (simp add: ring_list_def comp_def)
qed

lemma ring_list_upd_outside [ring_simps]:
  assumes "f < N" "r < N"
    and "\<And>i. i < ring_len N f r \<Longrightarrow> (f + i) mod N \<noteq> k"
  shows "ring_list (a(k := x)) N f r = ring_list a N f r"
  unfolding ring_list_def by (rule map_cong) (use assms in auto)

text \<open>The slot just released by a read is outside the ring that remains.\<close>

lemma ring_list_upd_released [ring_simps]:
  assumes "f < N" "r < N" "f \<noteq> r"
  shows "ring_list (a(f := x)) N ((f + 1) mod N) r = ring_list a N ((f + 1) mod N) r"
proof (rule ring_list_upd_outside)
  show f': "(f + 1) mod N < N" using assms(1) by simp
  show "r < N" by fact
  fix i
  assume i: "i < ring_len N ((f + 1) mod N) r"
  show "((f + 1) mod N + i) mod N \<noteq> f"
  proof
    assume eq: "((f + 1) mod N + i) mod N = f"
    have iN: "Suc i < N" using i ring_len_pop[OF assms] ring_len_less[OF assms(1,2)] by simp
    have "(f + Suc i) mod N = f" using eq by (simp add: mod_simps)
    with iN assms(1) show False
      by (cases "Suc (f + i) < N") (auto simp: mod_if split: if_splits)
  qed
qed

section \<open>C++ integers\<close>

text \<open>
  \<open>static_cast<int>\<close> of a \<open>size_t\<close> keeps the low 32 bits and reads them as two's
  complement; an \<open>int\<close> used in \<open>size_t\<close> arithmetic is sign-extended.
\<close>

definition int_of_size :: "64 word \<Rightarrow> int" where
  "int_of_size x = sint (ucast x :: 32 word)"

definition size_of_int :: "int \<Rightarrow> 64 word" where
  "size_of_int i = word_of_int i"

lemma int_of_size_word_of_int:
  "int_of_size (word_of_int v) = signed_take_bit 31 v"
proof -
  have "ucast (word_of_int v :: 64 word) = (word_of_int v :: 32 word)"
    by (rule bit_word_eqI) (simp add: bit_ucast_iff bit_of_int_iff)
  then show ?thesis
    by (simp add: int_of_size_def sint_sbintrunc')
qed

text \<open>\<open>static_cast<int>\<close> of a \<open>size_t\<close> expression whose value before wrap-around is \<open>v\<close>.\<close>

definition size_cast :: "int \<Rightarrow> int" where
  "size_cast v = int_of_size (word_of_int v)"

lemma size_cast_mod: "size_cast v = (v + 2 ^ 31) mod 2 ^ 32 - 2 ^ 31"
  by (simp add: size_cast_def int_of_size_word_of_int signed_take_bit_eq_take_bit_shift take_bit_eq_mod)

lemma size_cast_small:
  assumes "- (2 ^ 31) \<le> v" "v < 2 ^ 31"
  shows "size_cast v = v"
proof -
  have "0 \<le> v + 2 ^ 31" "v + 2 ^ 31 < 2 ^ 32" using assms by simp_all
  then have "(v + 2 ^ 31) mod 2 ^ 32 = v + 2 ^ 31" by (rule mod_pos_pos_trivial)
  then show ?thesis by (simp only: size_cast_mod)
qed

lemma size_cast_period: "size_cast (v + 2 ^ 32 * k) = size_cast v"
proof -
  have "(v + 2 ^ 32 * k + 2 ^ 31) mod 2 ^ 32 = ((v + 2 ^ 31) + 2 ^ 32 * k) mod 2 ^ 32"
    by (simp only: ac_simps)
  also have "\<dots> = (v + 2 ^ 31) mod 2 ^ 32" by (rule mod_mult_self2)
  finally show ?thesis by (simp only: size_cast_mod)
qed

lemma size_cast_decomp: "\<exists>k. v = size_cast v + 2 ^ 32 * k"
proof -
  have "2 ^ 32 * ((v + 2 ^ 31) div 2 ^ 32) + (v + 2 ^ 31) mod 2 ^ 32 = v + 2 ^ 31"
    by (rule mult_div_mod_eq)
  then have "v = ((v + 2 ^ 31) mod 2 ^ 32 - 2 ^ 31) + 2 ^ 32 * ((v + 2 ^ 31) div 2 ^ 32)"
    by (simp only: algebra_simps)
  then show ?thesis unfolding size_cast_mod by (rule exI)
qed

lemma size_cast_range: "- (2 ^ 31) \<le> size_cast v" "size_cast v < 2 ^ 31"
proof -
  have "0 \<le> (v + 2 ^ 31) mod 2 ^ 32" "(v + 2 ^ 31) mod 2 ^ 32 < 2 ^ 32" by simp_all
  then show "- (2 ^ 31) \<le> size_cast v" "size_cast v < 2 ^ 31" by (simp_all add: size_cast_mod)
qed

lemma word_eq_unat: "a = b \<longleftrightarrow> unat a = unat b"
  for a b :: "'n::len word"
  by (auto intro: unsigned_word_eqI)

lemma sint_small:
  assumes "unat p < 2 ^ 31"
  shows "sint (p :: 32 word) = int (unat p)"
proof -
  have "signed_take_bit 31 (uint p) = uint p"
  proof (rule signed_take_bit_int_eq_self)
    show "- (2 ^ 31) \<le> uint p" by (rule order_trans[OF _ uint_ge_0]) simp
    have "int (unat p) < int (2 ^ 31)" using assms by (simp only: of_nat_less_iff)
    then show "uint p < 2 ^ 31" by simp
  qed
  then show ?thesis by (simp add: sint_uint)
qed

lemma unat_add_small: "unat a + unat b < 2 ^ LENGTH('n) \<Longrightarrow> unat (a + b) = unat a + unat b"
  for a b :: "'n::len word"
  by (simp add: unat_add_lem)

lemma unat_of_nat_small: "n < 2 ^ LENGTH('n) \<Longrightarrow> unat (of_nat n :: 'n::len word) = n"
  by (simp add: unat_of_nat take_bit_nat_eq_self)

end
