(* ===== verification/Fifo_Interface.thy ===== *)
theory Fifo_Interface
  imports Prelude
begin

text \<open>
  The contract of the queues of the library (\<open>srt_queue\<close> of base/src/mqueue.h and
  \<open>ringBuffer\<close> of common/test/tcpserver/ring_buffer/ringBuffer.h), as their clients use it:
  \<open>push\<close> reports by a boolean whether the message was taken, \<open>pop\<close> hands out the
  oldest message or reports that there is none.  The clients' lemmas are proved here from
  the contract; each queue's theory proves that its model provides it.
\<close>

text \<open>A client that pushes a batch, and one that pops until the queue says it is empty.\<close>

fun push_batch :: "('a \<Rightarrow> 'q \<Rightarrow> (bool \<times> 'q) outcome) \<Rightarrow> 'a list \<Rightarrow> 'q \<Rightarrow> (nat \<times> 'q) outcome" where
  "push_batch push [] q = Inr (0, q)"
| "push_batch push (x # xs) q =
    obind (push x q) (\<lambda>(ok, q').
      obind (push_batch push xs q') (\<lambda>(n, q''). Inr (if ok then Suc n else n, q'')))"

fun pop_upto :: "('q \<Rightarrow> ('a option \<times> 'q) outcome) \<Rightarrow> nat \<Rightarrow> 'q \<Rightarrow> ('a list \<times> 'q) outcome" where
  "pop_upto pop 0 q = Inr ([], q)"
| "pop_upto pop (Suc n) q =
    obind (pop q) (\<lambda>(r, q').
      case r of
        None \<Rightarrow> Inr ([], q')
      | Some x \<Rightarrow> obind (pop_upto pop n q') (\<lambda>(xs, q''). Inr (x # xs, q'')))"

locale fifo =
  fixes push :: "'a \<Rightarrow> 'q \<Rightarrow> (bool \<times> 'q) outcome"
    and pop :: "'q \<Rightarrow> ('a option \<times> 'q) outcome"
    and inv :: "'q \<Rightarrow> bool"
    and contents :: "'q \<Rightarrow> 'a list"
    and room :: "'q \<Rightarrow> bool"
  assumes push_room: "inv q \<Longrightarrow> room q \<Longrightarrow>
      \<exists>q'. push x q = Inr (True, q') \<and> inv q' \<and> contents q' = contents q @ [x]"
    and push_full: "inv q \<Longrightarrow> \<not> room q \<Longrightarrow> push x q = Inr (False, q)"
    and pop_empty: "inv q \<Longrightarrow> contents q = [] \<Longrightarrow> pop q = Inr (None, q)"
    and pop_head: "inv q \<Longrightarrow> contents q = x # xs \<Longrightarrow>
      \<exists>q'. pop q = Inr (Some x, q') \<and> inv q' \<and> contents q' = xs"
begin

lemma push_total:
  assumes "inv q"
  shows "\<exists>ok q'. push x q = Inr (ok, q') \<and> inv q' \<and> ok = room q
    \<and> contents q' = contents q @ (if ok then [x] else [])"
  using assms push_room[of q x] push_full[of q x] by (cases "room q") auto

lemma pop_total:
  assumes "inv q"
  shows "\<exists>r q'. pop q = Inr (r, q') \<and> inv q' \<and> contents q = (case r of None \<Rightarrow> [] | Some x \<Rightarrow> [x]) @ contents q'
    \<and> (r = None \<longleftrightarrow> contents q = [])"
proof (cases "contents q")
  case Nil
  then show ?thesis using pop_empty[OF assms] assms by auto
next
  case (Cons x xs)
  then show ?thesis using pop_head[OF assms Cons] by auto
qed

text \<open>Popping hands out the stored messages oldest first, and all of them if asked often enough.\<close>

lemma pop_upto_takes:
  assumes "inv q"
  shows "\<exists>q'. pop_upto pop n q = Inr (take n (contents q), q') \<and> inv q'
    \<and> contents q' = drop n (contents q)"
  using assms
proof (induction n arbitrary: q)
  case 0
  then show ?case by simp
next
  case (Suc n)
  show ?case
  proof (cases "contents q")
    case Nil
    then show ?thesis using pop_empty[OF Suc.prems] Suc.prems by simp
  next
    case (Cons x xs)
    obtain q' where q': "pop q = Inr (Some x, q')" "inv q'" "contents q' = xs"
      using pop_head[OF Suc.prems Cons] by auto
    then show ?thesis using Suc.IH[OF q'(2)] Cons by auto
  qed
qed

end

text \<open>A queue whose room is what is left of a fixed capacity.\<close>

locale bounded_fifo = fifo +
  fixes cap :: "'b \<Rightarrow> nat"
  assumes room_iff: "inv q \<Longrightarrow> room q \<longleftrightarrow> length (contents q) < cap q"
    and cap_push: "push x q = Inr (ok, q') \<Longrightarrow> cap q' = cap q"
    and cap_pop: "pop q = Inr (r, q') \<Longrightarrow> cap q' = cap q"
begin

text \<open>
  A batch is taken up to the capacity, in order, and its tail is dropped: nothing already
  stored is lost or overtaken.
\<close>

lemma push_batch_takes:
  assumes "inv q" "length (contents q) \<le> cap q"
  shows "\<exists>q'. push_batch push xs q = Inr (min (length xs) (cap q - length (contents q)), q') \<and> inv q'
    \<and> contents q' = contents q @ take (cap q - length (contents q)) xs \<and> cap q' = cap q"
  using assms
proof (induction xs arbitrary: q)
  case Nil
  then show ?case by simp
next
  case (Cons x xs)
  show ?case
  proof (cases "room q")
    case True
    then have lt: "length (contents q) < cap q" using room_iff Cons.prems(1) by blast
    obtain q1 where q1: "push x q = Inr (True, q1)" "inv q1" "contents q1 = contents q @ [x]"
      using push_room[OF Cons.prems(1) True, of x] by auto
    have cap1: "cap q1 = cap q" using cap_push[OF q1(1)] .
    obtain k where k: "cap q - length (contents q) = Suc k"
      using lt by (metis Suc_diff_Suc)
    then have k': "cap q - Suc (length (contents q)) = k" by simp
    have "\<exists>q'. push_batch push xs q1 = Inr (min (length xs) k, q') \<and> inv q'
        \<and> contents q' = (contents q @ [x]) @ take k xs \<and> cap q' = cap q"
      using Cons.IH[OF q1(2)] q1(3) cap1 lt k' by simp
    then show ?thesis using q1(1) k by auto
  next
    case False
    then have eq: "length (contents q) = cap q" using room_iff Cons.prems by fastforce
    then have "\<exists>q'. push_batch push xs q = Inr (0, q') \<and> inv q' \<and> contents q' = contents q \<and> cap q' = cap q"
      using Cons.IH[OF Cons.prems] by simp
    then show ?thesis using push_full[OF Cons.prems(1) False] eq by auto
  qed
qed

lemma batch_roundtrip:
  assumes "inv q" "contents q = []" "length xs \<le> cap q" "length xs \<le> n"
  shows "\<exists>q' q''. push_batch push xs q = Inr (length xs, q') \<and> pop_upto pop n q' = Inr (xs, q'')
    \<and> inv q'' \<and> contents q'' = []"
proof -
  have "length (contents q) \<le> cap q" using assms(2) by simp
  from push_batch_takes[OF assms(1) this, of xs] assms(2,3)
  obtain q' where q': "push_batch push xs q = Inr (length xs, q')" "inv q'" "contents q' = xs"
    by (auto simp: min_def)
  then show ?thesis using pop_upto_takes[OF q'(2), of n] assms(4) by auto
qed

end

end
