(* ===== verification/Ring_Buffer.thy ===== *)
theory Ring_Buffer
  imports Fifo_Interface
begin

text \<open>
  \<open>ringBuffer\<close> (common/test/tcpserver/ring_buffer/ringBuffer.h): the
  ring the test server hands messages to its worker threads through, with atomic methods.  \<open>m_size\<close>,
  \<open>m_front\<close> and \<open>m_rear\<close> are 32-bit words (the code declares the last two as \<open>int\<close> and
  computes them with unsigned arithmetic), \<open>m_data\<close> is the array of \<open>m_size\<close> elements,
  whose initial content is whatever the allocation holds.
\<close>

record 'a ringBuffer =
  rb_size :: "32 word"
  rb_front :: "32 word"
  rb_rear :: "32 word"
  rb_data :: "'a arr"

definition rb_new :: "32 word \<Rightarrow> 'a arr \<Rightarrow> 'a ringBuffer" where
  "rb_new n fresh = \<lparr>rb_size = n, rb_front = 0, rb_rear = 0, rb_data = fresh\<rparr>"

definition rb_isEmpty :: "'a ringBuffer \<Rightarrow> bool" where
  "rb_isEmpty rb \<longleftrightarrow> rb_front rb = rb_rear rb"

definition rb_isFull :: "'a ringBuffer \<Rightarrow> bool outcome" where
  "rb_isFull rb = (if rb_size rb = 0 then Inl DivByZero
     else Inr (rb_front rb = (rb_rear rb + 1) mod rb_size rb))"

text \<open>\<open>m_data[p]\<close> with \<open>p\<close> an \<open>int\<close>.\<close>

definition rb_in_bounds :: "'a ringBuffer \<Rightarrow> 32 word \<Rightarrow> bool" where
  "rb_in_bounds rb p \<longleftrightarrow> 0 \<le> sint p \<and> sint p < uint (rb_size rb)"

definition rb_push :: "'a \<Rightarrow> 'a ringBuffer \<Rightarrow> (bool \<times> 'a ringBuffer) outcome" where
  "rb_push value rb =
    obind (rb_isFull rb) (\<lambda>full.
      if full then Inr (False, rb)
      else obind (oassert OutOfBounds (rb_in_bounds rb (rb_rear rb))) (\<lambda>_.
        Inr (True, rb\<lparr>rb_data := (rb_data rb)(unat (rb_rear rb) := value),
                      rb_rear := (rb_rear rb + 1) mod rb_size rb\<rparr>)))"

text \<open>The overload that takes a pointer reads through it only when there is room.\<close>

definition rb_push_ptr :: "'a option \<Rightarrow> 'a ringBuffer \<Rightarrow> (bool \<times> 'a ringBuffer) outcome" where
  "rb_push_ptr value rb =
    obind (rb_isFull rb) (\<lambda>full.
      if full then Inr (False, rb)
      else (case value of
        None \<Rightarrow> Inl NullDeref
      | Some v \<Rightarrow>
          obind (oassert OutOfBounds (rb_in_bounds rb (rb_rear rb))) (\<lambda>_.
            Inr (True, rb\<lparr>rb_data := (rb_data rb)(unat (rb_rear rb) := v),
                          rb_rear := (rb_rear rb + 1) mod rb_size rb\<rparr>))))"

definition rb_pop :: "'a ringBuffer \<Rightarrow> ('a option \<times> 'a ringBuffer) outcome" where
  "rb_pop rb =
    (if rb_isEmpty rb then Inr (None, rb)
     else obind (oassert OutOfBounds (rb_in_bounds rb (rb_front rb))) (\<lambda>_.
       if rb_size rb = 0 then Inl DivByZero
       else Inr (Some (rb_data rb (unat (rb_front rb))),
                 rb\<lparr>rb_front := (rb_front rb + 1) mod rb_size rb\<rparr>)))"

section \<open>Invariant and abstraction\<close>

definition rb_inv :: "'a ringBuffer \<Rightarrow> bool" where
  "rb_inv rb \<longleftrightarrow> 0 < unat (rb_size rb) \<and> unat (rb_size rb) < 2 ^ 31
     \<and> unat (rb_front rb) < unat (rb_size rb) \<and> unat (rb_rear rb) < unat (rb_size rb)"

definition rb_contents :: "'a ringBuffer \<Rightarrow> 'a list" where
  "rb_contents rb = ring_list (rb_data rb) (unat (rb_size rb)) (unat (rb_front rb)) (unat (rb_rear rb))"

definition rb_room :: "'a ringBuffer \<Rightarrow> bool" where
  "rb_room rb \<longleftrightarrow> (unat (rb_rear rb) + 1) mod unat (rb_size rb) \<noteq> unat (rb_front rb)"

definition rb_cap :: "'a ringBuffer \<Rightarrow> nat" where
  "rb_cap rb = unat (rb_size rb) - 1"

lemma rb_inv_new:
  "0 < unat n \<Longrightarrow> unat n < 2 ^ 31 \<Longrightarrow> rb_inv (rb_new n fresh) \<and> rb_contents (rb_new n fresh) = []"
  by (simp add: rb_inv_def rb_new_def rb_contents_def ring_list_def ring_len_def)

text \<open>Under the invariant the word arithmetic is the ring arithmetic on naturals.\<close>

lemma rb_next_unat:
  assumes "unat n < 2 ^ 31" "unat p < unat n"
  shows "unat ((p + 1) mod n :: 32 word) = (unat p + 1) mod unat n"
proof -
  have "unat (p + 1) = unat p + 1" using assms by (subst unat_add_small) auto
  then show ?thesis by (simp add: unat_mod)
qed

lemma rb_in_boundsI:
  assumes "rb_inv rb" "unat p < unat (rb_size rb)"
  shows "rb_in_bounds rb p"
proof -
  have "unat p < 2 ^ 31" using assms by (simp add: rb_inv_def)
  then have "sint p = int (unat p)" by (rule sint_small)
  moreover have "int (unat p) < uint (rb_size rb)"
    using assms(2) by (simp only: uint_nat of_nat_less_iff)
  ultimately show ?thesis by (simp add: rb_in_bounds_def)
qed

lemma rb_isFull_inv:
  assumes "rb_inv rb"
  shows "rb_isFull rb = Inr (\<not> rb_room rb)"
proof -
  have "rb_front rb = (rb_rear rb + 1) mod rb_size rb \<longleftrightarrow> \<not> rb_room rb"
    using assms by (auto simp: word_eq_unat rb_next_unat rb_inv_def rb_room_def)
  moreover have "rb_size rb \<noteq> 0" using assms by (auto simp: rb_inv_def)
  ultimately show ?thesis by (simp add: rb_isFull_def)
qed

lemma rb_push_inv:
  assumes inv: "rb_inv rb" and room: "rb_room rb"
  shows "\<exists>rb'. rb_push v rb = Inr (True, rb') \<and> rb_inv rb' \<and> rb_contents rb' = rb_contents rb @ [v]"
proof -
  let ?rb' = "rb\<lparr>rb_data := (rb_data rb)(unat (rb_rear rb) := v),
                 rb_rear := (rb_rear rb + 1) mod rb_size rb\<rparr>"
  have nx: "unat ((rb_rear rb + 1) mod rb_size rb) = (unat (rb_rear rb) + 1) mod unat (rb_size rb)"
    using inv by (intro rb_next_unat) (simp_all add: rb_inv_def)
  have "rb_push v rb = Inr (True, ?rb')"
    using inv room rb_in_boundsI[OF inv, of "rb_rear rb"]
    by (simp add: rb_push_def rb_isFull_inv rb_inv_def)
  moreover have "rb_inv ?rb'"
    using inv nx ring_next_less[of "unat (rb_rear rb)"] by (simp add: rb_inv_def)
  moreover have "rb_contents ?rb' =
      ring_list ((rb_data rb)(unat (rb_rear rb) := v)) (unat (rb_size rb)) (unat (rb_front rb))
        ((unat (rb_rear rb) + 1) mod unat (rb_size rb))"
    by (simp add: rb_contents_def nx)
  moreover have "\<dots> = rb_contents rb @ [v]"
    unfolding rb_contents_def
    by (rule ring_list_push) (use inv room in \<open>simp_all add: rb_inv_def rb_room_def\<close>)
  ultimately show ?thesis by metis
qed

lemma rb_push_full: "rb_inv rb \<Longrightarrow> \<not> rb_room rb \<Longrightarrow> rb_push v rb = Inr (False, rb)"
  by (simp add: rb_push_def rb_isFull_inv)

lemma rb_isEmpty_contents: "rb_inv rb \<Longrightarrow> rb_isEmpty rb \<longleftrightarrow> rb_contents rb = []"
  by (simp add: rb_isEmpty_def rb_contents_def rb_inv_def word_eq_unat ring_list_eq_Nil)

lemma rb_pop_empty: "rb_inv rb \<Longrightarrow> rb_contents rb = [] \<Longrightarrow> rb_pop rb = Inr (None, rb)"
  by (simp add: rb_pop_def rb_isEmpty_contents)

lemma rb_pop_head:
  assumes inv: "rb_inv rb" and Cons: "rb_contents rb = x # xs"
  shows "\<exists>rb'. rb_pop rb = Inr (Some x, rb') \<and> rb_inv rb' \<and> rb_contents rb' = xs"
proof -
  let ?rb' = "rb\<lparr>rb_front := (rb_front rb + 1) mod rb_size rb\<rparr>"
  have ne: "\<not> rb_isEmpty rb" using Cons rb_isEmpty_contents[OF inv] by simp
  have nx: "unat ((rb_front rb + 1) mod rb_size rb) = (unat (rb_front rb) + 1) mod unat (rb_size rb)"
    using inv by (intro rb_next_unat) (simp_all add: rb_inv_def)
  have "rb_contents rb = rb_data rb (unat (rb_front rb)) #
      ring_list (rb_data rb) (unat (rb_size rb)) ((unat (rb_front rb) + 1) mod unat (rb_size rb)) (unat (rb_rear rb))"
    unfolding rb_contents_def
    by (rule ring_list_pop) (use inv ne in \<open>simp_all add: rb_inv_def rb_isEmpty_def word_eq_unat\<close>)
  then have c: "rb_data rb (unat (rb_front rb)) = x" "rb_contents ?rb' = xs"
    using Cons nx by (simp_all add: rb_contents_def)
  have "rb_pop rb = Inr (Some x, ?rb')"
    using inv ne c rb_in_boundsI[OF inv, of "rb_front rb"] by (auto simp: rb_pop_def rb_inv_def)
  moreover have "rb_inv ?rb'"
    using inv nx ring_next_less[of "unat (rb_front rb)"] by (simp add: rb_inv_def)
  ultimately show ?thesis using c by blast
qed

lemma rb_room_cap: "rb_inv rb \<Longrightarrow> rb_room rb \<longleftrightarrow> length (rb_contents rb) < rb_cap rb"
proof -
  assume inv: "rb_inv rb"
  then have "ring_len (unat (rb_size rb)) (unat (rb_front rb)) (unat (rb_rear rb)) < unat (rb_size rb)"
    by (intro ring_len_less) (simp_all add: rb_inv_def)
  with inv show ?thesis
    by (auto simp: rb_room_def rb_cap_def rb_contents_def rb_inv_def ring_full_len[simplified])
qed

lemma rb_push_cap: "rb_push v rb = Inr (ok, rb') \<Longrightarrow> rb_cap rb' = rb_cap rb"
  by (auto simp: rb_push_def obind_eq_Inr rb_cap_def oassert_def split: if_splits)

lemma rb_pop_cap: "rb_pop rb = Inr (r, rb') \<Longrightarrow> rb_cap rb' = rb_cap rb"
  by (auto simp: rb_pop_def obind_eq_Inr rb_cap_def oassert_def split: if_splits)

interpretation rb: bounded_fifo rb_push rb_pop rb_inv rb_contents rb_room rb_cap
  by unfold_locales
    (simp_all add: rb_push_inv rb_push_full rb_pop_empty rb_pop_head rb_room_cap rb_push_cap rb_pop_cap)

lemma rb_push_ptr_Some: "rb_push_ptr (Some v) rb = rb_push v rb"
  by (simp add: rb_push_ptr_def rb_push_def cong: if_cong)

text \<open>
  A batch of fewer messages than the ring has slots, pushed into a fresh ring buffer of any
  size below \<open>2 ^ 31\<close> and popped again, comes back complete and in order, with no fault.
\<close>

lemma rb_batch_roundtrip:
  assumes "unat n < 2 ^ 31" "length xs < unat n"
  shows "\<exists>rb' rb''. push_batch rb_push xs (rb_new n fresh) = Inr (length xs, rb')
    \<and> pop_upto rb_pop (length xs) rb' = Inr (xs, rb'') \<and> rb_contents rb'' = []"
proof -
  have inv: "rb_inv (rb_new n fresh)" "rb_contents (rb_new n fresh) = []"
    using rb_inv_new[of n fresh] assms by auto
  have "length xs \<le> rb_cap (rb_new n fresh)"
    using assms by (simp add: rb_cap_def rb_new_def)
  from rb.batch_roundtrip[OF inv this order_refl] show ?thesis by blast
qed

lemma rb_batch_roundtrip_example:
  "\<exists>rb' rb''. push_batch rb_push [7, 8, 9::nat] (rb_new 4 (\<lambda>_. 0)) = Inr (length [7, 8, 9::nat], rb')
    \<and> pop_upto rb_pop (length [7, 8, 9::nat]) rb' = Inr ([7, 8, 9], rb'') \<and> rb_contents rb'' = []"
  by (rule rb_batch_roundtrip) simp_all

end
