(* ===== verification/Ring_Concurrent.thy ===== *)
theory Ring_Concurrent
  imports Ring_Buffer
begin

text \<open>
  \<open>ringBuffer\<close> as the test server uses it: the main thread pushes into the ring of a worker, and the
  worker pops, without a lock and with plain members.  A call is cut into the accesses to \<open>m_front\<close>,
  \<open>m_rear\<close> and \<open>m_data\<close>, which interleave with those of other threads; they are sequentially
  consistent.  With one producer and one consumer the ring delivers in order and without loss; with
  two producers it does not.
\<close>

section \<open>Threads\<close>

text \<open>
  Where a thread is in \<open>push\<close>: before the read of \<open>m_front\<close> in \<open>isFull\<close>, with its value before the
  comparison, before the store into \<open>m_data\<close>, before the store of \<open>m_rear\<close>.  In \<open>pop\<close>: before the read
  of \<open>m_front\<close> in \<open>isEmpty\<close>, with its value before the comparison, before the load from \<open>m_data\<close>, with
  the value before the store of \<open>m_front\<close>.
\<close>

datatype 'a rb_producer = PIdle | PCall 'a | PTest 'a "32 word" | PStore 'a | PAdvance 'a

datatype 'a rb_consumer = CIdle | CCall | CTest "32 word" | CLoad | CAdvance 'a

text \<open>\<open>(p + 1) % m_size\<close>.\<close>

definition rb_next :: "32 word \<Rightarrow> 'a ringBuffer \<Rightarrow> 32 word outcome" where
  "rb_next p rb = (if rb_size rb = 0 then Inl DivByZero else Inr ((p + 1) mod rb_size rb))"

text \<open>A step; the first component of the result is what \<open>push\<close> or \<open>pop\<close> returns, if it does.\<close>

fun rb_producer_step :: "'a rb_producer \<Rightarrow> 'a ringBuffer \<Rightarrow> (bool option \<times> 'a rb_producer \<times> 'a ringBuffer) outcome" where
  "rb_producer_step PIdle rb = Inr (None, PIdle, rb)"
| "rb_producer_step (PCall v) rb = Inr (None, PTest v (rb_front rb), rb)"
| "rb_producer_step (PTest v f) rb =
    obind (rb_next (rb_rear rb) rb) (\<lambda>r. Inr (if f = r then (Some False, PIdle, rb) else (None, PStore v, rb)))"
| "rb_producer_step (PStore v) rb =
    obind (oassert OutOfBounds (rb_in_bounds rb (rb_rear rb))) (\<lambda>_.
      Inr (None, PAdvance v, rb\<lparr>rb_data := (rb_data rb)(unat (rb_rear rb) := v)\<rparr>))"
| "rb_producer_step (PAdvance v) rb =
    obind (rb_next (rb_rear rb) rb) (\<lambda>r. Inr (Some True, PIdle, rb\<lparr>rb_rear := r\<rparr>))"

fun rb_consumer_step :: "'a rb_consumer \<Rightarrow> 'a ringBuffer \<Rightarrow> ('a option option \<times> 'a rb_consumer \<times> 'a ringBuffer) outcome" where
  "rb_consumer_step CIdle rb = Inr (None, CIdle, rb)"
| "rb_consumer_step CCall rb = Inr (None, CTest (rb_front rb), rb)"
| "rb_consumer_step (CTest f) rb = Inr (if f = rb_rear rb then (Some None, CIdle, rb) else (None, CLoad, rb))"
| "rb_consumer_step CLoad rb =
    obind (oassert OutOfBounds (rb_in_bounds rb (rb_front rb))) (\<lambda>_.
      Inr (None, CAdvance (rb_data rb (unat (rb_front rb))), rb))"
| "rb_consumer_step (CAdvance v) rb =
    obind (rb_next (rb_front rb) rb) (\<lambda>f. Inr (Some (Some v), CIdle, rb\<lparr>rb_front := f\<rparr>))"

section \<open>The system\<close>

record 'a rb_sys =
  rs_ring :: "'a ringBuffer"
  rs_prod :: "nat \<Rightarrow> 'a rb_producer"
  rs_cons :: "'a rb_consumer"
  rs_sent :: "'a list" \<comment> \<open>messages whose \<open>push\<close> has returned true, in this order\<close>
  rs_got :: "'a list" \<comment> \<open>what \<open>pop\<close> has returned\<close>

definition rb_sys_new :: "32 word \<Rightarrow> 'a arr \<Rightarrow> 'a rb_sys" where
  "rb_sys_new n fresh = \<lparr>rs_ring = rb_new n fresh, rs_prod = (\<lambda>_. PIdle), rs_cons = CIdle, rs_sent = [], rs_got = []\<rparr>"

datatype 'a rb_action = RPush nat 'a | RProduce nat | RPop | RConsume

definition rb_pushed :: "'a rb_producer \<Rightarrow> bool option \<Rightarrow> 'a list" where
  "rb_pushed pc r = (case pc of PAdvance v \<Rightarrow> if r = Some True then [v] else [] | _ \<Rightarrow> [])"

fun rb_act :: "'a rb_action \<Rightarrow> 'a rb_sys \<Rightarrow> 'a rb_sys outcome" where
  "rb_act (RPush t v) st = Inr (if rs_prod st t = PIdle then st\<lparr>rs_prod := (rs_prod st)(t := PCall v)\<rparr> else st)"
| "rb_act (RProduce t) st =
    obind (rb_producer_step (rs_prod st t) (rs_ring st)) (\<lambda>(r, p, rb).
      Inr (st\<lparr>rs_ring := rb, rs_prod := (rs_prod st)(t := p), rs_sent := rs_sent st @ rb_pushed (rs_prod st t) r\<rparr>))"
| "rb_act RPop st = Inr (if rs_cons st = CIdle then st\<lparr>rs_cons := CCall\<rparr> else st)"
| "rb_act RConsume st =
    obind (rb_consumer_step (rs_cons st) (rs_ring st)) (\<lambda>(r, c, rb).
      Inr (st\<lparr>rs_ring := rb, rs_cons := c, rs_got := rs_got st @ (case r of Some (Some v) \<Rightarrow> [v] | _ \<Rightarrow> [])\<rparr>))"

fun rb_run :: "'a rb_action list \<Rightarrow> 'a rb_sys \<Rightarrow> 'a rb_sys outcome" where
  "rb_run [] st = Inr st"
| "rb_run (a # as) st = obind (rb_act a st) (rb_run as)"

text \<open>Only thread 0 produces.\<close>

fun rb_act_ok :: "'a rb_action \<Rightarrow> bool" where
  "rb_act_ok (RPush t v) \<longleftrightarrow> t = 0"
| "rb_act_ok (RProduce t) \<longleftrightarrow> t = 0"
| "rb_act_ok RPop \<longleftrightarrow> True"
| "rb_act_ok RConsume \<longleftrightarrow> True"

section \<open>The stores, one by one\<close>

abbreviation rb_N :: "'a ringBuffer \<Rightarrow> nat" where "rb_N rb \<equiv> unat (rb_size rb)"
abbreviation rb_F :: "'a ringBuffer \<Rightarrow> nat" where "rb_F rb \<equiv> unat (rb_front rb)"
abbreviation rb_R :: "'a ringBuffer \<Rightarrow> nat" where "rb_R rb \<equiv> unat (rb_rear rb)"

lemma rb_next_inv:
  assumes "rb_inv rb" "unat p < rb_N rb"
  shows "\<exists>q. rb_next p rb = Inr q \<and> unat q = (unat p + 1) mod rb_N rb"
  using assms rb_next_unat[of "rb_size rb" p] by (auto simp: rb_next_def rb_inv_def)

lemma rb_invD:
  "rb_inv rb \<Longrightarrow> rb_F rb < rb_N rb" "rb_inv rb \<Longrightarrow> rb_R rb < rb_N rb" "rb_inv rb \<Longrightarrow> rb_size rb \<noteq> 0"
  by (auto simp: rb_inv_def)

text \<open>The store into the free slot does not show.\<close>

lemma rb_store_hidden:
  assumes "rb_inv rb"
  shows "rb_contents (rb\<lparr>rb_data := (rb_data rb)(rb_R rb := v)\<rparr>) = rb_contents rb"
proof -
  have "ring_list ((rb_data rb)(rb_R rb := v)) (rb_N rb) (rb_F rb) (rb_R rb) = ring_list (rb_data rb) (rb_N rb) (rb_F rb) (rb_R rb)"
    by (intro ring_list_upd_outside ring_slot_inj rb_invD assms)
  then show ?thesis by (simp add: rb_contents_def)
qed

lemma rb_rear_moves:
  assumes "rb_inv rb" "rb_room rb" "unat r = (rb_R rb + 1) mod rb_N rb"
  shows "rb_contents (rb\<lparr>rb_rear := r\<rparr>) = rb_contents rb @ [rb_data rb (rb_R rb)]"
proof -
  have "ring_list ((rb_data rb)(rb_R rb := rb_data rb (rb_R rb))) (rb_N rb) (rb_F rb) ((rb_R rb + 1) mod rb_N rb)
      = ring_list (rb_data rb) (rb_N rb) (rb_F rb) (rb_R rb) @ [rb_data rb (rb_R rb)]"
    by (rule ring_list_push) (use rb_invD[OF assms(1)] assms(2) in \<open>simp_all add: rb_room_def\<close>)
  then show ?thesis using assms(3) by (simp add: rb_contents_def)
qed

lemma rb_front_moves:
  assumes "rb_inv rb" "rb_contents rb \<noteq> []" "unat f = (rb_F rb + 1) mod rb_N rb"
  shows "rb_contents rb = rb_data rb (rb_F rb) # rb_contents (rb\<lparr>rb_front := f\<rparr>)"
proof -
  have "rb_F rb \<noteq> rb_R rb" using assms(1,2) rb_isEmpty_contents by (fastforce simp: rb_isEmpty_def word_eq_unat)
  from ring_list_pop[OF rb_invD(1,2)[OF assms(1)] this, of "rb_data rb"] assms(3)
  show ?thesis by (simp add: rb_contents_def)
qed

lemma rb_room_length: "rb_inv rb \<Longrightarrow> rb_room rb \<longleftrightarrow> length (rb_contents rb) < rb_N rb - 1"
  using rb_room_cap[of rb] by (simp add: rb_cap_def)

section \<open>One producer and one consumer\<close>

text \<open>
  What a thread knows where it is.  A value of \<open>m_front\<close> the producer has read may be old, but it
  only makes the ring look fuller than it is.
\<close>

definition rb_prod_inv :: "'a rb_producer \<Rightarrow> 'a ringBuffer \<Rightarrow> bool" where
  "rb_prod_inv pc rb \<longleftrightarrow> (case pc of
     PIdle \<Rightarrow> True
   | PCall v \<Rightarrow> True
   | PTest v f \<Rightarrow> unat f < rb_N rb \<and> length (rb_contents rb) \<le> ring_len (rb_N rb) (unat f) (rb_R rb)
   | PStore v \<Rightarrow> rb_room rb
   | PAdvance v \<Rightarrow> rb_room rb \<and> rb_data rb (rb_R rb) = v)"

definition rb_cons_inv :: "'a rb_consumer \<Rightarrow> 'a ringBuffer \<Rightarrow> bool" where
  "rb_cons_inv pc rb \<longleftrightarrow> (case pc of
     CIdle \<Rightarrow> True
   | CCall \<Rightarrow> True
   | CTest f \<Rightarrow> f = rb_front rb
   | CLoad \<Rightarrow> rb_contents rb \<noteq> []
   | CAdvance v \<Rightarrow> rb_contents rb \<noteq> [] \<and> rb_data rb (rb_F rb) = v)"

definition rs_inv :: "nat \<Rightarrow> 'a rb_sys \<Rightarrow> bool" where
  "rs_inv n st \<longleftrightarrow> rb_inv (rs_ring st) \<and> rb_N (rs_ring st) = n
     \<and> rb_prod_inv (rs_prod st 0) (rs_ring st) \<and> rb_cons_inv (rs_cons st) (rs_ring st)
     \<and> rs_got st @ rb_contents (rs_ring st) = rs_sent st"

text \<open>A step of the producer keeps what both know, and the consumer's part of the ring.\<close>

lemma rb_producer_step_inv:
  assumes inv: "rb_inv rb" and p: "rb_prod_inv pc rb" and c: "rb_cons_inv cc rb"
  shows "\<exists>r pc' rb'. rb_producer_step pc rb = Inr (r, pc', rb') \<and> rb_inv rb' \<and> rb_N rb' = rb_N rb
    \<and> rb_prod_inv pc' rb' \<and> rb_cons_inv cc rb' \<and> rb_contents rb' = rb_contents rb @ rb_pushed pc r"
proof (cases pc)
  case (PTest v f)
  obtain q where q: "rb_next (rb_rear rb) rb = Inr q" "unat q = (rb_R rb + 1) mod rb_N rb"
    using rb_next_inv[OF inv rb_invD(2)[OF inv]] by blast
  have f: "unat f < rb_N rb" "length (rb_contents rb) \<le> ring_len (rb_N rb) (unat f) (rb_R rb)"
    using p PTest by (simp_all add: rb_prod_inv_def)
  have "rb_room rb" if "f \<noteq> q"
  proof -
    have "ring_len (rb_N rb) (unat f) (rb_R rb) \<noteq> rb_N rb - 1"
      using that q(2) ring_full_len[OF f(1) rb_invD(2)[OF inv]] by (auto simp: word_eq_unat)
    then show ?thesis using f(2) ring_len_less[OF f(1) rb_invD(2)[OF inv]] by (simp add: rb_room_length[OF inv])
  qed
  then show ?thesis using PTest q inv c by (auto simp: rb_prod_inv_def rb_pushed_def)
next
  case (PStore v)
  let ?rb = "rb\<lparr>rb_data := (rb_data rb)(rb_R rb := v)\<rparr>"
  have "rb_room rb" using p PStore by (simp add: rb_prod_inv_def)
  moreover have "rb_cons_inv cc ?rb"
    using c rb_store_hidden[OF inv, of v] rb_isEmpty_contents[OF inv]
    by (auto simp: rb_cons_inv_def rb_isEmpty_def word_eq_unat split: rb_consumer.splits)
  ultimately show ?thesis
    using PStore inv rb_store_hidden[OF inv, of v] rb_in_boundsI[OF inv rb_invD(2)[OF inv]]
    by (auto simp: rb_prod_inv_def rb_pushed_def rb_inv_def rb_room_def)
next
  case (PAdvance v)
  obtain q where q: "rb_next (rb_rear rb) rb = Inr q" "unat q = (rb_R rb + 1) mod rb_N rb"
    using rb_next_inv[OF inv rb_invD(2)[OF inv]] by blast
  have cont: "rb_contents (rb\<lparr>rb_rear := q\<rparr>) = rb_contents rb @ [v]"
    using rb_rear_moves[OF inv _ q(2)] p PAdvance by (simp add: rb_prod_inv_def)
  then have "rb_cons_inv cc (rb\<lparr>rb_rear := q\<rparr>)"
    using c by (auto simp: rb_cons_inv_def split: rb_consumer.splits)
  moreover have "rb_inv (rb\<lparr>rb_rear := q\<rparr>)" using inv q(2) rb_invD(2)[OF inv] by (simp add: rb_inv_def)
  ultimately show ?thesis using PAdvance q(1) cont by (simp add: rb_prod_inv_def rb_pushed_def)
qed (use inv c in \<open>auto simp: rb_prod_inv_def rb_pushed_def rb_contents_def rb_inv_def\<close>)

lemma rb_consumer_step_inv:
  assumes inv: "rb_inv rb" and p: "rb_prod_inv pc rb" and c: "rb_cons_inv cc rb"
  shows "\<exists>r cc' rb'. rb_consumer_step cc rb = Inr (r, cc', rb') \<and> rb_inv rb' \<and> rb_N rb' = rb_N rb
    \<and> rb_prod_inv pc rb' \<and> rb_cons_inv cc' rb' \<and> rb_contents rb = (case r of Some (Some v) \<Rightarrow> [v] | _ \<Rightarrow> []) @ rb_contents rb'"
proof (cases cc)
  case (CTest f)
  then show ?thesis using inv p c rb_isEmpty_contents[OF inv] by (auto simp: rb_cons_inv_def rb_isEmpty_def)
next
  case (CAdvance v)
  obtain q where q: "rb_next (rb_front rb) rb = Inr q" "unat q = (rb_F rb + 1) mod rb_N rb"
    using rb_next_inv[OF inv rb_invD(1)[OF inv]] by blast
  let ?rb = "rb\<lparr>rb_front := q\<rparr>"
  have cont: "rb_contents rb = v # rb_contents ?rb"
    using rb_front_moves[OF inv _ q(2)] c CAdvance by (simp add: rb_cons_inv_def)
  have inv': "rb_inv ?rb" using inv q(2) rb_invD(1)[OF inv] by (simp add: rb_inv_def)
  have "rb_prod_inv pc ?rb"
    using p cont rb_room_length[OF inv] rb_room_length[OF inv'] by (auto simp: rb_prod_inv_def split: rb_producer.splits)
  then show ?thesis using CAdvance q(1) cont inv' by (simp add: rb_cons_inv_def)
qed (use inv p c rb_in_boundsI[OF inv rb_invD(1)[OF inv]] in \<open>auto simp: rb_cons_inv_def\<close>)

lemma rs_invD:
  assumes "rs_inv n st"
  shows "rb_inv (rs_ring st)" "rb_prod_inv (rs_prod st 0) (rs_ring st)" "rb_cons_inv (rs_cons st) (rs_ring st)"
    "rb_N (rs_ring st) = n" "rs_got st @ rb_contents (rs_ring st) = rs_sent st"
  using assms by (simp_all add: rs_inv_def)

lemma rb_act_inv:
  assumes "rs_inv n st" "rb_act_ok a"
  shows "\<exists>st'. rb_act a st = Inr st' \<and> rs_inv n st'"
proof (cases a)
  case (RPush t v)
  then show ?thesis using assms by (simp add: rs_inv_def rb_prod_inv_def)
next
  case (RProduce t)
  from rb_producer_step_inv[OF rs_invD(1-3)[OF assms(1)]] obtain r pc' rb' where
    r: "rb_producer_step (rs_prod st 0) (rs_ring st) = Inr (r, pc', rb')" "rb_inv rb'" "rb_N rb' = rb_N (rs_ring st)"
      "rb_prod_inv pc' rb'" "rb_cons_inv (rs_cons st) rb'" "rb_contents rb' = rb_contents (rs_ring st) @ rb_pushed (rs_prod st 0) r"
    by blast
  have "rs_got st @ rb_contents rb' = rs_sent st @ rb_pushed (rs_prod st 0) r" by (simp flip: rs_invD(5)[OF assms(1)] add: r(6))
  then show ?thesis using assms(2) RProduce r(1-5) rs_invD(4)[OF assms(1)] by (simp add: rs_inv_def)
next
  case RPop
  then show ?thesis using assms by (simp add: rs_inv_def rb_cons_inv_def)
next
  case RConsume
  from rb_consumer_step_inv[OF rs_invD(1-3)[OF assms(1)]] obtain r cc' rb' where
    r: "rb_consumer_step (rs_cons st) (rs_ring st) = Inr (r, cc', rb')" "rb_inv rb'" "rb_N rb' = rb_N (rs_ring st)"
      "rb_prod_inv (rs_prod st 0) rb'" "rb_cons_inv cc' rb'"
      "rb_contents (rs_ring st) = (case r of Some (Some v) \<Rightarrow> [v] | _ \<Rightarrow> []) @ rb_contents rb'"
    by blast
  have "(rs_got st @ (case r of Some (Some v) \<Rightarrow> [v] | _ \<Rightarrow> [])) @ rb_contents rb' = rs_sent st"
    by (simp flip: rs_invD(5)[OF assms(1)] add: r(6))
  then show ?thesis using RConsume r(1-5) rs_invD(4)[OF assms(1)] by (simp add: rs_inv_def)
qed

lemma rb_run_inv: "rs_inv n st \<Longrightarrow> \<forall>a\<in>set as. rb_act_ok a \<Longrightarrow> \<exists>st'. rb_run as st = Inr st' \<and> rs_inv n st'"
proof (induction "as" arbitrary: st)
  case (Cons a as)
  then show ?case using rb_act_inv[of n st a] by fastforce
qed simp

text \<open>
  C17: the ring of a worker is safe and exact.  However the steps of one thread that pushes and one
  that pops interleave, in a ring of \<open>m_size\<close> slots with \<open>0 < m_size < 2 ^ 31\<close>: no step divides by zero
  or leaves the array, what \<open>pop\<close> has returned, followed by what is in the ring, is exactly what
  \<open>push\<close> has returned true for, in order, and the ring holds fewer than \<open>m_size\<close> messages.
\<close>

theorem ring_spsc_fifo:
  assumes "0 < unat n" "unat n < 2 ^ 31" "\<forall>a\<in>set as. rb_act_ok a"
  shows "\<exists>st. rb_run as (rb_sys_new n fresh) = Inr st
    \<and> rs_got st @ rb_contents (rs_ring st) = rs_sent st \<and> length (rb_contents (rs_ring st)) < unat n"
proof -
  have "rs_inv (unat n) (rb_sys_new n fresh)"
    using rb_inv_new[OF assms(1,2), of fresh] by (simp add: rs_inv_def rb_sys_new_def rb_prod_inv_def rb_cons_inv_def) (simp add: rb_new_def)
  then obtain st where st: "rb_run as (rb_sys_new n fresh) = Inr st" "rs_inv (unat n) st" using rb_run_inv[OF _ assms(3)] by blast
  then show ?thesis
    using ring_len_less[OF rb_invD(1,2), of "rs_ring st"] by (auto simp: rs_inv_def rb_contents_def)
qed

theorem ring_spsc_fifo_witness:
  "\<exists>st. rb_run [RPush 0 7, RProduce 0, RPop, RConsume, RProduce 0, RProduce 0, RConsume, RProduce 0, RPush 0 8,
      RPop, RConsume, RConsume, RProduce 0, RConsume, RConsume, RProduce 0] (rb_sys_new 2 (\<lambda>_. 0 :: nat)) = Inr st
    \<and> rs_got st @ rb_contents (rs_ring st) = rs_sent st \<and> length (rb_contents (rs_ring st)) < unat (2 :: 32 word)"
  by (rule ring_spsc_fifo) simp_all

section \<open>A call alone\<close>

text \<open>The steps of a call up to its return; one that no other thread interrupts is the atomic method.\<close>

fun rb_push_alone :: "nat \<Rightarrow> 'a rb_producer \<Rightarrow> 'a ringBuffer \<Rightarrow> (bool option \<times> 'a ringBuffer) outcome" where
  "rb_push_alone 0 pc rb = Inr (None, rb)"
| "rb_push_alone (Suc k) pc rb =
    obind (rb_producer_step pc rb) (\<lambda>(r, pc', rb'). if r = None then rb_push_alone k pc' rb' else Inr (r, rb'))"

fun rb_pop_alone :: "nat \<Rightarrow> 'a rb_consumer \<Rightarrow> 'a ringBuffer \<Rightarrow> ('a option option \<times> 'a ringBuffer) outcome" where
  "rb_pop_alone 0 pc rb = Inr (None, rb)"
| "rb_pop_alone (Suc k) pc rb =
    obind (rb_consumer_step pc rb) (\<lambda>(r, pc', rb'). if r = None then rb_pop_alone k pc' rb' else Inr (r, rb'))"

lemma rb_push_atomic: "rb_push_alone 4 (PCall v) rb = obind (rb_push v rb) (\<lambda>(ok, rb'). Inr (Some ok, rb'))"
proof -
  have four: "(4 :: nat) = Suc (Suc (Suc (Suc 0)))" by simp
  show ?thesis
    by (cases "rb_in_bounds rb (rb_rear rb)")
      (simp_all add: four rb_push_def rb_isFull_def rb_next_def)
qed

lemma rb_pop_atomic: "rb_pop_alone 4 CCall rb = obind (rb_pop rb) (\<lambda>(r, rb'). Inr (Some r, rb'))"
proof -
  have four: "(4 :: nat) = Suc (Suc (Suc (Suc 0)))" by simp
  show ?thesis
    by (cases "rb_in_bounds rb (rb_front rb)") (simp_all add: four rb_pop_def rb_isEmpty_def rb_next_def)
qed

section \<open>Two producers\<close>

text \<open>
  Two threads that push at the same time: both find room, both store into the same slot, both
  move \<open>m_rear\<close>.  Both calls return true; the consumer gets the second message and then what the next
  slot happens to hold.
\<close>

lemma ring_two_producers_lose:
  "\<exists>st. rb_run [RPush 0 7, RPush 1 8, RProduce 0, RProduce 0, RProduce 1, RProduce 1, RProduce 0, RProduce 1, RProduce 0,
      RProduce 1, RPop, RConsume, RConsume, RConsume, RConsume, RPop, RConsume, RConsume, RConsume, RConsume]
      (rb_sys_new 4 (\<lambda>_. 0 :: nat)) = Inr st
    \<and> rs_sent st = [7, 8] \<and> rs_got st = [8, 0]"
  by (simp add: rb_sys_new_def rb_new_def rb_next_def rb_in_bounds_def rb_pushed_def)

end
