(* ===== verification/Srt_Queue.thy ===== *)
theory Srt_Queue
  imports Fifo_Interface
begin

text \<open>
  \<open>srt_queue\<close> (base/src/mqueue.h): the queue for many writers and one reader that carries the
  tasks of every \<open>cellManager\<close>.  Messages live in pages of \<open>2 ^ page_msg_bits\<close> slots; the table
  \<open>page_indexes_\<close> of \<open>2 ^ page_index_bits\<close> entries maps the page number of an index, modulo
  the table size, to a page, allocated on first use and freed when its last slot is read.
  Pages live in a heap from addresses to slot arrays, so that a use of a freed page is a
  fault.  \<open>bint64\<close> indices are integers: they count the messages ever pushed and stay far
  below \<open>2 ^ 63\<close>.  The primitives here are the atomic actions; \<open>srt_push\<close> and \<open>srt_pop\<close> run
  them without interference, and theory \<open>Srt_Concurrent\<close> interleaves them.
\<close>

record 'a srt_message =
  sm_msg :: 'a
  sm_flag :: "16 word"

record 'a srt_queue =
  sq_initialized :: bool
  sq_page_indexes :: "int \<Rightarrow> nat option"
  sq_heap :: "nat \<Rightarrow> (nat \<Rightarrow> 'a srt_message) option"
  sq_next :: nat
  sq_post_index :: int
  sq_get_index :: int
  sq_page_index_count :: int
  sq_page_index_mask :: int
  sq_page_msg_count :: int
  sq_page_msg_mask :: int
  sq_page_msg_bits :: nat
  sq_zero :: 'a \<comment> \<open>the value of \<open>T\<close> whose bytes are all zero\<close>

definition kDefaultPageMsgCountBits :: nat where
  "kDefaultPageMsgCountBits = 16"

definition kDefaultPageIndexBits :: nat where
  "kDefaultPageIndexBits = 15"

definition srt_new :: "'a \<Rightarrow> nat \<Rightarrow> nat \<Rightarrow> 'a srt_queue" where
  "srt_new zero page_msg_bits page_index_bits =
    (let page_msg_count = push_bit page_msg_bits 1;
         page_index_count = push_bit page_index_bits 1
     in \<lparr>sq_initialized = False, sq_page_indexes = (\<lambda>_. None), sq_heap = (\<lambda>_. None), sq_next = 0,
         sq_post_index = 0, sq_get_index = 0,
         sq_page_index_count = page_index_count, sq_page_index_mask = page_index_count - 1,
         sq_page_msg_count = page_msg_count, sq_page_msg_mask = page_msg_count - 1,
         sq_page_msg_bits = page_msg_bits, sq_zero = zero\<rparr>)"

text \<open>\<open>new srt_message[page_msg_count_]\<close>, zeroed, stored into the table.\<close>

definition srt_alloc_page :: "int \<Rightarrow> 'a srt_queue \<Rightarrow> nat \<times> 'a srt_queue" where
  "srt_alloc_page page_index q =
    (sq_next q,
     q\<lparr>sq_heap := (sq_heap q)(sq_next q \<mapsto> (\<lambda>_. \<lparr>sm_msg = sq_zero q, sm_flag = 0\<rparr>)),
       sq_page_indexes := (sq_page_indexes q)(page_index \<mapsto> sq_next q),
       sq_next := Suc (sq_next q)\<rparr>)"

definition srt_init :: "'a srt_queue \<Rightarrow> bool \<times> 'a srt_queue" where
  "srt_init q =
    (if sq_initialized q then (True, q)
     else (True, (snd (srt_alloc_page 0 (q\<lparr>sq_page_indexes := (\<lambda>_. None)\<rparr>)))\<lparr>sq_initialized := True\<rparr>))"

definition srt_get_msg_page :: "int \<Rightarrow> 'a srt_queue \<Rightarrow> (nat \<times> 'a srt_queue) outcome" where
  "srt_get_msg_page page_index q =
    obind (oassert AssertFail (sq_initialized q)) (\<lambda>_.
    obind (oassert AssertFail (0 \<le> page_index \<and> page_index < sq_page_index_count q)) (\<lambda>_.
      case sq_page_indexes q page_index of
        Some page \<Rightarrow> Inr (page, q)
      | None \<Rightarrow> Inr (srt_alloc_page page_index q)))"

text \<open>\<open>page[off]\<close>: a read, a write of the message, a write of the flag.\<close>

definition srt_page :: "'a srt_queue \<Rightarrow> nat \<Rightarrow> int \<Rightarrow> (nat \<Rightarrow> 'a srt_message) outcome" where
  "srt_page q page off =
    (case sq_heap q page of
       None \<Rightarrow> Inl UseAfterFree
     | Some slots \<Rightarrow> obind (oassert OutOfBounds (0 \<le> off \<and> off < sq_page_msg_count q)) (\<lambda>_. Inr slots))"

definition srt_load :: "nat \<Rightarrow> int \<Rightarrow> 'a srt_queue \<Rightarrow> 'a srt_message outcome" where
  "srt_load page off q = obind (srt_page q page off) (\<lambda>slots. Inr (slots (nat off)))"

definition srt_store_msg :: "nat \<Rightarrow> int \<Rightarrow> 'a \<Rightarrow> 'a srt_queue \<Rightarrow> 'a srt_queue outcome" where
  "srt_store_msg page off msg q = obind (srt_page q page off) (\<lambda>slots.
     Inr (q\<lparr>sq_heap := (sq_heap q)(page \<mapsto> slots(nat off := (slots (nat off))\<lparr>sm_msg := msg\<rparr>))\<rparr>))"

definition srt_store_flag :: "nat \<Rightarrow> int \<Rightarrow> 'a srt_queue \<Rightarrow> 'a srt_queue outcome" where
  "srt_store_flag page off q = obind (srt_page q page off) (\<lambda>slots.
     Inr (q\<lparr>sq_heap := (sq_heap q)(page \<mapsto> slots(nat off := (slots (nat off))\<lparr>sm_flag := 1\<rparr>))\<rparr>))"

text \<open>\<open>delete[] page; page_indexes_[page_index] = NULL\<close>.\<close>

definition srt_free_page :: "nat \<Rightarrow> int \<Rightarrow> 'a srt_queue \<Rightarrow> 'a srt_queue outcome" where
  "srt_free_page page page_index q =
    (case sq_heap q page of
       None \<Rightarrow> Inl UseAfterFree
     | Some slots \<Rightarrow> Inr (q\<lparr>sq_heap := (sq_heap q)(page := None),
                             sq_page_indexes := (sq_page_indexes q)(page_index := None)\<rparr>))"

text \<open>Where index \<open>i\<close> lives: table entry and offset in the page.\<close>

definition srt_pidx :: "'a srt_queue \<Rightarrow> int \<Rightarrow> int" where
  "srt_pidx q i = drop_bit (sq_page_msg_bits q) i AND sq_page_index_mask q"

definition srt_off :: "'a srt_queue \<Rightarrow> int \<Rightarrow> int" where
  "srt_off q i = i AND sq_page_msg_mask q"

text \<open>The test that drops a message, on the two indices as read.\<close>

definition srt_full :: "'a srt_queue \<Rightarrow> int \<Rightarrow> int \<Rightarrow> bool" where
  "srt_full q post get \<longleftrightarrow> drop_bit (sq_page_msg_bits q) (post - get) \<ge> sq_page_index_count q - 1"

definition srt_push :: "'a \<Rightarrow> 'a srt_queue \<Rightarrow> (bool \<times> 'a srt_queue) outcome" where
  "srt_push msg q =
    obind (oassert AssertFail (sq_initialized q)) (\<lambda>_.
      if srt_full q (sq_post_index q) (sq_get_index q) then Inr (False, q)
      else
        let post_index = sq_post_index q;
            q1 = q\<lparr>sq_post_index := sq_post_index q + 1\<rparr>
        in obind (srt_get_msg_page (srt_pidx q1 post_index) q1) (\<lambda>(page, q2).
           obind (srt_store_msg page (srt_off q2 post_index) msg q2) (\<lambda>q3.
           obind (srt_store_flag page (srt_off q3 post_index) q3) (\<lambda>q4.
             Inr (True, q4)))))"

definition srt_pop :: "'a srt_queue \<Rightarrow> ('a option \<times> 'a srt_queue) outcome" where
  "srt_pop q =
    obind (oassert AssertFail (sq_initialized q)) (\<lambda>_.
      if sq_get_index q \<ge> sq_post_index q then Inr (None, q)
      else
        let get_index = sq_get_index q; page_index = srt_pidx q get_index
        in obind (srt_get_msg_page page_index q) (\<lambda>(page, q1).
           obind (srt_load page (srt_off q1 get_index) q1) (\<lambda>slot.
             if sm_flag slot = 1 then
               obind (if srt_off q1 get_index = sq_page_msg_mask q1
                      then srt_free_page page page_index q1 else Inr q1) (\<lambda>q2.
                 Inr (Some (sm_msg slot), q2\<lparr>sq_get_index := sq_get_index q2 + 1\<rparr>))
             else Inr (None, q1))))"

definition srt_size :: "'a srt_queue \<Rightarrow> int" where
  "srt_size q = sq_post_index q - sq_get_index q"

text \<open>\<open>release\<close>, the body of the destructor: every page in the table, then the table.\<close>

function srt_release_loop :: "int \<Rightarrow> 'a srt_queue \<Rightarrow> 'a srt_queue outcome" where
  "srt_release_loop i q =
    (if i < sq_page_index_count q then
       (case sq_page_indexes q i of
          None \<Rightarrow> srt_release_loop (i + 1) q
        | Some page \<Rightarrow> (case srt_free_page page i q of
            Inl e \<Rightarrow> Inl e
          | Inr q' \<Rightarrow> srt_release_loop (i + 1) q'))
     else Inr q)"
  by pat_completeness auto
termination
  by (relation "measure (\<lambda>(i, q). nat (sq_page_index_count q - i))")
    (auto simp: srt_free_page_def split: option.splits)

declare srt_release_loop.simps [simp del]

definition srt_release :: "'a srt_queue \<Rightarrow> (bool \<times> 'a srt_queue) outcome" where
  "srt_release q = obind (srt_release_loop 0 q) (\<lambda>q'. Inr (True, q'\<lparr>sq_initialized := False\<rparr>))"

section \<open>Geometry\<close>

definition srt_geom :: "'a srt_queue \<Rightarrow> bool" where
  "srt_geom q \<longleftrightarrow> (\<exists>ib. sq_page_index_count q = 2 ^ ib \<and> sq_page_index_mask q = 2 ^ ib - 1)
     \<and> sq_page_msg_count q = 2 ^ sq_page_msg_bits q \<and> sq_page_msg_mask q = 2 ^ sq_page_msg_bits q - 1"

lemma and_mask_mod: "x AND (2 ^ n - 1) = x mod 2 ^ n" for x :: int
  by (simp add: take_bit_eq_mod[symmetric] take_bit_eq_mask mask_eq_exp_minus_1)

lemma srt_coords:
  assumes "srt_geom q"
  shows "srt_pidx q i = (i div sq_page_msg_count q) mod sq_page_index_count q"
    and "srt_off q i = i mod sq_page_msg_count q"
    and "0 < sq_page_msg_count q" "0 < sq_page_index_count q"
    and "sq_page_msg_mask q = sq_page_msg_count q - 1"
  using assms by (auto simp: srt_geom_def srt_pidx_def srt_off_def and_mask_mod drop_bit_eq_div)

lemma srt_coords_range:
  assumes "srt_geom q"
  shows "0 \<le> srt_pidx q i" "srt_pidx q i < sq_page_index_count q"
    "0 \<le> srt_off q i" "srt_off q i < sq_page_msg_count q"
  using srt_coords[OF assms] by simp_all

lemma int_le_div_iff: "0 < p \<Longrightarrow> k \<le> x div p \<longleftrightarrow> k * p \<le> x" for k x p :: int
proof
  assume p: "0 < p" and "k \<le> x div p"
  then have "k * p \<le> x div p * p" by (simp add: mult_right_mono)
  also have "\<dots> \<le> x" using p by (metis div_mult_mod_eq le_add_same_cancel1 pos_mod_sign)
  finally show "k * p \<le> x" .
next
  assume p: "0 < p" and "k * p \<le> x"
  then have "k * p div p \<le> x div p" by (intro zdiv_mono1)
  with p show "k \<le> x div p" by simp
qed

lemma srt_full_iff:
  assumes "srt_geom q"
  shows "srt_full q post get \<longleftrightarrow> (sq_page_index_count q - 1) * sq_page_msg_count q \<le> post - get"
proof -
  have "2 ^ sq_page_msg_bits q = sq_page_msg_count q" using assms by (simp add: srt_geom_def)
  then show ?thesis
    using int_le_div_iff[OF srt_coords(3)[OF assms]] by (simp add: srt_full_def drop_bit_eq_div)
qed

text \<open>
  Two indices at most \<open>count - 1\<close> pages of messages apart live in different slots, and when
  they share a table entry they share the page.
\<close>

lemma div_diff_le: "0 < p \<Longrightarrow> i \<le> j \<Longrightarrow> j \<le> i + k * p \<Longrightarrow> j div p \<le> i div p + k" for i j k p :: int
proof -
  assume p: "0 < p" and "j \<le> i + k * p"
  then have "j div p \<le> (i + k * p) div p" by (intro zdiv_mono1)
  also have "\<dots> = i div p + k" using p by simp
  finally show ?thesis .
qed

lemma srt_same_page:
  assumes g: "srt_geom q" and ij: "i \<le> j" "j \<le> i + (sq_page_index_count q - 1) * sq_page_msg_count q"
    and eq: "srt_pidx q i = srt_pidx q j"
  shows "i div sq_page_msg_count q = j div sq_page_msg_count q"
proof -
  let ?P = "sq_page_msg_count q" and ?C = "sq_page_index_count q"
  note c = srt_coords[OF g]
  have "j div ?P \<le> i div ?P + (?C - 1)" by (rule div_diff_le[OF c(3) ij])
  moreover have "i div ?P \<le> j div ?P" using ij(1) c(3) by (rule zdiv_mono1)
  moreover have "?C dvd j div ?P - i div ?P"
    using eq by (simp add: c(1) mod_eq_dvd_iff dvd_diff_commute)
  ultimately show ?thesis
    using zdvd_imp_le[of ?C "j div ?P - i div ?P"] by linarith
qed

lemma srt_slot_distinct:
  assumes g: "srt_geom q" and ij: "i < j" "j \<le> i + (sq_page_index_count q - 1) * sq_page_msg_count q"
  shows "\<not> (srt_pidx q i = srt_pidx q j \<and> srt_off q i = srt_off q j)"
proof
  assume "srt_pidx q i = srt_pidx q j \<and> srt_off q i = srt_off q j"
  then have "i div sq_page_msg_count q = j div sq_page_msg_count q" "i mod sq_page_msg_count q = j mod sq_page_msg_count q"
    using srt_same_page[OF g _ ij(2)] ij(1) srt_coords(2)[OF g] by auto
  then have "i = j" by (metis div_mult_mod_eq)
  with ij show False by simp
qed

text \<open>After the last slot of a page, no index within reach shares its table entry.\<close>

lemma srt_last_slot_page:
  assumes g: "srt_geom q" and last: "srt_off q i = sq_page_msg_mask q"
    and ij: "i < j" "j \<le> i + (sq_page_index_count q - 1) * sq_page_msg_count q"
  shows "srt_pidx q j \<noteq> srt_pidx q i"
proof
  assume "srt_pidx q j = srt_pidx q i"
  then have "i div sq_page_msg_count q = j div sq_page_msg_count q"
    using srt_same_page[OF g _ ij(2)] ij(1) by simp
  then have "i + (j mod sq_page_msg_count q - i mod sq_page_msg_count q) = j"
    by (metis add_diff_eq div_mult_mod_eq add.commute add_diff_cancel_left')
  moreover have "j mod sq_page_msg_count q \<le> i mod sq_page_msg_count q"
    using last srt_coords[OF g] pos_mod_bound[OF srt_coords(3)[OF g], of j] by simp
  ultimately show False using ij(1) by linarith
qed

section \<open>The primitives on the table of pages\<close>

definition srt_slot :: "'a srt_queue \<Rightarrow> int \<Rightarrow> 'a srt_message option" where
  "srt_slot q i =
    (case sq_page_indexes q (srt_pidx q i) of
       None \<Rightarrow> None
     | Some page \<Rightarrow> map_option (\<lambda>slots. slots (nat (srt_off q i))) (sq_heap q page))"

text \<open>
  The table points to live pages, each table entry to a page of its own, and every live page
  is in the table, so that no page leaks.
\<close>

definition srt_tables :: "'a srt_queue \<Rightarrow> bool" where
  "srt_tables q \<longleftrightarrow> sq_initialized q \<and> srt_geom q
     \<and> (\<forall>k a. sq_page_indexes q k = Some a \<longrightarrow> 0 \<le> k \<and> k < sq_page_index_count q \<and> sq_heap q a \<noteq> None)
     \<and> (\<forall>k k' a. sq_page_indexes q k = Some a \<and> sq_page_indexes q k' = Some a \<longrightarrow> k = k')
     \<and> (\<forall>a. sq_heap q a \<noteq> None \<longrightarrow> a < sq_next q \<and> (\<exists>k. sq_page_indexes q k = Some a))"

text \<open>Everything but the pages is unchanged.\<close>

definition srt_same :: "'a srt_queue \<Rightarrow> 'a srt_queue \<Rightarrow> bool" where
  "srt_same q q' \<longleftrightarrow> sq_post_index q' = sq_post_index q \<and> sq_get_index q' = sq_get_index q
     \<and> sq_initialized q' = sq_initialized q \<and> sq_page_index_count q' = sq_page_index_count q
     \<and> sq_page_index_mask q' = sq_page_index_mask q \<and> sq_page_msg_count q' = sq_page_msg_count q
     \<and> sq_page_msg_mask q' = sq_page_msg_mask q \<and> sq_page_msg_bits q' = sq_page_msg_bits q
     \<and> sq_zero q' = sq_zero q"

lemma srt_same_refl: "srt_same q q"
  by (simp add: srt_same_def)

lemma srt_same_trans: "srt_same q q' \<Longrightarrow> srt_same q' q'' \<Longrightarrow> srt_same q q''"
  by (simp add: srt_same_def)

lemma srt_sameD:
  assumes "srt_same q q'"
  shows "sq_post_index q' = sq_post_index q" "sq_get_index q' = sq_get_index q"
    "sq_initialized q' = sq_initialized q" "sq_page_index_count q' = sq_page_index_count q"
    "sq_page_msg_count q' = sq_page_msg_count q" "sq_page_msg_mask q' = sq_page_msg_mask q"
    "sq_zero q' = sq_zero q" "srt_geom q' = srt_geom q" "srt_pidx q' = srt_pidx q" "srt_off q' = srt_off q"
    "srt_full q' = srt_full q"
  using assms by (auto simp: srt_same_def srt_geom_def srt_pidx_def srt_off_def srt_full_def fun_eq_iff)

lemma srt_table_live:
  assumes "srt_tables q" "sq_page_indexes q k = Some page"
  shows "\<exists>slots. sq_heap q page = Some slots"
  using assms unfolding srt_tables_def by (metis option.exhaust)

lemma srt_table_range:
  assumes "srt_tables q" "sq_page_indexes q k = Some page"
  shows "0 \<le> k" "k < sq_page_index_count q"
  using assms unfolding srt_tables_def by blast+

lemma srt_table_inj:
  "srt_tables q \<Longrightarrow> sq_page_indexes q k = Some page \<Longrightarrow> sq_page_indexes q k' = Some page \<Longrightarrow> k = k'"
  unfolding srt_tables_def by metis

lemma srt_page_owned:
  assumes "srt_tables q" "sq_heap q a = Some slots"
  shows "a < sq_next q" "\<exists>k. sq_page_indexes q k = Some a"
  using assms unfolding srt_tables_def by auto

lemma srt_tablesI:
  assumes "sq_initialized q" "srt_geom q"
    and "\<And>k a. sq_page_indexes q k = Some a \<Longrightarrow>
      0 \<le> k \<and> k < sq_page_index_count q \<and> (\<exists>slots. sq_heap q a = Some slots)"
    and "\<And>k k' a. sq_page_indexes q k = Some a \<Longrightarrow> sq_page_indexes q k' = Some a \<Longrightarrow> k = k'"
    and "\<And>a slots. sq_heap q a = Some slots \<Longrightarrow> a < sq_next q"
    and "\<And>a slots. sq_heap q a = Some slots \<Longrightarrow> \<exists>k. sq_page_indexes q k = Some a"
  shows "srt_tables q"
proof -
  have "sq_page_indexes q k = Some a \<Longrightarrow> 0 \<le> k \<and> k < sq_page_index_count q \<and> sq_heap q a \<noteq> None" for k a
    using assms(3)[of k a] by auto
  moreover have "sq_heap q a \<noteq> None \<Longrightarrow> a < sq_next q \<and> (\<exists>k. sq_page_indexes q k = Some a)" for a
    using assms(5,6)[of a] by auto
  ultimately show ?thesis using assms(1,2,4) unfolding srt_tables_def by blast
qed

lemma srt_slot_None:
  assumes "srt_tables q"
  shows "srt_slot q i = None \<longleftrightarrow> sq_page_indexes q (srt_pidx q i) = None"
  using assms by (auto simp: srt_slot_def srt_tables_def split: option.split)

text \<open>Moving the two indices does not move the messages.\<close>

lemma srt_index_update [simp]:
  "srt_pidx (q\<lparr>sq_post_index := p\<rparr>) = srt_pidx q" "srt_pidx (q\<lparr>sq_get_index := g\<rparr>) = srt_pidx q"
  "srt_off (q\<lparr>sq_post_index := p\<rparr>) = srt_off q" "srt_off (q\<lparr>sq_get_index := g\<rparr>) = srt_off q"
  "srt_full (q\<lparr>sq_post_index := p\<rparr>) = srt_full q" "srt_full (q\<lparr>sq_get_index := g\<rparr>) = srt_full q"
  "srt_geom (q\<lparr>sq_post_index := p\<rparr>) = srt_geom q" "srt_geom (q\<lparr>sq_get_index := g\<rparr>) = srt_geom q"
  by (auto simp: srt_pidx_def srt_off_def srt_full_def srt_geom_def fun_eq_iff)

lemma srt_index_update_slot [simp]:
  "srt_slot (q\<lparr>sq_post_index := p\<rparr>) = srt_slot q" "srt_slot (q\<lparr>sq_get_index := g\<rparr>) = srt_slot q"
  "srt_tables (q\<lparr>sq_post_index := p\<rparr>) = srt_tables q" "srt_tables (q\<lparr>sq_get_index := g\<rparr>) = srt_tables q"
  by (simp_all add: srt_slot_def srt_tables_def fun_eq_iff split: option.split)

lemma srt_get_page_slots:
  assumes t: "srt_tables q"
  shows "\<exists>page q'. srt_get_msg_page (srt_pidx q i) q = Inr (page, q') \<and> srt_tables q' \<and> srt_same q q'
    \<and> sq_page_indexes q' = (sq_page_indexes q)(srt_pidx q i \<mapsto> page)
    \<and> (\<forall>j. srt_slot q' j =
        (if sq_page_indexes q (srt_pidx q i) = None \<and> srt_pidx q j = srt_pidx q i
         then Some \<lparr>sm_msg = sq_zero q, sm_flag = 0\<rparr> else srt_slot q j))"
proof (cases "sq_page_indexes q (srt_pidx q i)")
  case (Some page)
  then have "srt_get_msg_page (srt_pidx q i) q = Inr (page, q)"
    using t srt_coords_range[of q i] by (simp add: srt_get_msg_page_def srt_tables_def)
  then show ?thesis using t Some srt_same_refl by (auto simp: fun_upd_idem)
next
  case None
  let ?q' = "snd (srt_alloc_page (srt_pidx q i) q)"
  have get: "srt_get_msg_page (srt_pidx q i) q = Inr (sq_next q, ?q')"
    using t None srt_coords_range[of q i] by (simp add: srt_get_msg_page_def srt_tables_def srt_alloc_page_def)
  have same: "srt_same q ?q'"
    by (simp add: srt_same_def srt_alloc_page_def)
  have new: "sq_heap q (sq_next q) = None" using srt_page_owned(1)[OF t] by (meson less_irrefl not_Some_eq)
  then have unused: "sq_page_indexes q k \<noteq> Some (sq_next q)" for k
    using srt_table_live[OF t, of k "sq_next q"] by auto
  have pi: "sq_page_indexes ?q' = (sq_page_indexes q)(srt_pidx q i \<mapsto> sq_next q)"
    and hp: "sq_heap ?q' = (sq_heap q)(sq_next q \<mapsto> (\<lambda>_. \<lparr>sm_msg = sq_zero q, sm_flag = 0\<rparr>))"
    and nx: "sq_next ?q' = Suc (sq_next q)"
    by (simp_all add: srt_alloc_page_def)
  have "srt_tables ?q'"
  proof (rule srt_tablesI)
    show "sq_initialized ?q'" "srt_geom ?q'" using t srt_sameD[OF same] by (simp_all add: srt_tables_def)
  next
    fix k a assume "sq_page_indexes ?q' k = Some a"
    then show "0 \<le> k \<and> k < sq_page_index_count ?q' \<and> (\<exists>slots. sq_heap ?q' a = Some slots)"
      using srt_table_live[OF t] srt_table_range[OF t] srt_coords_range(1,2)[of q i] t srt_sameD(4)[OF same]
      by (auto simp: pi hp srt_tables_def split: if_splits)
  next
    fix k k' a assume "sq_page_indexes ?q' k = Some a" "sq_page_indexes ?q' k' = Some a"
    then show "k = k'" using srt_table_inj[OF t] unused by (auto simp: pi split: if_splits)
  next
    fix a slots assume "sq_heap ?q' a = Some slots"
    then show "a < sq_next ?q'" using srt_page_owned(1)[OF t] by (auto simp: hp nx less_Suc_eq split: if_splits)
  next
    fix a slots assume h: "sq_heap ?q' a = Some slots"
    show "\<exists>k. sq_page_indexes ?q' k = Some a"
    proof (cases "a = sq_next q")
      case True
      then show ?thesis by (auto simp: pi)
    next
      case False
      with h obtain k where "sq_page_indexes q k = Some a" using srt_page_owned(2)[OF t] by (auto simp: hp)
      moreover from this None have "k \<noteq> srt_pidx q i" by auto
      ultimately show ?thesis by (auto simp: pi)
    qed
  qed
  moreover have "srt_slot ?q' j = (if srt_pidx q j = srt_pidx q i
         then Some \<lparr>sm_msg = sq_zero q, sm_flag = 0\<rparr> else srt_slot q j)" for j
    unfolding srt_slot_def srt_sameD[OF same] using unused[of "srt_pidx q j"]
    by (auto simp: pi hp split: option.split)
  ultimately show ?thesis using None same get pi
    by (intro exI[of _ "sq_next q"] exI[of _ ?q']) simp
qed

text \<open>Reads and writes through a page that is in the table.\<close>

lemma srt_page_ok:
  assumes "srt_tables q" "sq_page_indexes q (srt_pidx q i) = Some page"
  shows "\<exists>slots. srt_page q page (srt_off q i) = Inr slots \<and> sq_heap q page = Some slots
    \<and> srt_slot q i = Some (slots (nat (srt_off q i)))"
proof -
  obtain slots where "sq_heap q page = Some slots" using srt_table_live[OF assms] by blast
  then show ?thesis
    using assms srt_coords_range[of q i] by (simp add: srt_page_def srt_slot_def srt_tables_def)
qed

lemma srt_load_slot:
  assumes "srt_tables q" "sq_page_indexes q (srt_pidx q i) = Some page"
  shows "\<exists>slot. srt_load page (srt_off q i) q = Inr slot \<and> srt_slot q i = Some slot"
  using srt_page_ok[OF assms] by (auto simp: srt_load_def)

text \<open>A write of a whole slot value, the common part of the two stores.\<close>

lemma srt_write_slot:
  assumes t: "srt_tables q" and pg: "sq_page_indexes q (srt_pidx q i) = Some page"
    and hp: "sq_heap q page = Some slots"
    and q': "q' = q\<lparr>sq_heap := (sq_heap q)(page \<mapsto> slots(nat (srt_off q i) := v))\<rparr>"
  shows "srt_tables q'" "srt_same q q'" "sq_page_indexes q' = sq_page_indexes q"
    "\<And>j. srt_slot q' j = (if srt_pidx q j = srt_pidx q i \<and> srt_off q j = srt_off q i then Some v else srt_slot q j)"
proof -
  show same: "srt_same q q'"
    by (simp add: srt_same_def q')
  show pi: "sq_page_indexes q' = sq_page_indexes q" by (simp add: q')
  show "srt_tables q'"
    unfolding srt_tables_def srt_sameD[OF same] pi using t hp by (auto simp: srt_tables_def q')
  fix j
  have inj: "sq_page_indexes q (srt_pidx q j) = Some page \<longleftrightarrow> srt_pidx q j = srt_pidx q i"
    using t pg unfolding srt_tables_def by metis
  have off: "nat (srt_off q j) = nat (srt_off q i) \<longleftrightarrow> srt_off q j = srt_off q i"
    using t srt_coords_range(3)[of q] by (metis eq_nat_nat_iff srt_tables_def)
  show "srt_slot q' j = (if srt_pidx q j = srt_pidx q i \<and> srt_off q j = srt_off q i then Some v else srt_slot q j)"
    unfolding srt_slot_def srt_sameD[OF same] pi
    using inj off hp pg by (auto simp: q' split: option.split)
qed

lemma srt_store_msg_slot:
  assumes t: "srt_tables q" and pg: "sq_page_indexes q (srt_pidx q i) = Some page"
  shows "\<exists>q' slot. srt_store_msg page (srt_off q i) m q = Inr q' \<and> srt_tables q' \<and> srt_same q q'
    \<and> sq_page_indexes q' = sq_page_indexes q \<and> srt_slot q i = Some slot
    \<and> (\<forall>j. srt_slot q' j = (if srt_pidx q j = srt_pidx q i \<and> srt_off q j = srt_off q i
                         then Some (slot\<lparr>sm_msg := m\<rparr>) else srt_slot q j))"
proof -
  obtain slots where s: "srt_page q page (srt_off q i) = Inr slots" "sq_heap q page = Some slots"
    "srt_slot q i = Some (slots (nat (srt_off q i)))"
    using srt_page_ok[OF assms] by auto
  show ?thesis
    using srt_write_slot[OF assms s(2) refl, of "(slots (nat (srt_off q i)))\<lparr>sm_msg := m\<rparr>"] s
    by (auto simp: srt_store_msg_def)
qed

lemma srt_store_flag_slot:
  assumes t: "srt_tables q" and pg: "sq_page_indexes q (srt_pidx q i) = Some page"
  shows "\<exists>q' slot. srt_store_flag page (srt_off q i) q = Inr q' \<and> srt_tables q' \<and> srt_same q q'
    \<and> sq_page_indexes q' = sq_page_indexes q \<and> srt_slot q i = Some slot
    \<and> (\<forall>j. srt_slot q' j = (if srt_pidx q j = srt_pidx q i \<and> srt_off q j = srt_off q i
                         then Some (slot\<lparr>sm_flag := 1\<rparr>) else srt_slot q j))"
proof -
  obtain slots where s: "srt_page q page (srt_off q i) = Inr slots" "sq_heap q page = Some slots"
    "srt_slot q i = Some (slots (nat (srt_off q i)))"
    using srt_page_ok[OF assms] by auto
  show ?thesis
    using srt_write_slot[OF assms s(2) refl, of "(slots (nat (srt_off q i)))\<lparr>sm_flag := 1\<rparr>"] s
    by (auto simp: srt_store_flag_def)
qed

lemma srt_free_page_entry:
  assumes t: "srt_tables q" and pg: "sq_page_indexes q e = Some page"
  shows "\<exists>q'. srt_free_page page e q = Inr q' \<and> srt_tables q' \<and> srt_same q q'
    \<and> sq_page_indexes q' = (sq_page_indexes q)(e := None)
    \<and> (\<forall>j. srt_slot q' j = (if srt_pidx q j = e then None else srt_slot q j))"
proof -
  obtain slots where hp: "sq_heap q page = Some slots" using srt_table_live[OF assms] by blast
  let ?q' = "q\<lparr>sq_heap := (sq_heap q)(page := None),
               sq_page_indexes := (sq_page_indexes q)(e := None)\<rparr>"
  have same: "srt_same q ?q'"
    by (simp add: srt_same_def)
  have inj: "sq_page_indexes q k = Some page \<longleftrightarrow> k = e" for k
    using srt_table_inj[OF t _ pg] pg by blast
  have "srt_tables ?q'"
  proof (rule srt_tablesI)
    show "sq_initialized ?q'" "srt_geom ?q'" using t srt_sameD[OF same] by (simp_all add: srt_tables_def)
  next
    fix k a assume k: "sq_page_indexes ?q' k = Some a"
    then have "a \<noteq> page" using inj by (auto split: if_splits)
    with k show "0 \<le> k \<and> k < sq_page_index_count ?q' \<and> (\<exists>slots. sq_heap ?q' a = Some slots)"
      using srt_table_live[OF t] srt_table_range[OF t] by (auto split: if_splits)
  next
    fix k k' a assume "sq_page_indexes ?q' k = Some a" "sq_page_indexes ?q' k' = Some a"
    then have "sq_page_indexes q k = Some a" "sq_page_indexes q k' = Some a" by (auto split: if_splits)
    then show "k = k'" by (rule srt_table_inj[OF t])
  next
    fix a slots assume "sq_heap ?q' a = Some slots"
    then show "a < sq_next ?q'" using srt_page_owned(1)[OF t] by (auto split: if_splits)
  next
    fix a slots assume h: "sq_heap ?q' a = Some slots"
    then have "a \<noteq> page" by auto
    moreover obtain k where "sq_page_indexes q k = Some a"
      using h srt_page_owned(2)[OF t, of a slots] by (auto split: if_splits)
    ultimately show "\<exists>k. sq_page_indexes ?q' k = Some a" using pg by (intro exI[of _ k]) auto
  qed
  moreover have "srt_slot ?q' j = (if srt_pidx q j = e then None else srt_slot q j)" for j
    unfolding srt_slot_def srt_sameD[OF same] using inj[of "srt_pidx q j"] by (auto split: option.split)
  ultimately show ?thesis using hp same by (auto simp: srt_free_page_def)
qed

lemmas srt_free_page_slots = srt_free_page_entry[where e = "srt_pidx q i" for q i]

section \<open>The queue without interference is a bounded FIFO\<close>

abbreviation srt_limit :: "'a srt_queue \<Rightarrow> int" where
  "srt_limit q \<equiv> (sq_page_index_count q - 1) * sq_page_msg_count q"

definition srt_inv :: "'a srt_queue \<Rightarrow> bool" where
  "srt_inv q \<longleftrightarrow> srt_tables q \<and> 0 \<le> sq_get_index q \<and> sq_get_index q \<le> sq_post_index q
     \<and> sq_post_index q - sq_get_index q \<le> srt_limit q
     \<and> (\<forall>i\<in>{sq_get_index q..<sq_post_index q}. \<exists>m. srt_slot q i = Some \<lparr>sm_msg = m, sm_flag = 1\<rparr>)"

definition srt_contents :: "'a srt_queue \<Rightarrow> 'a list" where
  "srt_contents q = map (\<lambda>i. sm_msg (the (srt_slot q i))) [sq_get_index q..sq_post_index q - 1]"

definition srt_room :: "'a srt_queue \<Rightarrow> bool" where
  "srt_room q \<longleftrightarrow> sq_post_index q - sq_get_index q < srt_limit q"

definition srt_cap :: "'a srt_queue \<Rightarrow> nat" where
  "srt_cap q = nat (srt_limit q)"

lemma srt_inv_init:
  "srt_inv (snd (srt_init (srt_new zero pbits ibits)))"
  "srt_contents (snd (srt_init (srt_new zero pbits ibits))) = []"
  "srt_cap (snd (srt_init (srt_new zero pbits ibits))) = (2 ^ ibits - 1) * 2 ^ pbits"
proof -
  let ?q = "snd (srt_init (srt_new zero pbits ibits))"
  have q: "sq_initialized ?q" "sq_page_index_count ?q = 2 ^ ibits" "sq_page_index_mask ?q = 2 ^ ibits - 1"
    "sq_page_msg_count ?q = 2 ^ pbits" "sq_page_msg_mask ?q = 2 ^ pbits - 1" "sq_page_msg_bits ?q = pbits"
    "sq_get_index ?q = 0" "sq_post_index ?q = 0" "sq_page_indexes ?q = [0 \<mapsto> 0]" "sq_next ?q = 1"
    "\<exists>z. sq_heap ?q = [0 \<mapsto> z]"
    by (auto simp: srt_init_def srt_new_def srt_alloc_page_def Let_def)
  then have "srt_tables ?q"
    by (intro srt_tablesI) (auto simp: srt_geom_def split: if_splits)
  with q show "srt_inv ?q" "srt_contents ?q = []" by (simp_all add: srt_inv_def srt_contents_def)
  have "(2 ^ ibits - 1) * 2 ^ pbits = (int ((2 ^ ibits - 1) * 2 ^ pbits) :: int)" by (simp add: of_nat_diff)
  then show "srt_cap ?q = (2 ^ ibits - 1) * 2 ^ pbits" using q by (simp only: srt_cap_def nat_int)
qed

lemma srt_inv_full: "srt_inv q \<Longrightarrow> srt_full q (sq_post_index q) (sq_get_index q) \<longleftrightarrow> \<not> srt_room q"
  by (auto simp: srt_inv_def srt_tables_def srt_full_iff srt_room_def)

lemma srt_push_full: "srt_inv q \<Longrightarrow> \<not> srt_room q \<Longrightarrow> srt_push m q = Inr (False, q)"
  using srt_inv_full[of q] by (simp add: srt_push_def srt_inv_def srt_tables_def)

lemma srt_inv_slot:
  "srt_inv q \<Longrightarrow> sq_get_index q \<le> i \<Longrightarrow> i < sq_post_index q \<Longrightarrow>
    \<exists>m. srt_slot q i = Some \<lparr>sm_msg = m, sm_flag = 1\<rparr>"
  by (simp add: srt_inv_def)

lemma srt_push_room:
  assumes inv: "srt_inv q" and room: "srt_room q"
  shows "\<exists>q'. srt_push m q = Inr (True, q') \<and> srt_inv q' \<and> srt_contents q' = srt_contents q @ [m]"
proof -
  let ?p = "sq_post_index q" and ?g = "sq_get_index q"
  define q1 where "q1 = q\<lparr>sq_post_index := ?p + 1\<rparr>"
  have t: "srt_tables q" and b: "0 \<le> ?g" "?g \<le> ?p" "?p - ?g < srt_limit q"
    using inv room by (simp_all add: srt_inv_def srt_room_def)
  have c: "srt_pidx q1 = srt_pidx q" "srt_off q1 = srt_off q" "sq_zero q1 = sq_zero q"
    and t1: "srt_tables q1" and s1: "srt_slot q1 = srt_slot q"
    using t by (simp_all add: q1_def)
  from srt_get_page_slots[OF t1, of ?p] obtain page q2 where
    g2: "srt_get_msg_page (srt_pidx q1 ?p) q1 = Inr (page, q2)" and t2: "srt_tables q2" and e2: "srt_same q1 q2"
    and p2: "sq_page_indexes q2 (srt_pidx q1 ?p) = Some page"
    and s2: "\<forall>j. srt_slot q2 j = (if sq_page_indexes q1 (srt_pidx q1 ?p) = None \<and> srt_pidx q1 j = srt_pidx q1 ?p
         then Some \<lparr>sm_msg = sq_zero q1, sm_flag = 0\<rparr> else srt_slot q1 j)"
    by auto
  note d2 = srt_sameD[OF e2]
  from srt_store_msg_slot[OF t2, of ?p page m] p2 d2 obtain q3 slot where
    g3: "srt_store_msg page (srt_off q2 ?p) m q2 = Inr q3" and t3: "srt_tables q3" and e3: "srt_same q2 q3"
    and p3: "sq_page_indexes q3 = sq_page_indexes q2"
    and s3: "\<forall>j. srt_slot q3 j = (if srt_pidx q2 j = srt_pidx q2 ?p \<and> srt_off q2 j = srt_off q2 ?p
         then Some (slot\<lparr>sm_msg := m\<rparr>) else srt_slot q2 j)"
    by auto
  note d3 = srt_sameD[OF e3]
  from srt_store_flag_slot[OF t3, of ?p page] p2 p3 d2 d3 obtain q4 slot4 where
    g4: "srt_store_flag page (srt_off q3 ?p) q3 = Inr q4" and t4: "srt_tables q4" and e4: "srt_same q3 q4"
    and v4: "srt_slot q3 ?p = Some slot4"
    and s4: "\<forall>j. srt_slot q4 j = (if srt_pidx q3 j = srt_pidx q3 ?p \<and> srt_off q3 j = srt_off q3 ?p
         then Some (slot4\<lparr>sm_flag := 1\<rparr>) else srt_slot q3 j)"
    by auto
  note d4 = srt_sameD[OF e4]
  note d = d2 d3 d4 c
  have new: "srt_slot q4 ?p = Some \<lparr>sm_msg = m, sm_flag = 1\<rparr>"
    using s3 s4 v4 by (auto simp: d)
  have old: "srt_slot q4 i = srt_slot q i" if "i \<in> {?g..<?p}" for i
  proof -
    have "\<not> (srt_pidx q i = srt_pidx q ?p \<and> srt_off q i = srt_off q ?p)"
      using srt_slot_distinct[of q i ?p] t b that by (auto simp: srt_tables_def)
    moreover have "srt_slot q i \<noteq> None" using inv that by (auto simp: srt_inv_def)
    then have "sq_page_indexes q1 (srt_pidx q i) \<noteq> None"
      using srt_slot_None[OF t, of i] by (simp add: q1_def)
    ultimately show ?thesis using s2 s3 s4 by (auto simp: d s1)
  qed
  have idx: "sq_post_index q4 = ?p + 1" "sq_get_index q4 = ?g" "srt_limit q4 = srt_limit q"
    by (simp_all add: d q1_def)
  have "srt_push m q = Inr (True, q4)"
    using srt_inv_full[OF inv] room t g2 g3 g4
    by (simp add: srt_push_def srt_tables_def Let_def q1_def[symmetric] d)
  moreover have "srt_inv q4"
  proof -
    have "\<exists>m. srt_slot q4 i = Some \<lparr>sm_msg = m, sm_flag = 1\<rparr>" if i: "i \<in> {?g..<?p + 1}" for i
    proof (cases "i = ?p")
      case True
      then show ?thesis using new by blast
    next
      case False
      then show ?thesis using old[of i] srt_inv_slot[OF inv, of i] i by simp
    qed
    then show ?thesis unfolding srt_inv_def idx using b t4 by simp
  qed
  moreover have "srt_contents q4 = srt_contents q @ [m]"
  proof -
    have "[?g..?p] = [?g..?p - 1] @ [?p]" using b(2) by (rule upto_rec2)
    then show ?thesis using new old by (auto simp: srt_contents_def idx)
  qed
  ultimately show ?thesis by blast
qed

lemma srt_contents_Nil: "srt_inv q \<Longrightarrow> srt_contents q = [] \<longleftrightarrow> sq_post_index q \<le> sq_get_index q"
  by (auto simp: srt_contents_def)

lemma srt_pop_empty: "srt_inv q \<Longrightarrow> srt_contents q = [] \<Longrightarrow> srt_pop q = Inr (None, q)"
  by (simp add: srt_contents_Nil srt_pop_def srt_inv_def srt_tables_def)

lemma srt_pop_head:
  assumes inv: "srt_inv q" and Cons: "srt_contents q = x # xs"
  shows "\<exists>q'. srt_pop q = Inr (Some x, q') \<and> srt_inv q' \<and> srt_contents q' = xs"
proof -
  let ?p = "sq_post_index q" and ?g = "sq_get_index q"
  have t: "srt_tables q" and b: "0 \<le> ?g" "?g < ?p" "?p - ?g \<le> srt_limit q"
    using inv Cons srt_contents_Nil[OF inv] by (auto simp: srt_inv_def)
  have rec: "[?g..?p - 1] = ?g # [?g + 1..?p - 1]" using b(2) by (simp add: upto_rec1)
  obtain m where m: "srt_slot q ?g = Some \<lparr>sm_msg = m, sm_flag = 1\<rparr>"
    using srt_inv_slot[OF inv order_refl b(2)] by blast
  with Cons rec have x: "m = x" "xs = map (\<lambda>i. sm_msg (the (srt_slot q i))) [?g + 1..?p - 1]"
    by (auto simp: srt_contents_def)
  obtain page where pg: "sq_page_indexes q (srt_pidx q ?g) = Some page"
    using srt_slot_None[OF t, of ?g] m by auto
  have g1: "srt_get_msg_page (srt_pidx q ?g) q = Inr (page, q)"
    using t pg srt_coords_range[of q ?g] by (simp add: srt_get_msg_page_def srt_tables_def)
  have l1: "srt_load page (srt_off q ?g) q = Inr \<lparr>sm_msg = m, sm_flag = 1\<rparr>"
    using srt_load_slot[OF t pg] m by auto
  have "\<exists>q2. (if srt_off q ?g = sq_page_msg_mask q then srt_free_page page (srt_pidx q ?g) q else Inr q) = Inr q2
      \<and> srt_tables q2 \<and> srt_same q q2 \<and> (\<forall>i\<in>{?g + 1..<?p}. srt_slot q2 i = srt_slot q i)"
  proof (cases "srt_off q ?g = sq_page_msg_mask q")
    case True
    obtain q2 where q2: "srt_free_page page (srt_pidx q ?g) q = Inr q2" "srt_tables q2" "srt_same q q2"
      "\<forall>j. srt_slot q2 j = (if srt_pidx q j = srt_pidx q ?g then None else srt_slot q j)"
      using srt_free_page_slots[OF t pg] by auto
    have "srt_pidx q i \<noteq> srt_pidx q ?g" if "i \<in> {?g + 1..<?p}" for i
      by (rule srt_last_slot_page) (use t True b that in \<open>auto simp: srt_tables_def\<close>)
    then show ?thesis using True q2 by auto
  next
    case False
    then show ?thesis using t srt_same_refl by auto
  qed
  then obtain q2 where q2: "(if srt_off q ?g = sq_page_msg_mask q then srt_free_page page (srt_pidx q ?g) q else Inr q) = Inr q2"
    "srt_tables q2" "srt_same q q2" "\<forall>i\<in>{?g + 1..<?p}. srt_slot q2 i = srt_slot q i"
    by blast
  note d = srt_sameD[OF q2(3)]
  let ?q' = "q2\<lparr>sq_get_index := ?g + 1\<rparr>"
  have slot': "srt_slot ?q' = srt_slot q2" "srt_tables ?q'" using q2(2) by simp_all
  have "srt_pop q = Inr (Some x, ?q')"
    using t b(2) g1 l1 q2(1) x(1) d(2) by (simp add: srt_pop_def srt_tables_def Let_def)
  moreover have "srt_inv ?q'"
    using inv b slot' q2(4) d by (simp add: srt_inv_def)
  moreover have "srt_contents ?q' = xs"
    using x(2) q2(4) slot'(1) d(1) by (auto simp: srt_contents_def)
  ultimately show ?thesis by blast
qed

text \<open>No operation changes the geometry.\<close>

lemma srt_primitives_same:
  "srt_get_msg_page k q = Inr (page, q') \<Longrightarrow> srt_same q q'"
  "srt_store_msg page off m q = Inr q' \<Longrightarrow> srt_same q q'"
  "srt_store_flag page off q = Inr q' \<Longrightarrow> srt_same q q'"
  "srt_free_page page k q = Inr q' \<Longrightarrow> srt_same q q'"
  by (auto simp: srt_get_msg_page_def srt_store_msg_def srt_store_flag_def srt_free_page_def srt_alloc_page_def
      srt_same_def oassert_def obind_eq_Inr split: if_splits option.splits)

lemma srt_push_cap: "srt_push m q = Inr (ok, q') \<Longrightarrow> srt_cap q' = srt_cap q"
  by (auto simp: srt_push_def obind_eq_Inr srt_cap_def Let_def srt_sameD dest!: srt_primitives_same split: if_splits)

lemma srt_pop_cap: "srt_pop q = Inr (r, q') \<Longrightarrow> srt_cap q' = srt_cap q"
  by (auto simp: srt_pop_def obind_eq_Inr srt_cap_def Let_def srt_sameD dest!: srt_primitives_same split: if_splits)

lemma srt_room_cap: "srt_inv q \<Longrightarrow> srt_room q \<longleftrightarrow> length (srt_contents q) < srt_cap q"
  by (auto simp: srt_room_def srt_contents_def srt_cap_def srt_inv_def)

interpretation sq: bounded_fifo srt_push srt_pop srt_inv srt_contents srt_room srt_cap
  by unfold_locales
    (simp_all add: srt_push_room srt_push_full srt_pop_empty srt_pop_head srt_room_cap srt_push_cap srt_pop_cap)

lemma srt_size_contents: "srt_inv q \<Longrightarrow> srt_size q = int (length (srt_contents q))"
  by (auto simp: srt_size_def srt_contents_def srt_inv_def)

section \<open>Release\<close>

text \<open>The destructor frees every page, so a queue that is dropped with messages in it leaks none.\<close>

lemma srt_release_loop_frees:
  assumes "srt_tables q" "0 \<le> i" "\<forall>k page. sq_page_indexes q k = Some page \<longrightarrow> i \<le> k \<and> k < sq_page_index_count q"
  shows "\<exists>q'. srt_release_loop i q = Inr q' \<and> srt_tables q' \<and> sq_page_indexes q' = (\<lambda>_. None)"
  using assms
proof (induction i q rule: srt_release_loop.induct)
  case (1 i q)
  show ?case
  proof (cases "i < sq_page_index_count q")
    case False
    then have "sq_page_indexes q = (\<lambda>_. None)"
      using 1(5) by (metis (no_types, opaque_lifting) not_Some_eq order_le_less_trans)
    with False 1(3) show ?thesis by (simp add: srt_release_loop.simps[of i q])
  next
    case lt: True
    show ?thesis
    proof (cases "sq_page_indexes q i")
      case None
      have "\<forall>k page. sq_page_indexes q k = Some page \<longrightarrow> i + 1 \<le> k \<and> k < sq_page_index_count q"
        using 1(5) None by (metis add1_zle_eq option.distinct(1) order_le_less)
      then have "\<exists>q'. srt_release_loop (i + 1) q = Inr q' \<and> srt_tables q' \<and> sq_page_indexes q' = (\<lambda>_. None)"
        using 1(1)[OF lt None 1(3)] 1(4) by simp
      with lt None show ?thesis by (simp add: srt_release_loop.simps[of i q])
    next
      case (Some page)
      obtain q' where q': "srt_free_page page i q = Inr q'" "srt_tables q'" "srt_same q q'"
        "sq_page_indexes q' = (sq_page_indexes q)(i := None)"
        using srt_free_page_entry[OF 1(3) Some] by auto
      have "\<forall>k page. sq_page_indexes q' k = Some page \<longrightarrow> i + 1 \<le> k \<and> k < sq_page_index_count q'"
        using 1(5) q'(4) srt_sameD(4)[OF q'(3)] by (auto simp: order_le_less add1_zle_eq)
      then have "\<exists>q''. srt_release_loop (i + 1) q' = Inr q'' \<and> srt_tables q'' \<and> sq_page_indexes q'' = (\<lambda>_. None)"
        using 1(2)[OF lt Some q'(1) q'(2)] 1(4) by simp
      with lt Some q'(1) show ?thesis by (simp add: srt_release_loop.simps[of i q])
    qed
  qed
qed

text \<open>
  The destructor of the queue, whatever messages are still in it, frees every page exactly
  once: no page is freed twice, and none is left in the heap.
\<close>

lemma srt_release_no_leak:
  assumes "srt_inv q"
  shows "\<exists>q'. srt_release q = Inr (True, q') \<and> sq_heap q' = (\<lambda>_. None) \<and> \<not> sq_initialized q'"
proof -
  have t: "srt_tables q" using assms by (simp add: srt_inv_def)
  have "\<forall>k page. sq_page_indexes q k = Some page \<longrightarrow> 0 \<le> k \<and> k < sq_page_index_count q"
    using srt_table_range[OF t] by blast
  from srt_release_loop_frees[OF t order_refl this] obtain q' where
    q': "srt_release_loop 0 q = Inr q'" "srt_tables q'" "sq_page_indexes q' = (\<lambda>_. None)"
    by blast
  then have "sq_heap q' a = None" for a
    using srt_page_owned(2)[OF q'(2), of a] by (cases "sq_heap q' a") auto
  then show ?thesis using q'(1) by (auto simp: srt_release_def fun_eq_iff)
qed

section \<open>The queue, used by one thread\<close>


end
