(* ===== verification/Srt_Concurrent.thy ===== *)
theory Srt_Concurrent
  imports Srt_Queue
begin

text \<open>
  \<open>srt_queue\<close> (base/src/mqueue.h) under concurrency: producer threads inside \<open>push\<close> and one
  consumer thread inside \<open>pop\<close>, interleaved at every access to shared memory.  A thread is a
  program counter; its step performs one access: a read of an index, the \<open>fetch_and_inc\<close>, the
  unlocked read of the page table, the locked section of \<open>get_msg_page\<close>, the second read of
  the table, the store of the message, the store of the flag; on the consumer's side also the
  \<open>delete[]\<close> and the store of \<open>NULL\<close>, which are two accesses.  Accesses are sequentially
  consistent (the code fences before it sets the flag).
\<close>

section \<open>Threads\<close>

text \<open>
  Where a producer is.  \<open>PHasPost\<close> and \<open>PHasGet\<close>: it has read one of the two indices (C++ does
  not fix the order of the two operands).  The integer of \<open>PTicket\<close> is the value of
  \<open>post_index_\<close> that passed the test for a full queue; the thread does not use it any more.
\<close>

datatype 'a srt_producer =
    PIdle | PCall 'a | PHasPost 'a int | PHasGet 'a int | PTicket 'a int
  | PReserved 'a int | PAlloc 'a int | PFound 'a int | PPage 'a int nat | PStored 'a int nat

datatype 'a srt_consumer =
    CIdle | CFind | CAlloc | CFound | CPage nat | CFlagged nat | CRead nat 'a | CDeleted 'a | CTaken 'a

text \<open>
  One step of a producer: the messages whose place in the order it has just fixed (one at the
  \<open>fetch_and_inc\<close>, none otherwise), its new program counter, the queue.
\<close>

fun srt_producer_step :: "bool \<Rightarrow> 'a srt_producer \<Rightarrow> 'a srt_queue \<Rightarrow>
    ('a list \<times> 'a srt_producer \<times> 'a srt_queue) outcome" where
  "srt_producer_step b PIdle q = Inr ([], PIdle, q)"
| "srt_producer_step b (PCall m) q =
    obind (oassert AssertFail (sq_initialized q)) (\<lambda>_.
      Inr ([], if b then PHasPost m (sq_post_index q) else PHasGet m (sq_get_index q), q))"
| "srt_producer_step b (PHasPost m post) q =
    Inr ([], if srt_full q post (sq_get_index q) then PIdle else PTicket m post, q)"
| "srt_producer_step b (PHasGet m get) q =
    Inr ([], if srt_full q (sq_post_index q) get then PIdle else PTicket m (sq_post_index q), q)"
| "srt_producer_step b (PTicket m p) q =
    Inr ([m], PReserved m (sq_post_index q), q\<lparr>sq_post_index := sq_post_index q + 1\<rparr>)"
| "srt_producer_step b (PReserved m i) q =
    obind (oassert AssertFail (sq_initialized q)) (\<lambda>_.
    obind (oassert AssertFail (0 \<le> srt_pidx q i \<and> srt_pidx q i < sq_page_index_count q)) (\<lambda>_.
      Inr ([], if sq_page_indexes q (srt_pidx q i) = None then PAlloc m i else PFound m i, q)))"
| "srt_producer_step b (PAlloc m i) q =
    obind (srt_get_msg_page (srt_pidx q i) q) (\<lambda>(page, q'). Inr ([], PFound m i, q'))"
| "srt_producer_step b (PFound m i) q =
    (case sq_page_indexes q (srt_pidx q i) of
       None \<Rightarrow> Inl NullDeref
     | Some page \<Rightarrow> Inr ([], PPage m i page, q))"
| "srt_producer_step b (PPage m i page) q =
    obind (srt_store_msg page (srt_off q i) m q) (\<lambda>q'. Inr ([], PStored m i page, q'))"
| "srt_producer_step b (PStored m i page) q =
    obind (srt_store_flag page (srt_off q i) q) (\<lambda>q'. Inr ([], PIdle, q'))"

text \<open>One step of the consumer: the message \<open>pop\<close> returns, if it returns one now.\<close>

fun srt_consumer_step :: "'a srt_consumer \<Rightarrow> 'a srt_queue \<Rightarrow> ('a list \<times> 'a srt_consumer \<times> 'a srt_queue) outcome" where
  "srt_consumer_step CIdle q =
    obind (oassert AssertFail (sq_initialized q)) (\<lambda>_.
      Inr ([], if sq_get_index q \<ge> sq_post_index q then CIdle else CFind, q))"
| "srt_consumer_step CFind q =
    obind (oassert AssertFail (0 \<le> srt_pidx q (sq_get_index q) \<and> srt_pidx q (sq_get_index q) < sq_page_index_count q)) (\<lambda>_.
      Inr ([], if sq_page_indexes q (srt_pidx q (sq_get_index q)) = None then CAlloc else CFound, q))"
| "srt_consumer_step CAlloc q =
    obind (srt_get_msg_page (srt_pidx q (sq_get_index q)) q) (\<lambda>(page, q'). Inr ([], CFound, q'))"
| "srt_consumer_step CFound q =
    (case sq_page_indexes q (srt_pidx q (sq_get_index q)) of
       None \<Rightarrow> Inl NullDeref
     | Some page \<Rightarrow> Inr ([], CPage page, q))"
| "srt_consumer_step (CPage page) q =
    obind (srt_load page (srt_off q (sq_get_index q)) q) (\<lambda>slot.
      Inr ([], if sm_flag slot = 1 then CFlagged page else CIdle, q))"
| "srt_consumer_step (CFlagged page) q =
    obind (srt_load page (srt_off q (sq_get_index q)) q) (\<lambda>slot. Inr ([], CRead page (sm_msg slot), q))"
| "srt_consumer_step (CRead page m) q =
    (if srt_off q (sq_get_index q) = sq_page_msg_mask q then
       (case sq_heap q page of
          None \<Rightarrow> Inl UseAfterFree
        | Some slots \<Rightarrow> Inr ([], CDeleted m, q\<lparr>sq_heap := (sq_heap q)(page := None)\<rparr>))
     else Inr ([], CTaken m, q))"
| "srt_consumer_step (CDeleted m) q =
    Inr ([], CTaken m, q\<lparr>sq_page_indexes := (sq_page_indexes q)(srt_pidx q (sq_get_index q) := None)\<rparr>)"
| "srt_consumer_step (CTaken m) q =
    Inr ([m], CIdle, q\<lparr>sq_get_index := sq_get_index q + 1\<rparr>)"

section \<open>The system\<close>

record 'a srt_sys =
  sys_q :: "'a srt_queue"
  sys_prod :: "nat \<Rightarrow> 'a srt_producer"
  sys_cons :: "'a srt_consumer"
  sys_sent :: "'a list" \<comment> \<open>messages in the order of their indices\<close>
  sys_recv :: "'a list" \<comment> \<open>messages returned by \<open>pop\<close>\<close>

definition srt_sys_new :: "'a \<Rightarrow> nat \<Rightarrow> nat \<Rightarrow> 'a srt_sys" where
  "srt_sys_new zero pbits ibits =
    \<lparr>sys_q = snd (srt_init (srt_new zero pbits ibits)), sys_prod = (\<lambda>_. PIdle), sys_cons = CIdle,
     sys_sent = [], sys_recv = []\<rparr>"

text \<open>A scheduler's choices: a producer calls \<open>push\<close>, a producer steps, the consumer steps.\<close>

datatype 'a srt_action = Call nat 'a | Produce nat bool | Consume

fun srt_act :: "'a srt_action \<Rightarrow> 'a srt_sys \<Rightarrow> 'a srt_sys outcome" where
  "srt_act (Call t m) st =
    (if sys_prod st t = PIdle then Inr (st\<lparr>sys_prod := (sys_prod st)(t := PCall m)\<rparr>) else Inr st)"
| "srt_act (Produce t b) st =
    obind (srt_producer_step b (sys_prod st t) (sys_q st)) (\<lambda>(new, p, q).
      Inr (st\<lparr>sys_q := q, sys_prod := (sys_prod st)(t := p), sys_sent := sys_sent st @ new\<rparr>))"
| "srt_act Consume st =
    obind (srt_consumer_step (sys_cons st) (sys_q st)) (\<lambda>(out, c, q).
      Inr (st\<lparr>sys_q := q, sys_cons := c, sys_recv := sys_recv st @ out\<rparr>))"

fun srt_act_thread :: "'a srt_action \<Rightarrow> nat option" where
  "srt_act_thread (Call t m) = Some t"
| "srt_act_thread (Produce t b) = Some t"
| "srt_act_thread Consume = None"

fun srt_run :: "'a srt_action list \<Rightarrow> 'a srt_sys \<Rightarrow> 'a srt_sys outcome" where
  "srt_run [] st = Inr st"
| "srt_run (a # as) st = obind (srt_act a st) (srt_run as)"

text \<open>States reachable with producers \<open>0, \<dots>, n - 1\<close>.\<close>

inductive srt_reach :: "nat \<Rightarrow> 'a srt_sys \<Rightarrow> 'a srt_sys \<Rightarrow> bool" for n st0 where
  start: "srt_reach n st0 st0"
| act: "srt_reach n st0 st \<Longrightarrow> (\<forall>t. srt_act_thread a = Some t \<longrightarrow> t < n) \<Longrightarrow> srt_act a st = Inr st' \<Longrightarrow>
    srt_reach n st0 st'"

section \<open>The window of live indices\<close>

text \<open>
  The indices whose pages are in the table or may be next: those with a page number among the
  \<open>page_index_count_\<close> page numbers that start with the page of \<open>get_index_\<close>.
\<close>

definition srt_win :: "'a srt_queue \<Rightarrow> int \<Rightarrow> bool" where
  "srt_win q j \<longleftrightarrow> sq_get_index q div sq_page_msg_count q \<le> j div sq_page_msg_count q
     \<and> j div sq_page_msg_count q < sq_get_index q div sq_page_msg_count q + sq_page_index_count q"

lemma srt_win_range:
  assumes "srt_geom q" "sq_get_index q \<le> j" "j \<le> sq_get_index q + srt_limit q"
  shows "srt_win q j"
  using zdiv_mono1[OF assms(2) srt_coords(3)[OF assms(1)]] div_diff_le[OF srt_coords(3)[OF assms(1)] assms(2,3)]
  by (simp add: srt_win_def)

lemma srt_win_page:
  assumes g: "srt_geom q" and w: "srt_win q i" "srt_win q j" and eq: "srt_pidx q i = srt_pidx q j"
  shows "i div sq_page_msg_count q = j div sq_page_msg_count q"
proof -
  let ?P = "sq_page_msg_count q" and ?C = "sq_page_index_count q"
  have "?C dvd j div ?P - i div ?P" "?C dvd i div ?P - j div ?P"
    using eq by (simp_all add: srt_coords(1)[OF g] mod_eq_dvd_iff dvd_diff_commute)
  then show ?thesis
    using w zdvd_imp_le[of ?C "j div ?P - i div ?P"] zdvd_imp_le[of ?C "i div ?P - j div ?P"]
    unfolding srt_win_def by linarith
qed

lemma srt_win_slot:
  assumes "srt_geom q" "srt_win q i" "srt_win q j" "srt_pidx q i = srt_pidx q j" "srt_off q i = srt_off q j"
  shows "i = j"
  using srt_win_page[OF assms(1-4)] assms(5) unfolding srt_coords(2)[OF assms(1)]
  by (metis div_mult_mod_eq)

text \<open>The last slot of a page: the next index is on the next page.\<close>

lemma srt_last_slot_div:
  assumes g: "srt_geom q" and last: "srt_off q i = sq_page_msg_mask q"
  shows "(i + 1) div sq_page_msg_count q = i div sq_page_msg_count q + 1"
proof -
  let ?P = "sq_page_msg_count q"
  have "i mod ?P = ?P - 1" using last srt_coords(2,5)[OF g] by simp
  then have "i + 1 = i div ?P * ?P + ?P"
    using div_mult_mod_eq[of i ?P] by linarith
  then have "i + 1 = (i div ?P + 1) * ?P" by (simp only: distrib_right mult_1)
  then show ?thesis using srt_coords(3)[OF g] by simp
qed

lemma srt_inner_slot_div:
  assumes g: "srt_geom q" and last: "srt_off q i \<noteq> sq_page_msg_mask q"
  shows "(i + 1) div sq_page_msg_count q = i div sq_page_msg_count q"
proof -
  let ?P = "sq_page_msg_count q"
  have b: "0 \<le> i mod ?P" "i mod ?P < ?P" using srt_coords(3)[OF g] by simp_all
  moreover have "i mod ?P \<noteq> ?P - 1" using last srt_coords(2,5)[OF g] by simp
  ultimately have "i mod ?P + 1 < ?P" by linarith
  moreover have "i + 1 = i div ?P * ?P + (i mod ?P + 1)" by simp
  ultimately show ?thesis
    using b by (metis add.commute add_cancel_left_right div_mult_self1 div_pos_pos_trivial
        add_nonneg_nonneg srt_coords(3)[OF g] zero_le_one less_irrefl)
qed

text \<open>After the last slot of the page of \<open>get_index_\<close>, no later index in the window is on it.\<close>

lemma srt_win_after_last:
  assumes g: "srt_geom q" and last: "srt_off q (sq_get_index q) = sq_page_msg_mask q"
    and j: "srt_win q j" "sq_get_index q < j"
  shows "srt_pidx q j \<noteq> srt_pidx q (sq_get_index q)"
proof
  assume eq: "srt_pidx q j = srt_pidx q (sq_get_index q)"
  have "srt_win q (sq_get_index q)" using srt_coords(4)[OF g] by (simp add: srt_win_def)
  from srt_win_page[OF g j(1) this eq]
  have "j div sq_page_msg_count q = sq_get_index q div sq_page_msg_count q" .
  moreover have "(sq_get_index q + 1) div sq_page_msg_count q \<le> j div sq_page_msg_count q"
    using j(2) srt_coords(3)[OF g] by (intro zdiv_mono1) auto
  ultimately show False using srt_last_slot_div[OF g last] by simp
qed

section \<open>The invariant\<close>

text \<open>
  Between \<open>delete[] page\<close> and \<open>page_indexes_[page_index] = NULL\<close> the table holds a dangling
  pointer.  The invariant speaks about the queue as if the entry were already cleared.
\<close>

definition srt_view :: "'a srt_consumer \<Rightarrow> 'a srt_queue \<Rightarrow> 'a srt_queue" where
  "srt_view c q = (case c of
     CDeleted m \<Rightarrow> q\<lparr>sq_page_indexes := (sq_page_indexes q)(srt_pidx q (sq_get_index q) := None)\<rparr>
   | _ \<Rightarrow> q)"

abbreviation srt_entry :: "'a srt_queue \<Rightarrow> int \<Rightarrow> nat option" where
  "srt_entry q i \<equiv> sq_page_indexes q (srt_pidx q i)"

definition srt_blank :: "'a srt_message option \<Rightarrow> bool" where
  "srt_blank s \<longleftrightarrow> (case s of None \<Rightarrow> True | Some x \<Rightarrow> sm_flag x = 0)"

lemma srt_blank_simps [simp]:
  "srt_blank None" "srt_blank (Some x) \<longleftrightarrow> sm_flag x = 0"
  by (simp_all add: srt_blank_def)

text \<open>The index a producer has reserved, and the ticket it holds before.\<close>

fun srt_index :: "'a srt_producer \<Rightarrow> int option" where
  "srt_index (PReserved m i) = Some i"
| "srt_index (PAlloc m i) = Some i"
| "srt_index (PFound m i) = Some i"
| "srt_index (PPage m i a) = Some i"
| "srt_index (PStored m i a) = Some i"
| "srt_index _ = None"

fun srt_ticket :: "'a srt_producer \<Rightarrow> int option" where
  "srt_ticket (PHasPost m p) = Some p"
| "srt_ticket (PTicket m p) = Some p"
| "srt_ticket _ = None"

text \<open>
  A ticket \<open>p\<close>: \<open>post_index_\<close> may have moved on since it was read, but not beyond the limit,
  except to \<open>p + 1\<close>.
\<close>

definition srt_ticket_ok :: "'a srt_queue \<Rightarrow> int \<Rightarrow> bool" where
  "srt_ticket_ok v p \<longleftrightarrow> p \<le> sq_post_index v \<and> sq_post_index v \<le> max (sq_get_index v + srt_limit v) (p + 1)"

definition srt_held :: "'a srt_queue \<Rightarrow> 'a list \<Rightarrow> 'a \<Rightarrow> int \<Rightarrow> bool" where
  "srt_held v sent m i \<longleftrightarrow> sq_get_index v \<le> i \<and> i < sq_post_index v \<and> sent ! nat i = m"

fun srt_prod_ok :: "'a srt_queue \<Rightarrow> 'a list \<Rightarrow> 'a srt_producer \<Rightarrow> bool" where
  "srt_prod_ok v sent PIdle \<longleftrightarrow> True"
| "srt_prod_ok v sent (PCall m) \<longleftrightarrow> True"
| "srt_prod_ok v sent (PHasPost m p) \<longleftrightarrow> srt_ticket_ok v p"
| "srt_prod_ok v sent (PHasGet m g) \<longleftrightarrow> g \<le> sq_get_index v"
| "srt_prod_ok v sent (PTicket m p) \<longleftrightarrow> srt_ticket_ok v p \<and> p < sq_get_index v + srt_limit v"
| "srt_prod_ok v sent (PReserved m i) \<longleftrightarrow> srt_held v sent m i \<and> srt_blank (srt_slot v i)"
| "srt_prod_ok v sent (PAlloc m i) \<longleftrightarrow> srt_held v sent m i \<and> srt_blank (srt_slot v i)"
| "srt_prod_ok v sent (PFound m i) \<longleftrightarrow>
     srt_held v sent m i \<and> (\<exists>s. srt_slot v i = Some s \<and> sm_flag s = 0)"
| "srt_prod_ok v sent (PPage m i a) \<longleftrightarrow>
     srt_held v sent m i \<and> srt_entry v i = Some a \<and> (\<exists>s. srt_slot v i = Some s \<and> sm_flag s = 0)"
| "srt_prod_ok v sent (PStored m i a) \<longleftrightarrow>
     srt_held v sent m i \<and> srt_entry v i = Some a \<and> srt_slot v i = Some \<lparr>sm_msg = m, sm_flag = 0\<rparr>"

text \<open>The slot of \<open>get_index_\<close> is given up by the consumer.\<close>

fun srt_gone :: "'a srt_consumer \<Rightarrow> bool" where
  "srt_gone (CDeleted m) = True"
| "srt_gone (CTaken m) = True"
| "srt_gone _ = False"

fun srt_cons_ok :: "'a srt_queue \<Rightarrow> 'a list \<Rightarrow> (nat \<Rightarrow> 'a srt_producer) \<Rightarrow> 'a srt_consumer \<Rightarrow> bool" where
  "srt_cons_ok v sent ps CIdle \<longleftrightarrow> True"
| "srt_cons_ok v sent ps CFind \<longleftrightarrow> sq_get_index v < sq_post_index v"
| "srt_cons_ok v sent ps CAlloc \<longleftrightarrow> sq_get_index v < sq_post_index v"
| "srt_cons_ok v sent ps CFound \<longleftrightarrow> sq_get_index v < sq_post_index v \<and> srt_entry v (sq_get_index v) \<noteq> None"
| "srt_cons_ok v sent ps (CPage a) \<longleftrightarrow> sq_get_index v < sq_post_index v \<and> srt_entry v (sq_get_index v) = Some a"
| "srt_cons_ok v sent ps (CFlagged a) \<longleftrightarrow>
     sq_get_index v < sq_post_index v \<and> srt_entry v (sq_get_index v) = Some a
     \<and> (\<forall>t. srt_index (ps t) \<noteq> Some (sq_get_index v))"
| "srt_cons_ok v sent ps (CRead a m) \<longleftrightarrow>
     sq_get_index v < sq_post_index v \<and> srt_entry v (sq_get_index v) = Some a
     \<and> (\<forall>t. srt_index (ps t) \<noteq> Some (sq_get_index v)) \<and> m = sent ! nat (sq_get_index v)"
| "srt_cons_ok v sent ps (CDeleted m) \<longleftrightarrow>
     sq_get_index v < sq_post_index v \<and> (\<forall>t. srt_index (ps t) \<noteq> Some (sq_get_index v))
     \<and> m = sent ! nat (sq_get_index v) \<and> srt_off v (sq_get_index v) = sq_page_msg_mask v
     \<and> srt_entry v (sq_get_index v) = None"
| "srt_cons_ok v sent ps (CTaken m) \<longleftrightarrow>
     sq_get_index v < sq_post_index v \<and> (\<forall>t. srt_index (ps t) \<noteq> Some (sq_get_index v))
     \<and> m = sent ! nat (sq_get_index v)
     \<and> (srt_off v (sq_get_index v) = sq_page_msg_mask v \<longrightarrow> srt_entry v (sq_get_index v) = None)"

definition srt_delivered :: "'a srt_queue \<Rightarrow> (nat \<Rightarrow> 'a srt_producer) \<Rightarrow> bool \<Rightarrow> 'a list \<Rightarrow> bool" where
  "srt_delivered v ps gone sent \<longleftrightarrow> (\<forall>j. sq_get_index v \<le> j \<and> j < sq_post_index v
     \<and> (\<forall>t. srt_index (ps t) \<noteq> Some j) \<and> \<not> (j = sq_get_index v \<and> gone)
     \<longrightarrow> srt_slot v j = Some \<lparr>sm_msg = sent ! nat j, sm_flag = 1\<rparr>)"

definition srt_fresh :: "'a srt_queue \<Rightarrow> bool" where
  "srt_fresh v \<longleftrightarrow> (\<forall>j. sq_post_index v \<le> j \<and> srt_win v j \<longrightarrow> srt_blank (srt_slot v j))"

definition srt_owners :: "(nat \<Rightarrow> 'a srt_producer) \<Rightarrow> bool" where
  "srt_owners ps \<longleftrightarrow> (\<forall>t t' i. srt_index (ps t) = Some i \<and> srt_index (ps t') = Some i \<longrightarrow> t = t')"

definition srt_tickets :: "'a srt_queue \<Rightarrow> (nat \<Rightarrow> 'a srt_producer) \<Rightarrow> bool" where
  "srt_tickets v ps \<longleftrightarrow> (\<forall>t t' p p'. t \<noteq> t' \<and> srt_ticket (ps t) = Some p \<and> srt_ticket (ps t') = Some p'
     \<longrightarrow> sq_post_index v \<le> max (sq_get_index v + srt_limit v - 1) (max p p'))"

definition srt_bounds :: "'a srt_queue \<Rightarrow> 'a list \<Rightarrow> 'a list \<Rightarrow> bool" where
  "srt_bounds v sent recv \<longleftrightarrow> 0 \<le> sq_get_index v \<and> sq_get_index v \<le> sq_post_index v
     \<and> sq_post_index v \<le> sq_get_index v + srt_limit v + 1
     \<and> int (length sent) = sq_post_index v \<and> recv = take (nat (sq_get_index v)) sent"

definition srt_cinv :: "nat \<Rightarrow> 'a srt_queue \<Rightarrow> (nat \<Rightarrow> 'a srt_producer) \<Rightarrow> 'a srt_consumer \<Rightarrow> 'a list \<Rightarrow> 'a list \<Rightarrow> bool" where
  "srt_cinv n v ps c sent recv \<longleftrightarrow> srt_tables v \<and> srt_bounds v sent recv
     \<and> (\<forall>t. n \<le> t \<longrightarrow> ps t = PIdle) \<and> (\<forall>t. srt_prod_ok v sent (ps t))
     \<and> srt_owners ps \<and> srt_tickets v ps \<and> srt_delivered v ps (srt_gone c) sent \<and> srt_fresh v
     \<and> srt_cons_ok v sent ps c"

definition srt_sys_inv :: "nat \<Rightarrow> 'a srt_sys \<Rightarrow> bool" where
  "srt_sys_inv n st \<longleftrightarrow>
    srt_cinv n (srt_view (sys_cons st) (sys_q st)) (sys_prod st) (sys_cons st) (sys_sent st) (sys_recv st)"

lemma srt_cinvI:
  assumes "srt_tables v" "srt_bounds v sent recv" "\<And>t. n \<le> t \<Longrightarrow> ps t = PIdle"
    "\<And>t. srt_prod_ok v sent (ps t)" "srt_owners ps" "srt_tickets v ps"
    "srt_delivered v ps (srt_gone c) sent" "srt_fresh v" "srt_cons_ok v sent ps c"
  shows "srt_cinv n v ps c sent recv"
  using assms by (simp add: srt_cinv_def)

lemma srt_cinvD:
  assumes "srt_cinv n v ps c sent recv"
  shows "srt_tables v" "srt_bounds v sent recv" "\<And>t. n \<le> t \<Longrightarrow> ps t = PIdle"
    "\<And>t. srt_prod_ok v sent (ps t)" "srt_owners ps" "srt_tickets v ps"
    "srt_delivered v ps (srt_gone c) sent" "srt_fresh v" "srt_cons_ok v sent ps c" "srt_geom v"
  using assms by (simp_all add: srt_cinv_def srt_tables_def)

lemma srt_prod_ok_held:
  "srt_prod_ok v sent p \<Longrightarrow> srt_index p = Some i \<Longrightarrow> sq_get_index v \<le> i \<and> i < sq_post_index v"
  by (cases p) (auto simp: srt_held_def)

lemma srt_cinv_win:
  assumes "srt_cinv n v ps c sent recv" "sq_get_index v \<le> j" "j \<le> sq_post_index v" "j \<le> sq_get_index v + srt_limit v"
  shows "srt_win v j"
  using srt_win_range[OF srt_cinvD(10)[OF assms(1)]] assms(2,4) by blast

lemma srt_cinv_live_win:
  assumes "srt_cinv n v ps c sent recv" "sq_get_index v \<le> j" "j < sq_post_index v"
  shows "srt_win v j"
  using srt_cinvD(2)[OF assms(1)] assms(2,3) by (intro srt_cinv_win[OF assms(1)]) (auto simp: srt_bounds_def)

lemma srt_sys_inv_new: "srt_sys_inv n (srt_sys_new zero pbits ibits)"
proof -
  let ?q = "snd (srt_init (srt_new zero pbits ibits))"
  have inv: "srt_inv ?q" and "srt_contents ?q = []" by (rule srt_inv_init)+
  have i: "sq_get_index ?q = 0" "sq_post_index ?q = 0"
    by (simp_all add: srt_init_def srt_new_def srt_alloc_page_def Let_def)
  have "srt_slot ?q j = None \<or> srt_slot ?q j = Some \<lparr>sm_msg = zero, sm_flag = 0\<rparr>" for j
    by (simp add: srt_init_def srt_new_def srt_alloc_page_def Let_def srt_slot_def split: option.split)
  then have "srt_blank (srt_slot ?q j)" for j
    by (metis srt_blank_simps srt_message.select_convs(2))
  with inv i show ?thesis
    by (simp add: srt_sys_inv_def srt_sys_new_def srt_cinv_def srt_view_def srt_bounds_def srt_owners_def
        srt_tickets_def srt_delivered_def srt_fresh_def srt_inv_def) linarith
qed

section \<open>Steps on a reserved index\<close>

text \<open>
  The effect of an access to the page of index \<open>i\<close>: only that table entry may change, and only
  from empty to a blank page; the slots of the window other than those in \<open>X\<close> keep their value,
  or were without a page and are now blank.
\<close>

definition srt_effect :: "int \<Rightarrow> int set \<Rightarrow> 'a srt_queue \<Rightarrow> 'a srt_queue \<Rightarrow> bool" where
  "srt_effect i X v v' \<longleftrightarrow> srt_same v v' \<and> srt_tables v'
     \<and> (\<forall>k. k \<noteq> srt_pidx v i \<longrightarrow> sq_page_indexes v' k = sq_page_indexes v k)
     \<and> (\<forall>a. srt_entry v i = Some a \<longrightarrow> srt_entry v' i = Some a)
     \<and> (\<forall>j. srt_win v j \<and> j \<notin> X \<longrightarrow> srt_slot v' j = srt_slot v j \<or> (srt_slot v j = None \<and> srt_blank (srt_slot v' j)))"

lemma srt_effectD:
  assumes "srt_effect i X v v'"
  shows "srt_same v v'" "srt_tables v'" "\<And>j. srt_pidx v j \<noteq> srt_pidx v i \<Longrightarrow> srt_entry v' j = srt_entry v j"
    "\<And>j a. srt_entry v j = Some a \<Longrightarrow> srt_entry v' j = Some a"
    "\<And>j. srt_win v j \<Longrightarrow> j \<notin> X \<Longrightarrow>
      srt_slot v' j = srt_slot v j \<or> (srt_slot v j = None \<and> srt_blank (srt_slot v' j))"
    "srt_win v' = srt_win v"
proof -
  show same: "srt_same v v'" using assms by (simp add: srt_effect_def)
  note d = srt_sameD[OF same]
  show other: "srt_pidx v j \<noteq> srt_pidx v i \<Longrightarrow> srt_entry v' j = srt_entry v j" for j
    using assms by (simp add: srt_effect_def d)
  have here: "srt_entry v i = Some a \<Longrightarrow> srt_entry v' i = Some a" for a
    using assms by (simp add: srt_effect_def)
  show "srt_entry v j = Some a \<Longrightarrow> srt_entry v' j = Some a" for j a
    using other[of j] here[of a] by (cases "srt_pidx v j = srt_pidx v i") (simp_all add: d)
  show "srt_win v' = srt_win v" by (simp add: srt_win_def fun_eq_iff d)
qed (use assms in \<open>simp_all add: srt_effect_def\<close>)

lemma srt_effect_refl: "srt_tables v \<Longrightarrow> srt_effect i X v v"
  by (simp add: srt_effect_def srt_same_refl)

lemma srt_get_page_effect:
  assumes t: "srt_tables v"
  shows "\<exists>page v'. srt_get_msg_page (srt_pidx v i) v = Inr (page, v') \<and> srt_effect i {} v v'
    \<and> srt_entry v' i = Some page
    \<and> srt_slot v' i = (if srt_slot v i = None then Some \<lparr>sm_msg = sq_zero v, sm_flag = 0\<rparr> else srt_slot v i)"
proof -
  obtain page v' where g: "srt_get_msg_page (srt_pidx v i) v = Inr (page, v')" "srt_tables v'" "srt_same v v'"
    "sq_page_indexes v' = (sq_page_indexes v)(srt_pidx v i \<mapsto> page)"
    "\<forall>j. srt_slot v' j =
        (if srt_entry v i = None \<and> srt_pidx v j = srt_pidx v i
         then Some \<lparr>sm_msg = sq_zero v, sm_flag = 0\<rparr> else srt_slot v j)"
    using srt_get_page_slots[OF t] by blast
  have keep: "srt_entry v i = Some a \<Longrightarrow> page = a" for a
    using g(1) t srt_coords_range[of v i] by (simp add: srt_get_msg_page_def srt_tables_def)
  have "srt_slot v' j = srt_slot v j \<or> (srt_slot v j = None \<and> srt_blank (srt_slot v' j))" for j
  proof (cases "srt_entry v i = None \<and> srt_pidx v j = srt_pidx v i")
    case True
    then have "srt_slot v j = None" by (simp add: srt_slot_None[OF t])
    with g(5) True show ?thesis by simp
  next
    case False
    then have "srt_slot v' j = srt_slot v j" using g(5)[rule_format, of j] by presburger
    then show ?thesis by blast
  qed
  then have "srt_effect i {} v v'"
    using g(2-4) keep by (simp add: srt_effect_def srt_sameD[OF g(3)])
  moreover have "srt_entry v' i = Some page" by (simp add: srt_sameD[OF g(3)] g(4))
  ultimately show ?thesis using g(1,5) srt_slot_None[OF t, of i] by auto
qed

lemma srt_store_effect:
  assumes t: "srt_tables v" "srt_same v v'" "srt_tables v'" "sq_page_indexes v' = sq_page_indexes v"
    and s: "\<forall>j. srt_slot v' j = (if srt_pidx v j = srt_pidx v i \<and> srt_off v j = srt_off v i
         then x else srt_slot v j)" and win: "srt_win v i"
  shows "srt_effect i {i} v v'"
proof -
  have g: "srt_geom v" using t(1) by (simp add: srt_tables_def)
  have "srt_slot v' j = srt_slot v j" if "srt_win v j" "j \<noteq> i" for j
    using s srt_win_slot[OF g that(1) win] that(2) by auto
  then show ?thesis using t by (auto simp: srt_effect_def srt_sameD[OF t(2)])
qed

text \<open>What a thread other than the one that holds \<open>i\<close> sees of it.\<close>

lemma srt_held_effect: "srt_same v v' \<Longrightarrow> srt_held v' sent m j = srt_held v sent m j"
  by (simp add: srt_held_def srt_sameD)

lemma srt_prod_ok_effect:
  assumes e: "srt_effect i X v v'" and ok: "srt_prod_ok v sent p"
    and ix: "\<And>j. srt_index p = Some j \<Longrightarrow> srt_win v j \<and> j \<notin> X"
  shows "srt_prod_ok v' sent p"
proof -
  note d = srt_sameD[OF srt_effectD(1)[OF e]] srt_held_effect[OF srt_effectD(1)[OF e]]
  show ?thesis
  proof (cases "srt_index p")
    case None
    have "srt_ticket_ok v' = srt_ticket_ok v" by (simp add: srt_ticket_ok_def fun_eq_iff d)
    with None show ?thesis using ok by (cases p) (simp_all add: d)
  next
    case (Some j)
    note slot = srt_effectD(5)[OF e conjunct1[OF ix[OF Some]] conjunct2[OF ix[OF Some]]]
    have blank: "srt_blank (srt_slot v j) \<Longrightarrow> srt_blank (srt_slot v' j)" using slot by auto
    have some: "srt_slot v j = Some s \<Longrightarrow> srt_slot v' j = Some s" for s using slot by auto
    from Some show ?thesis
      using ok blank some srt_effectD(4)[OF e, of j] by (cases p) (auto simp: d)
  qed
qed

lemma srt_cons_ok_effect:
  assumes e: "srt_effect i X v v'" and ok: "srt_cons_ok v sent ps c" and g: "srt_geom v"
    and i: "srt_win v i" "sq_get_index v \<le> i" "srt_gone c \<Longrightarrow> i \<noteq> sq_get_index v"
    and own: "\<forall>t. srt_index (ps t) \<noteq> Some (sq_get_index v) \<Longrightarrow>
      \<forall>t. srt_index (ps' t) \<noteq> Some (sq_get_index v)"
  shows "srt_cons_ok v' sent ps' c"
proof -
  note d = srt_sameD[OF srt_effectD(1)[OF e]]
  have last: "srt_entry v' (sq_get_index v) = srt_entry v (sq_get_index v)"
    if "srt_gone c" "srt_off v (sq_get_index v) = sq_page_msg_mask v"
  proof -
    have "sq_get_index v < i" using i(2) i(3)[OF that(1)] by simp
    from srt_win_after_last[OF g that(2) i(1) this] show ?thesis
      by (intro srt_effectD(3)[OF e]) simp
  qed
  have some: "srt_entry v (sq_get_index v) = Some a \<Longrightarrow> srt_entry v' (sq_get_index v) = Some a" for a
    by (rule srt_effectD(4)[OF e])
  show ?thesis using ok some last own by (cases c) (auto simp: d)
qed

section \<open>Preservation\<close>

text \<open>An access to the page of a live index keeps what the invariant says of the other indices.\<close>

lemma srt_cinv_frame:
  assumes inv: "srt_cinv n v ps c sent recv" and e: "srt_effect i X v v'" and X: "X \<subseteq> {i}"
    and i: "sq_get_index v \<le> i" "i < sq_post_index v"
  shows "srt_tables v'" "srt_bounds v' sent recv" "srt_tickets v' ps' = srt_tickets v ps'" "srt_fresh v'"
    "\<And>j. srt_slot v j = Some s \<Longrightarrow> sq_get_index v \<le> j \<Longrightarrow> j < sq_post_index v \<Longrightarrow> j \<noteq> i \<Longrightarrow> srt_slot v' j = Some s"
proof -
  note d = srt_sameD[OF srt_effectD(1)[OF e]]
  show "srt_tables v'" by (rule srt_effectD(2)[OF e])
  show "srt_bounds v' sent recv" using srt_cinvD(2)[OF inv] by (simp add: srt_bounds_def d)
  show "srt_tickets v' ps' = srt_tickets v ps'" by (simp add: srt_tickets_def d)
  have "srt_blank (srt_slot v' j)" if "sq_post_index v \<le> j" "srt_win v j" for j
  proof -
    have "srt_blank (srt_slot v j)" using srt_cinvD(8)[OF inv] that by (simp add: srt_fresh_def)
    moreover have "j \<notin> X" using X i(2) that(1) by auto
    ultimately show ?thesis using srt_effectD(5)[OF e that(2)] by auto
  qed
  then show "srt_fresh v'" by (simp add: srt_fresh_def d srt_effectD(6)[OF e])
  fix j assume "srt_slot v j = Some s" "sq_get_index v \<le> j" "j < sq_post_index v" "j \<noteq> i"
  then show "srt_slot v' j = Some s"
    using srt_effectD(5)[OF e srt_cinv_live_win[OF inv, of j]] X by auto
qed

lemma srt_cinv_owner:
  assumes "srt_cinv n v ps c sent recv" "srt_index (ps t) = Some i"
  shows "sq_get_index v \<le> i" "i < sq_post_index v" "t < n" "srt_win v i"
    "srt_gone c \<Longrightarrow> i \<noteq> sq_get_index v" "\<And>t' j. srt_index (ps t') = Some j \<Longrightarrow> t' \<noteq> t \<Longrightarrow> j \<noteq> i"
proof -
  show b: "sq_get_index v \<le> i" "i < sq_post_index v"
    using srt_prod_ok_held[OF srt_cinvD(4)[OF assms(1), of t] assms(2)] by simp_all
  show "t < n" using srt_cinvD(3)[OF assms(1), of t] assms(2) by (cases "t < n") auto
  show "srt_win v i" by (rule srt_cinv_live_win[OF assms(1) b])
  show "srt_gone c \<Longrightarrow> i \<noteq> sq_get_index v" using srt_cinvD(9)[OF assms(1)] assms(2) by (cases c) auto
  show "\<And>t' j. srt_index (ps t') = Some j \<Longrightarrow> t' \<noteq> t \<Longrightarrow> j \<noteq> i"
    using srt_cinvD(5)[OF assms(1)] assms(2) unfolding srt_owners_def by blast
qed

text \<open>A step of the producer that holds index \<open>i\<close>.\<close>

lemma srt_cinv_access:
  assumes inv: "srt_cinv n v ps c sent recv" and ix: "srt_index (ps t) = Some i"
    and e: "srt_effect i X v v'" and X: "X \<subseteq> {i}"
    and ok: "srt_prod_ok v' sent p'" and tk: "srt_ticket p' = None"
    and ix': "srt_index p' = Some i \<or>
      (srt_index p' = None \<and> srt_slot v' i = Some \<lparr>sm_msg = sent ! nat i, sm_flag = 1\<rparr>)"
  shows "srt_cinv n v' (ps(t := p')) c sent recv"
proof -
  note d = srt_sameD[OF srt_effectD(1)[OF e]]
  note own = srt_cinv_owner[OF inv ix]
  note frame = srt_cinv_frame[OF inv e X own(1,2)]
  have idx: "srt_index ((ps(t := p')) t') = Some j \<Longrightarrow> srt_index (ps t') = Some j" for t' j
    using ix ix' by (auto split: if_splits)
  show ?thesis
  proof (rule srt_cinvI)
    show "srt_tables v'" "srt_bounds v' sent recv" "srt_fresh v'" by (rule frame)+
    show "n \<le> t' \<Longrightarrow> (ps(t := p')) t' = PIdle" for t' using srt_cinvD(3)[OF inv] own(3) by auto
    show "srt_prod_ok v' sent ((ps(t := p')) t')" for t'
    proof (cases "t' = t")
      case False
      have "srt_prod_ok v' sent (ps t')"
      proof (rule srt_prod_ok_effect[OF e srt_cinvD(4)[OF inv]])
        fix j assume j: "srt_index (ps t') = Some j"
        then show "srt_win v j \<and> j \<notin> X" using srt_cinv_owner(4)[OF inv j] own(6)[OF j False] X by auto
      qed
      with False show ?thesis by simp
    qed (simp add: ok)
    show "srt_owners (ps(t := p'))"
      using srt_cinvD(5)[OF inv] idx unfolding srt_owners_def by blast
    have "srt_tickets v (ps(t := p'))"
      using srt_cinvD(6)[OF inv] tk by (auto simp: srt_tickets_def)
    then show "srt_tickets v' (ps(t := p'))" by (simp only: frame(3))
    show "srt_delivered v' (ps(t := p')) (srt_gone c) sent"
      unfolding srt_delivered_def d
    proof (intro allI impI, elim conjE)
      fix j assume j: "sq_get_index v \<le> j" "j < sq_post_index v" "\<forall>t'. srt_index ((ps(t := p')) t') \<noteq> Some j"
        "\<not> (j = sq_get_index v \<and> srt_gone c)"
      show "srt_slot v' j = Some \<lparr>sm_msg = sent ! nat j, sm_flag = 1\<rparr>"
      proof (cases "j = i")
        case True
        have "srt_index p' \<noteq> Some j" using j(3)[rule_format, of t] by simp
        with True show ?thesis using ix' by simp
      next
        case False
        have "srt_index (ps t') \<noteq> Some j" for t'
          using j(3)[rule_format, of t'] False ix by (cases "t' = t") auto
        then have "srt_slot v j = Some \<lparr>sm_msg = sent ! nat j, sm_flag = 1\<rparr>"
          using srt_cinvD(7)[OF inv] j(1,2,4) unfolding srt_delivered_def by blast
        then show ?thesis by (rule frame(5)[OF _ j(1,2) False])
      qed
    qed
    show "srt_cons_ok v' sent (ps(t := p')) c"
      by (rule srt_cons_ok_effect[OF e srt_cinvD(9,10)[OF inv] own(4,1,5)]) (use idx in blast)+
  qed
qed

text \<open>A step of the consumer that does not give up or finish with the slot of \<open>get_index_\<close>.\<close>

lemma srt_cinv_consume:
  assumes inv: "srt_cinv n v ps c sent recv" and b: "sq_get_index v < sq_post_index v"
    and e: "srt_effect (sq_get_index v) {} v v'" and gone: "srt_gone c' = srt_gone c"
    and ok: "srt_cons_ok v' sent ps c'"
  shows "srt_cinv n v' ps c' sent recv"
proof -
  note d = srt_sameD[OF srt_effectD(1)[OF e]]
  note frame = srt_cinv_frame[OF inv e empty_subsetI order_refl b]
  have win: "srt_win v (sq_get_index v)" by (rule srt_cinv_live_win[OF inv order_refl b])
  show ?thesis
  proof (rule srt_cinvI)
    show "srt_tables v'" "srt_bounds v' sent recv" "srt_fresh v'" by (rule frame)+
    show "n \<le> t \<Longrightarrow> ps t = PIdle" for t by (rule srt_cinvD(3)[OF inv])
    show "srt_prod_ok v' sent (ps t)" for t
      by (rule srt_prod_ok_effect[OF e srt_cinvD(4)[OF inv]]) (simp add: srt_cinv_owner(4)[OF inv])
    show "srt_owners ps" by (rule srt_cinvD(5)[OF inv])
    show "srt_tickets v' ps" using srt_cinvD(6)[OF inv] by (simp only: frame(3))
    show "srt_delivered v' ps (srt_gone c') sent"
      unfolding srt_delivered_def d gone
    proof (intro allI impI, elim conjE)
      fix j assume j: "sq_get_index v \<le> j" "j < sq_post_index v" "\<forall>t. srt_index (ps t) \<noteq> Some j"
        "\<not> (j = sq_get_index v \<and> srt_gone c)"
      then have "srt_slot v j = Some \<lparr>sm_msg = sent ! nat j, sm_flag = 1\<rparr>"
        using srt_cinvD(7)[OF inv] unfolding srt_delivered_def by blast
      then show "srt_slot v' j = Some \<lparr>sm_msg = sent ! nat j, sm_flag = 1\<rparr>"
        using srt_effectD(5)[OF e srt_cinv_live_win[OF inv j(1,2)]] by simp
    qed
    show "srt_cons_ok v' sent ps c'" by (rule ok)
  qed
qed

text \<open>A producer step before the \<open>fetch_and_inc\<close> touches no page.\<close>

lemma srt_cons_ok_index:
  assumes "srt_cons_ok v sent ps c" "\<And>t. srt_index (ps' t) = srt_index (ps t)"
  shows "srt_cons_ok v sent ps' c"
  using assms by (cases c) auto

lemma srt_cinv_local:
  assumes inv: "srt_cinv n v ps c sent recv" and t: "t < n"
    and ix: "srt_index (ps t) = None" "srt_index p' = None" and ok: "srt_prod_ok v sent p'"
    and tk: "srt_ticket p' = None \<or> srt_ticket p' = srt_ticket (ps t) \<or> srt_ticket p' = Some (sq_post_index v)"
  shows "srt_cinv n v (ps(t := p')) c sent recv"
proof -
  have idx: "srt_index ((ps(t := p')) t') = srt_index (ps t')" for t' using ix by simp
  show ?thesis
  proof (rule srt_cinvI)
    show "srt_tables v" "srt_bounds v sent recv" "srt_fresh v" by (rule srt_cinvD[OF inv])+
    show "n \<le> t' \<Longrightarrow> (ps(t := p')) t' = PIdle" for t' using srt_cinvD(3)[OF inv] t by auto
    show "srt_prod_ok v sent ((ps(t := p')) t')" for t' using srt_cinvD(4)[OF inv] ok by simp
    show "srt_owners (ps(t := p'))" using srt_cinvD(5)[OF inv] by (simp only: srt_owners_def idx)
    show "srt_delivered v (ps(t := p')) (srt_gone c) sent"
      using srt_cinvD(7)[OF inv] by (simp only: srt_delivered_def idx)
    show "srt_cons_ok v sent (ps(t := p')) c" by (rule srt_cons_ok_index[OF srt_cinvD(9)[OF inv] idx])
    show "srt_tickets v (ps(t := p'))"
      unfolding srt_tickets_def
    proof (intro allI impI, elim conjE)
      fix t1 t2 p1 p2
      assume tt: "t1 \<noteq> t2" "srt_ticket ((ps(t := p')) t1) = Some p1" "srt_ticket ((ps(t := p')) t2) = Some p2"
      have old: "srt_ticket (ps t') = Some q \<or> q = sq_post_index v"
        if "srt_ticket ((ps(t := p')) t') = Some q" for t' q
        using that tk by (cases "t' = t") auto
      show "sq_post_index v \<le> max (sq_get_index v + srt_limit v - 1) (max p1 p2)"
        using old[OF tt(2)] old[OF tt(3)] srt_cinvD(6)[OF inv] tt(1) unfolding srt_tickets_def by fastforce
    qed
  qed
qed

text \<open>
  The \<open>fetch_and_inc\<close>.  This is where the number of producers matters: with two of them the
  ticket of the other bounds \<open>post_index_\<close> to at most one above the limit.
\<close>

lemma srt_cinv_reserve:
  assumes inv: "srt_cinv n v ps c sent recv" and n: "n \<le> 2" and t: "t < n" and p: "ps t = PTicket m p"
  shows "srt_cinv n (v\<lparr>sq_post_index := sq_post_index v + 1\<rparr>)
    (ps(t := PReserved m (sq_post_index v))) c (sent @ [m]) recv"
proof -
  let ?P = "sq_post_index v" and ?G = "sq_get_index v" and ?v' = "v\<lparr>sq_post_index := sq_post_index v + 1\<rparr>"
  let ?ps = "ps(t := PReserved m ?P)"
  have b: "0 \<le> ?G" "?G \<le> ?P" "int (length sent) = ?P" "recv = take (nat ?G) sent"
    using srt_cinvD(2)[OF inv] by (simp_all add: srt_bounds_def)
  have "srt_prod_ok v sent (PTicket m p)" using srt_cinvD(4)[OF inv, of t] p by simp
  then have tk: "p < ?G + srt_limit v" "?P \<le> ?G + srt_limit v"
    by (auto simp: srt_ticket_ok_def)
  have win: "srt_win ?v' = srt_win v" by (simp add: srt_win_def fun_eq_iff)
  have old: "(sent @ [m]) ! nat j = sent ! nat j" if "?G \<le> j" "j < ?P" for j
    using that b(1,3) by (simp add: nth_append nat_less_iff)
  have new: "(sent @ [m]) ! nat ?P = m" by (simp add: b(3)[symmetric])
  have two: "srt_ticket (ps t') = None" if "t' \<noteq> t" "t'' \<noteq> t" "t' \<noteq> t''" "srt_ticket (ps t'') \<noteq> None" for t' t''
  proof -
    have "t'' < n" using srt_cinvD(3)[OF inv, of t''] that(4) by (cases "t'' < n") auto
    then have "n \<le> t'" using n t that(1-3) by linarith
    then show ?thesis using srt_cinvD(3)[OF inv, of t'] by simp
  qed
  show ?thesis
  proof (rule srt_cinvI)
    show "srt_tables ?v'" using srt_cinvD(1)[OF inv] by simp
    show "srt_bounds ?v' (sent @ [m]) recv"
      using b tk by (simp add: srt_bounds_def nat_le_iff)
    show "n \<le> t' \<Longrightarrow> ?ps t' = PIdle" for t' using srt_cinvD(3)[OF inv] t by auto
    show "srt_prod_ok ?v' (sent @ [m]) (?ps t')" for t'
    proof (cases "t' = t")
      case True
      have "srt_blank (srt_slot v ?P)"
        using srt_cinvD(8)[OF inv] srt_cinv_win[OF inv b(2) order_refl tk(2)] by (simp add: srt_fresh_def)
      then show ?thesis using True b(2) new by (simp add: srt_held_def)
    next
      case False
      have "srt_ticket_ok ?v' q" if "srt_ticket (ps t') = Some q" "srt_ticket_ok v q" for q
      proof -
        have "?P \<le> max (?G + srt_limit v - 1) (max p q)"
          using srt_cinvD(6)[OF inv] False that(1) p unfolding srt_tickets_def by (metis srt_ticket.simps(2))
        then show ?thesis using that(2) tk(1) by (auto simp: srt_ticket_ok_def)
      qed
      moreover have "srt_held ?v' (sent @ [m]) m' j" if "srt_held v sent m' j" for m' j
        using that old[of j] by (auto simp: srt_held_def)
      ultimately show ?thesis using srt_cinvD(4)[OF inv, of t'] False by (cases "ps t'") auto
    qed
    have lt: "srt_index (ps t') = Some j \<Longrightarrow> j < ?P" for t' j by (rule srt_cinv_owner(2)[OF inv])
    have not: "srt_index (ps t) = None" using p by simp
    show "srt_owners ?ps"
      using srt_cinvD(5)[OF inv] unfolding srt_owners_def by (auto dest: lt split: if_splits)
    show "srt_tickets ?v' ?ps"
      unfolding srt_tickets_def
    proof (intro allI impI, elim conjE)
      fix t1 t2 p1 p2
      assume tt: "t1 \<noteq> t2" "srt_ticket (?ps t1) = Some p1" "srt_ticket (?ps t2) = Some p2"
      then have "t1 \<noteq> t" "t2 \<noteq> t" by auto
      with two[of t1 t2] tt show "sq_post_index ?v' \<le> max (sq_get_index ?v' + srt_limit ?v' - 1) (max p1 p2)" by auto
    qed
    show "srt_delivered ?v' ?ps (srt_gone c) (sent @ [m])"
      unfolding srt_delivered_def
    proof (intro allI impI, elim conjE)
      fix j assume j: "sq_get_index ?v' \<le> j" "j < sq_post_index ?v'" "\<forall>t'. srt_index (?ps t') \<noteq> Some j"
        "\<not> (j = sq_get_index ?v' \<and> srt_gone c)"
      have "j \<noteq> ?P" using j(3)[rule_format, of t] by simp
      then have lt: "?G \<le> j" "j < ?P" using j(1,2) by simp_all
      have "srt_index (ps t') \<noteq> Some j" for t' using j(3)[rule_format, of t'] not by (cases "t' = t") auto
      then have "srt_slot v j = Some \<lparr>sm_msg = sent ! nat j, sm_flag = 1\<rparr>"
        using srt_cinvD(7)[OF inv] lt j(4) unfolding srt_delivered_def by simp
      then show "srt_slot ?v' j = Some \<lparr>sm_msg = (sent @ [m]) ! nat j, sm_flag = 1\<rparr>"
        by (simp add: old[OF lt])
    qed
    show "srt_fresh ?v'" using srt_cinvD(8)[OF inv] by (simp add: srt_fresh_def win)
    have "\<forall>t'. srt_index (ps t') \<noteq> Some ?G \<Longrightarrow> ?G < ?P \<Longrightarrow> \<forall>t'. srt_index (?ps t') \<noteq> Some ?G" by simp
    then show "srt_cons_ok ?v' (sent @ [m]) ?ps c"
      using srt_cinvD(9)[OF inv] old[of ?G] by (cases c) auto
  qed
qed

text \<open>The consumer frees the page of the last slot.\<close>

lemma srt_cinv_delete:
  assumes inv: "srt_cinv n v ps (CRead a m) sent recv"
    and last: "srt_off v (sq_get_index v) = sq_page_msg_mask v"
  shows "\<exists>v'. srt_free_page a (srt_pidx v (sq_get_index v)) v = Inr v' \<and> srt_same v v'
    \<and> srt_cinv n v' ps (CDeleted m) sent recv"
proof -
  let ?G = "sq_get_index v"
  have t: "srt_tables v" and g: "srt_geom v" by (rule srt_cinvD[OF inv])+
  have c: "?G < sq_post_index v" "srt_entry v ?G = Some a" "\<forall>t. srt_index (ps t) \<noteq> Some ?G" "m = sent ! nat ?G"
    using srt_cinvD(9)[OF inv] by simp_all
  obtain v' where v': "srt_free_page a (srt_pidx v ?G) v = Inr v'" "srt_tables v'" "srt_same v v'"
    "sq_page_indexes v' = (sq_page_indexes v)(srt_pidx v ?G := None)"
    "\<forall>j. srt_slot v' j = (if srt_pidx v j = srt_pidx v ?G then None else srt_slot v j)"
    using srt_free_page_slots[OF t c(2)] by blast
  note d = srt_sameD[OF v'(3)]
  have keep: "srt_slot v' j = srt_slot v j" "srt_entry v' j = srt_entry v j"
    if "?G < j" "j < sq_post_index v" for j
    using srt_win_after_last[OF g last srt_cinv_live_win[OF inv _ that(2)] that(1)] that(1) v'(4,5)
    by (simp_all add: d)
  have "srt_cinv n v' ps (CDeleted m) sent recv"
  proof (rule srt_cinvI)
    show "srt_tables v'" by (rule v'(2))
    show "srt_bounds v' sent recv" using srt_cinvD(2)[OF inv] by (simp add: srt_bounds_def d)
    show "n \<le> t \<Longrightarrow> ps t = PIdle" for t by (rule srt_cinvD(3)[OF inv])
    show "srt_prod_ok v' sent (ps t)" for t
    proof (cases "srt_index (ps t)")
      case None
      have "srt_ticket_ok v' = srt_ticket_ok v" by (simp add: srt_ticket_ok_def fun_eq_iff d)
      with None show ?thesis using srt_cinvD(4)[OF inv, of t] by (cases "ps t") (simp_all add: d)
    next
      case (Some j)
      have "j \<noteq> ?G" using c(3) Some by auto
      then have "?G < j" "j < sq_post_index v" using srt_cinv_owner(1,2)[OF inv Some] by simp_all
      then show ?thesis
        using keep[of j] srt_cinvD(4)[OF inv, of t] Some srt_held_effect[OF v'(3)] by (cases "ps t") auto
    qed
    show "srt_owners ps" by (rule srt_cinvD(5)[OF inv])
    show "srt_tickets v' ps" using srt_cinvD(6)[OF inv] by (simp add: srt_tickets_def d)
    show "srt_delivered v' ps (srt_gone (CDeleted m)) sent"
      unfolding srt_delivered_def d
    proof (intro allI impI, elim conjE)
      fix j assume j: "?G \<le> j" "j < sq_post_index v" "\<forall>t. srt_index (ps t) \<noteq> Some j"
        "\<not> (j = ?G \<and> srt_gone (CDeleted m))"
      then have "srt_slot v j = Some \<lparr>sm_msg = sent ! nat j, sm_flag = 1\<rparr>"
        using srt_cinvD(7)[OF inv] unfolding srt_delivered_def by simp
      then show "srt_slot v' j = Some \<lparr>sm_msg = sent ! nat j, sm_flag = 1\<rparr>"
        using keep(1)[of j] j by simp
    qed
    have "srt_win v' = srt_win v" by (simp add: srt_win_def fun_eq_iff d)
    then show "srt_fresh v'" using srt_cinvD(8)[OF inv] v'(5) by (simp add: srt_fresh_def d)
    show "srt_cons_ok v' sent ps (CDeleted m)"
      using c last v'(4) by (simp add: d)
  qed
  with v' show ?thesis by blast
qed

text \<open>The consumer leaves the page in place, or has cleared its entry.\<close>

lemma srt_cinv_taken:
  assumes inv: "srt_cinv n v ps c sent recv"
    and c: "(\<exists>a. c = CRead a m) \<and> srt_off v (sq_get_index v) \<noteq> sq_page_msg_mask v \<or> c = CDeleted m"
  shows "srt_cinv n v ps (CTaken m) sent recv"
proof -
  have "srt_delivered v ps (srt_gone (CTaken m)) sent"
    using srt_cinvD(7)[OF inv] c by (auto simp: srt_delivered_def)
  moreover have "srt_cons_ok v sent ps (CTaken m)"
    using srt_cinvD(9)[OF inv] c by auto
  ultimately show ?thesis using inv by (simp add: srt_cinv_def)
qed

text \<open>The consumer moves \<open>get_index_\<close> on, which opens the window for the next page.\<close>

lemma srt_cinv_advance:
  assumes inv: "srt_cinv n v ps (CTaken m) sent recv"
  shows "srt_cinv n (v\<lparr>sq_get_index := sq_get_index v + 1\<rparr>) ps CIdle sent (recv @ [m])"
proof -
  let ?G = "sq_get_index v" and ?v' = "v\<lparr>sq_get_index := sq_get_index v + 1\<rparr>"
  let ?P = "sq_page_msg_count v" and ?C = "sq_page_index_count v"
  have g: "srt_geom v" by (rule srt_cinvD(10)[OF inv])
  have c: "?G < sq_post_index v" "\<forall>t. srt_index (ps t) \<noteq> Some ?G" "m = sent ! nat ?G"
    "srt_off v ?G = sq_page_msg_mask v \<Longrightarrow> srt_entry v ?G = None"
    using srt_cinvD(9)[OF inv] by simp_all
  have b: "0 \<le> ?G" "?G \<le> sq_post_index v" "sq_post_index v \<le> ?G + srt_limit v + 1"
    "int (length sent) = sq_post_index v" "recv = take (nat ?G) sent"
    using srt_cinvD(2)[OF inv] by (simp_all add: srt_bounds_def)
  have win: "srt_blank (srt_slot v j)" if "sq_post_index v \<le> j" "srt_win ?v' j" for j
  proof (cases "srt_win v j")
    case True
    then show ?thesis using srt_cinvD(8)[OF inv] that(1) by (simp add: srt_fresh_def)
  next
    case False
    have last: "srt_off v ?G = sq_page_msg_mask v"
    proof (rule ccontr)
      assume "srt_off v ?G \<noteq> sq_page_msg_mask v"
      from srt_inner_slot_div[OF g this] that(2) False show False by (simp add: srt_win_def)
    qed
    then have "j div ?P = ?G div ?P + ?C"
      using False that(2) srt_last_slot_div[OF g last] srt_coords(4)[OF g] by (auto simp: srt_win_def)
    then have "srt_pidx v j = srt_pidx v ?G" by (simp add: srt_coords(1)[OF g])
    then have "srt_slot v j = None" using c(4)[OF last] srt_slot_None[OF srt_cinvD(1)[OF inv], of j] by simp
    then show ?thesis by simp
  qed
  show ?thesis
  proof (rule srt_cinvI)
    show "srt_tables ?v'" using srt_cinvD(1)[OF inv] by simp
    have "nat (?G + 1) = Suc (nat ?G)" "nat ?G < length sent" using b(1,4) c(1) by simp_all
    then have "recv @ [m] = take (nat (?G + 1)) sent" by (simp add: b(5) c(3) take_Suc_conv_app_nth)
    then show "srt_bounds ?v' sent (recv @ [m])" using b c(1) by (simp add: srt_bounds_def)
    show "n \<le> t \<Longrightarrow> ps t = PIdle" for t by (rule srt_cinvD(3)[OF inv])
    show "srt_prod_ok ?v' sent (ps t)" for t
    proof -
      have "srt_held v sent m' j \<Longrightarrow> j \<noteq> ?G \<Longrightarrow> srt_held ?v' sent m' j" for m' j
        by (auto simp: srt_held_def)
      moreover have "srt_ticket_ok v q \<Longrightarrow> srt_ticket_ok ?v' q" for q by (auto simp: srt_ticket_ok_def)
      ultimately show ?thesis
        using srt_cinvD(4)[OF inv, of t] c(2)[rule_format, of t] by (cases "ps t") auto
    qed
    show "srt_owners ps" by (rule srt_cinvD(5)[OF inv])
    show "srt_tickets ?v' ps" using srt_cinvD(6)[OF inv] unfolding srt_tickets_def by fastforce
    show "srt_delivered ?v' ps (srt_gone CIdle) sent"
      using srt_cinvD(7)[OF inv] by (auto simp: srt_delivered_def)
    show "srt_fresh ?v'" using win by (simp add: srt_fresh_def)
    show "srt_cons_ok ?v' sent ps CIdle" by simp
  qed
qed

section \<open>No step faults, and every step keeps the invariant\<close>

lemma srt_view_simps [simp]:
  "sq_get_index (srt_view c q) = sq_get_index q" "sq_post_index (srt_view c q) = sq_post_index q"
  "sq_initialized (srt_view c q) = sq_initialized q" "sq_heap (srt_view c q) = sq_heap q"
  "sq_page_index_count (srt_view c q) = sq_page_index_count q"
  "sq_page_msg_count (srt_view c q) = sq_page_msg_count q" "sq_page_msg_mask (srt_view c q) = sq_page_msg_mask q"
  "srt_pidx (srt_view c q) = srt_pidx q" "srt_off (srt_view c q) = srt_off q" "srt_full (srt_view c q) = srt_full q"
  by (auto simp: srt_view_def srt_pidx_def srt_off_def srt_full_def fun_eq_iff split: srt_consumer.split)

lemma srt_view_id: "\<not> srt_gone c \<Longrightarrow> srt_view c q = q"
  by (cases c) (simp_all add: srt_view_def)

lemma srt_view_CTaken [simp]: "srt_view (CTaken m) q = q"
  by (simp add: srt_view_def)

lemma srt_view_post [simp]:
  "srt_view c (q\<lparr>sq_post_index := p\<rparr>) = (srt_view c q)\<lparr>sq_post_index := p\<rparr>"
  by (simp add: srt_view_def split: srt_consumer.split)

lemma srt_view_entry:
  "\<not> (\<exists>m. c = CDeleted m \<and> k = srt_pidx q (sq_get_index q)) \<Longrightarrow> sq_page_indexes (srt_view c q) k = sq_page_indexes q k"
  by (auto simp: srt_view_def split: srt_consumer.split)

text \<open>A producer's accesses to the pages commute with clearing the consumer's entry.\<close>

lemma srt_view_get_msg_page:
  assumes "srt_get_msg_page k (srt_view c q) = Inr (page, v')"
    and "\<not> (\<exists>m. c = CDeleted m \<and> k = srt_pidx q (sq_get_index q))"
  shows "\<exists>q'. srt_get_msg_page k q = Inr (page, q') \<and> srt_view c q' = v'"
proof (cases c)
  case (CDeleted m)
  have pidx: "srt_pidx (q\<lparr>sq_heap := h, sq_page_indexes := x, sq_next := n\<rparr>) = srt_pidx q" for h x n
    by (simp add: srt_pidx_def fun_eq_iff)
  from assms CDeleted show ?thesis
    by (auto simp: srt_view_def srt_get_msg_page_def srt_alloc_page_def obind_eq_Inr oassert_def pidx fun_upd_twist
        split: option.splits if_splits)
qed (use assms in \<open>simp_all add: srt_view_def\<close>)

lemma srt_view_page: "srt_page (srt_view c q) page off = srt_page q page off"
  by (simp add: srt_page_def split: option.split)

lemma srt_view_heap:
  "srt_view c (q\<lparr>sq_heap := h\<rparr>) = (srt_view c q)\<lparr>sq_heap := h\<rparr>"
  by (simp add: srt_view_def srt_pidx_def split: srt_consumer.split)

lemma srt_view_store_msg:
  "srt_store_msg page off m (srt_view c q) = Inr v' \<Longrightarrow> \<exists>q'. srt_store_msg page off m q = Inr q' \<and> srt_view c q' = v'"
  by (auto simp: srt_store_msg_def obind_eq_Inr srt_view_page srt_view_heap)

lemma srt_view_store_flag:
  "srt_store_flag page off (srt_view c q) = Inr v' \<Longrightarrow> \<exists>q'. srt_store_flag page off q = Inr q' \<and> srt_view c q' = v'"
  by (auto simp: srt_store_flag_def obind_eq_Inr srt_view_page srt_view_heap)

text \<open>A producer's own table entry is not the one the consumer is about to clear.\<close>

lemma srt_owner_entry:
  assumes inv: "srt_cinv n (srt_view c q) ps c sent recv" and ix: "srt_index (ps t) = Some i"
  shows "\<not> (\<exists>m. c = CDeleted m \<and> srt_pidx q i = srt_pidx q (sq_get_index q))"
proof
  assume "\<exists>m. c = CDeleted m \<and> srt_pidx q i = srt_pidx q (sq_get_index q)"
  then obtain m where c: "c = CDeleted m" "srt_pidx q i = srt_pidx q (sq_get_index q)" by blast
  then have last: "srt_off (srt_view c q) (sq_get_index (srt_view c q)) = sq_page_msg_mask (srt_view c q)"
    using srt_cinvD(9)[OF inv] by simp
  have "sq_get_index (srt_view c q) < i"
    using srt_cinv_owner(1,5)[OF inv ix] c(1) by fastforce
  from srt_win_after_last[OF srt_cinvD(10)[OF inv] last srt_cinv_owner(4)[OF inv ix] this] c(2)
  show False by simp
qed

text \<open>The tests before the \<open>fetch_and_inc\<close>, whichever index was read first.\<close>

lemma srt_check_ok:
  assumes inv: "srt_cinv n v ps c sent recv" and g: "g \<le> sq_get_index v" and p: "srt_ticket_ok v p"
    and full: "\<not> srt_full v p g"
  shows "srt_prod_ok v sent (PTicket m p)"
  using srt_full_iff[OF srt_cinvD(10)[OF inv], of p g] g p full by simp

lemma srt_post_ticket: "srt_bounds v sent recv \<Longrightarrow> srt_ticket_ok v (sq_post_index v)"
  by (simp add: srt_ticket_ok_def)

lemma srt_producer_step_ok:
  assumes inv: "srt_cinv n (srt_view c q) ps c sent recv" and n: "n \<le> 2" and t: "t < n"
  shows "\<exists>new p' q'. srt_producer_step b (ps t) q = Inr (new, p', q')
    \<and> srt_cinv n (srt_view c q') (ps(t := p')) c (sent @ new) recv"
proof -
  let ?v = "srt_view c q"
  have tab: "srt_tables ?v" and bnd: "srt_bounds ?v sent recv" and ok: "srt_prod_ok ?v sent (ps t)"
    by (rule srt_cinvD[OF inv])+
  have init: "sq_initialized q" using tab by (simp add: srt_tables_def)
  note local = srt_cinv_local[OF inv t]
  have same: "ps(t := ps t) = ps" by simp
  show ?thesis
  proof (cases "ps t")
    case PIdle
    then have "ps(t := PIdle) = ps" by auto
    with PIdle show ?thesis using inv by simp
  next
    case (PCall m)
    let ?p = "if b then PHasPost m (sq_post_index q) else PHasGet m (sq_get_index q)"
    have "srt_cinv n ?v (ps(t := ?p)) c sent recv"
      by (rule local) (use PCall srt_post_ticket[OF bnd] in auto)
    with PCall init show ?thesis by simp
  next
    case (PHasPost m p)
    let ?p = "if srt_full q p (sq_get_index q) then PIdle else PTicket m p"
    have "srt_prod_ok ?v sent ?p"
      using srt_check_ok[OF inv order_refl, of p m] ok PHasPost by simp
    then have "srt_cinv n ?v (ps(t := ?p)) c sent recv"
      by (intro local) (use PHasPost in auto)
    with PHasPost show ?thesis by simp
  next
    case (PHasGet m g)
    let ?p = "if srt_full q (sq_post_index q) g then PIdle else PTicket m (sq_post_index q)"
    have "g \<le> sq_get_index ?v" using ok PHasGet by simp
    from srt_check_ok[OF inv this srt_post_ticket[OF bnd], of m]
    have "srt_prod_ok ?v sent ?p" by simp
    then have "srt_cinv n ?v (ps(t := ?p)) c sent recv"
      by (intro local) (use PHasGet in auto)
    with PHasGet show ?thesis by simp
  next
    case (PTicket m p)
    from srt_cinv_reserve[OF inv n t this] PTicket show ?thesis by simp
  next
    case (PReserved m i)
    then have ix: "srt_index (ps t) = Some i" by simp
    note e = srt_view_entry[OF srt_owner_entry[OF inv ix]]
    have rng: "0 \<le> srt_pidx q i" "srt_pidx q i < sq_page_index_count q"
      using srt_coords_range[OF srt_cinvD(10)[OF inv], of i] by simp_all
    let ?p = "if srt_entry q i = None then PAlloc m i else PFound m i"
    have "srt_prod_ok ?v sent ?p"
      using ok PReserved e srt_slot_None[OF tab, of i] by auto
    then have "srt_cinv n ?v (ps(t := ?p)) c sent recv"
      by (intro srt_cinv_access[OF inv ix srt_effect_refl[OF tab, of i "{}"]]) (use PReserved in auto)
    with PReserved init rng show ?thesis by simp
  next
    case (PAlloc m i)
    then have ix: "srt_index (ps t) = Some i" by simp
    obtain page v' where g: "srt_get_msg_page (srt_pidx ?v i) ?v = Inr (page, v')" "srt_effect i {} ?v v'"
      "srt_slot v' i = (if srt_slot ?v i = None then Some \<lparr>sm_msg = sq_zero ?v, sm_flag = 0\<rparr> else srt_slot ?v i)"
      using srt_get_page_effect[OF tab] by blast
    obtain q' where q': "srt_get_msg_page (srt_pidx q i) q = Inr (page, q')" "srt_view c q' = v'"
      using srt_view_get_msg_page[OF g(1)] srt_owner_entry[OF inv ix] by auto
    have "srt_prod_ok v' sent (PFound m i)"
      using ok PAlloc g(3) srt_held_effect[OF srt_effectD(1)[OF g(2)]] by auto
    then have "srt_cinv n v' (ps(t := PFound m i)) c sent recv"
      by (intro srt_cinv_access[OF inv ix g(2)]) auto
    with PAlloc q' show ?thesis by simp
  next
    case (PFound m i)
    then have ix: "srt_index (ps t) = Some i" by simp
    note e = srt_view_entry[OF srt_owner_entry[OF inv ix]]
    have "srt_slot ?v i \<noteq> None" using ok PFound by auto
    then obtain a where a: "srt_entry ?v i = Some a" using srt_slot_None[OF tab, of i] by auto
    then have "srt_prod_ok ?v sent (PPage m i a)" using ok PFound by simp
    then have "srt_cinv n ?v (ps(t := PPage m i a)) c sent recv"
      by (intro srt_cinv_access[OF inv ix srt_effect_refl[OF tab, of i "{}"]]) auto
    with PFound a e show ?thesis by simp
  next
    case (PPage m i a)
    then have ix: "srt_index (ps t) = Some i" by simp
    have a: "srt_entry ?v i = Some a" using ok PPage by simp
    obtain v' slot where g: "srt_store_msg a (srt_off ?v i) m ?v = Inr v'" "srt_tables v'" "srt_same ?v v'"
      "sq_page_indexes v' = sq_page_indexes ?v" "srt_slot ?v i = Some slot"
      "\<forall>j. srt_slot v' j = (if srt_pidx ?v j = srt_pidx ?v i \<and> srt_off ?v j = srt_off ?v i
           then Some (slot\<lparr>sm_msg := m\<rparr>) else srt_slot ?v j)"
      using srt_store_msg_slot[OF tab a] by blast
    note eff = srt_store_effect[OF tab g(3,2,4,6) srt_cinv_owner(4)[OF inv ix]]
    obtain q' where q': "srt_store_msg a (srt_off q i) m q = Inr q'" "srt_view c q' = v'"
      using srt_view_store_msg[OF g(1)] by auto
    have "slot\<lparr>sm_msg := m\<rparr> = \<lparr>sm_msg = m, sm_flag = 0\<rparr>" using ok PPage g(5) by simp
    then have "srt_prod_ok v' sent (PStored m i a)"
      using ok PPage g(4) g(6)[rule_format, of i] a srt_held_effect[OF g(3)] srt_sameD[OF g(3)] by simp
    then have "srt_cinv n v' (ps(t := PStored m i a)) c sent recv"
      by (intro srt_cinv_access[OF inv ix eff]) auto
    with PPage q' show ?thesis by simp
  next
    case (PStored m i a)
    then have ix: "srt_index (ps t) = Some i" by simp
    have a: "srt_entry ?v i = Some a" using ok PStored by simp
    obtain v' slot where g: "srt_store_flag a (srt_off ?v i) ?v = Inr v'" "srt_tables v'" "srt_same ?v v'"
      "sq_page_indexes v' = sq_page_indexes ?v" "srt_slot ?v i = Some slot"
      "\<forall>j. srt_slot v' j = (if srt_pidx ?v j = srt_pidx ?v i \<and> srt_off ?v j = srt_off ?v i
           then Some (slot\<lparr>sm_flag := 1\<rparr>) else srt_slot ?v j)"
      using srt_store_flag_slot[OF tab a] by blast
    note eff = srt_store_effect[OF tab g(3,2,4,6) srt_cinv_owner(4)[OF inv ix]]
    obtain q' where q': "srt_store_flag a (srt_off q i) q = Inr q'" "srt_view c q' = v'"
      using srt_view_store_flag[OF g(1)] by auto
    have "slot = \<lparr>sm_msg = sent ! nat i, sm_flag = 0\<rparr>" using ok PStored g(5) by (simp add: srt_held_def)
    then have "srt_slot v' i = Some \<lparr>sm_msg = sent ! nat i, sm_flag = 1\<rparr>" using g(6)[rule_format, of i] by simp
    then have "srt_cinv n v' (ps(t := PIdle)) c sent recv"
      by (intro srt_cinv_access[OF inv ix eff]) auto
    with PStored q' show ?thesis by simp
  qed
qed

lemma srt_consumer_step_ok:
  assumes inv: "srt_cinv n (srt_view c q) ps c sent recv"
  shows "\<exists>out c' q'. srt_consumer_step c q = Inr (out, c', q')
    \<and> srt_cinv n (srt_view c' q') ps c' sent (recv @ out)"
proof -
  let ?G = "sq_get_index q"
  have ok: "srt_cons_ok (srt_view c q) sent ps c" and g: "srt_geom (srt_view c q)"
    and tab: "srt_tables (srt_view c q)" by (rule srt_cinvD[OF inv])+
  note consume = srt_cinv_consume[OF inv]
  have rng: "0 \<le> srt_pidx q ?G" "srt_pidx q ?G < sq_page_index_count q"
    using srt_coords_range[OF g, of ?G] by simp_all
  have stay: "srt_cinv n (srt_view c q) ps c' sent recv"
    if "sq_get_index q < sq_post_index q" "srt_gone c' = srt_gone c" "srt_cons_ok (srt_view c q) sent ps c'" for c'
    using that by (intro consume[OF _ srt_effect_refl[OF tab]]) simp_all
  show ?thesis
  proof (cases c)
    case CIdle
    let ?c = "if sq_get_index q \<ge> sq_post_index q then CIdle else CFind"
    have "srt_cinv n (srt_view ?c q) ps ?c sent recv"
      using stay[of ?c] inv CIdle by (simp add: srt_view_id)
    then show ?thesis using CIdle tab by (simp add: srt_tables_def)
  next
    case CFind
    then have v: "srt_view c q = q" by (simp add: srt_view_id)
    let ?c = "if srt_entry q ?G = None then CAlloc else CFound"
    have "srt_cinv n (srt_view ?c q) ps ?c sent recv"
      using stay[of ?c] CFind ok by (simp add: srt_view_id)
    then show ?thesis using CFind rng by simp
  next
    case CAlloc
    then have v: "srt_view c q = q" by (simp add: srt_view_id)
    obtain page q' where q': "srt_get_msg_page (srt_pidx q ?G) q = Inr (page, q')" "srt_effect ?G {} q q'"
      "srt_entry q' ?G = Some page"
      using srt_get_page_effect[of q ?G] tab v by auto
    note d = srt_sameD[OF srt_effectD(1)[OF q'(2)]]
    have "srt_cinv n q' ps CFound sent recv"
      by (rule consume) (use CAlloc ok v q' in \<open>simp_all add: d\<close>)
    then show ?thesis using CAlloc q'(1) by (simp add: srt_view_id)
  next
    case CFound
    then have v: "srt_view c q = q" by (simp add: srt_view_id)
    obtain a where a: "srt_entry q ?G = Some a" using ok CFound v by auto
    have "srt_cinv n q ps (CPage a) sent recv" using stay[of "CPage a"] CFound ok v a by simp
    then show ?thesis using CFound a by (simp add: srt_view_id)
  next
    case (CPage a)
    then have v: "srt_view c q = q" by (simp add: srt_view_id)
    have a: "?G < sq_post_index q" "srt_entry q ?G = Some a" using ok CPage v by simp_all
    obtain slot where slot: "srt_load a (srt_off q ?G) q = Inr slot" "srt_slot q ?G = Some slot"
      using srt_load_slot[OF _ a(2)] tab v by auto
    have own: "\<forall>t. srt_index (ps t) \<noteq> Some ?G" if "sm_flag slot = 1"
    proof (intro allI notI)
      fix t assume "srt_index (ps t) = Some ?G"
      with srt_cinvD(4)[OF inv, of t] slot(2) that v show False by (cases "ps t") auto
    qed
    let ?c = "if sm_flag slot = 1 then CFlagged a else CIdle"
    have "srt_cinv n q ps ?c sent recv"
      using stay[of ?c] CPage v a own by simp
    then show ?thesis using CPage slot by (simp add: srt_view_id)
  next
    case (CFlagged a)
    then have v: "srt_view c q = q" by (simp add: srt_view_id)
    have a: "?G < sq_post_index q" "srt_entry q ?G = Some a" "\<forall>t. srt_index (ps t) \<noteq> Some ?G"
      using ok CFlagged v by simp_all
    obtain slot where slot: "srt_load a (srt_off q ?G) q = Inr slot" "srt_slot q ?G = Some slot"
      using srt_load_slot[OF _ a(2)] tab v by auto
    have "sm_msg slot = sent ! nat ?G"
      using srt_cinvD(7)[OF inv] CFlagged v a slot(2) by (auto simp: srt_delivered_def)
    then have "srt_cinv n q ps (CRead a (sm_msg slot)) sent recv"
      using stay[of "CRead a (sm_msg slot)"] CFlagged v a by simp
    then show ?thesis using CFlagged slot by (simp add: srt_view_id)
  next
    case (CRead a m)
    then have v: "srt_view c q = q" by (simp add: srt_view_id)
    have inv': "srt_cinv n q ps (CRead a m) sent recv" using inv CRead v by simp
    show ?thesis
    proof (cases "srt_off q ?G = sq_page_msg_mask q")
      case True
      obtain v' where v': "srt_free_page a (srt_pidx q ?G) q = Inr v'" "srt_cinv n v' ps (CDeleted m) sent recv"
        using srt_cinv_delete[OF inv' True] by blast
      have pidx: "srt_pidx (q\<lparr>sq_heap := h\<rparr>) = srt_pidx q" for h by (simp add: srt_pidx_def fun_eq_iff)
      from v'(1) obtain slots where h: "sq_heap q a = Some slots"
        and eq: "v' = srt_view (CDeleted m) (q\<lparr>sq_heap := (sq_heap q)(a := None)\<rparr>)"
        by (auto simp: srt_free_page_def srt_view_def pidx split: option.splits)
      show ?thesis using CRead True h v'(2) eq by simp
    next
      case False
      then show ?thesis using CRead srt_cinv_taken[OF inv', of m] by simp
    qed
  next
    case (CDeleted m)
    then show ?thesis using srt_cinv_taken[OF inv, of m] by (simp add: srt_view_def)
  next
    case (CTaken m)
    have "srt_cinv n q ps (CTaken m) sent recv" using inv CTaken by simp
    from srt_cinv_advance[OF this] CTaken show ?thesis by (simp add: srt_view_id)
  qed
qed

lemma srt_act_ok:
  assumes inv: "srt_sys_inv n st" and n: "n \<le> 2" and a: "\<forall>t. srt_act_thread a = Some t \<longrightarrow> t < n"
  shows "\<exists>st'. srt_act a st = Inr st' \<and> srt_sys_inv n st'"
proof (cases a)
  case (Call t m)
  show ?thesis
  proof (cases "sys_prod st t = PIdle")
    case True
    have "srt_cinv n (srt_view (sys_cons st) (sys_q st)) ((sys_prod st)(t := PCall m)) (sys_cons st) (sys_sent st) (sys_recv st)"
      using srt_cinv_local[OF inv[unfolded srt_sys_inv_def], of t "PCall m"] a Call True by simp
    then show ?thesis using Call True by (simp add: srt_sys_inv_def)
  next
    case False
    then show ?thesis using Call inv by simp
  qed
next
  case (Produce t b)
  then have "t < n" using a by simp
  from srt_producer_step_ok[OF inv[unfolded srt_sys_inv_def] n this, of b] Produce show ?thesis
    by (auto simp: srt_sys_inv_def)
next
  case Consume
  from srt_consumer_step_ok[OF inv[unfolded srt_sys_inv_def]] Consume show ?thesis
    by (auto simp: srt_sys_inv_def)
qed

lemma srt_reach_inv:
  assumes "srt_reach n (srt_sys_new zero pbits ibits) st" "n \<le> 2"
  shows "srt_sys_inv n st"
  using assms(1)
proof (induction rule: srt_reach.induct)
  case start
  then show ?case by (rule srt_sys_inv_new)
next
  case (act st a st')
  then show ?case using srt_act_ok[OF act.IH assms(2) act.hyps(2)] by auto
qed

section \<open>Two producers and a consumer\<close>


lemma srt_reach_run:
  "srt_reach n st0 st \<Longrightarrow> (\<forall>a\<in>set as. \<forall>t. srt_act_thread a = Some t \<longrightarrow> t < n) \<Longrightarrow> srt_run as st = Inr st' \<Longrightarrow>
    srt_reach n st0 st'"
proof (induction "as" arbitrary: st)
  case Nil
  then show ?case by simp
next
  case (Cons a "as")
  then obtain st1 where "srt_act a st = Inr st1" "srt_run as st1 = Inr st'" by (auto simp: obind_eq_Inr)
  then show ?case using Cons.IH[of st1] Cons.prems srt_reach.act[OF Cons.prems(1), of a st1] by simp
qed

text \<open>A concrete interleaving: thread 0 has reserved index 0 and stops, thread 1 pushes completely.\<close>

definition srt_demo :: "nat srt_action list" where
  "srt_demo = [Call 0 7, Call 1 8, Produce 0 True, Produce 1 False, Produce 0 True, Produce 0 True,
     Produce 1 True, Produce 1 True, Produce 1 True, Produce 1 True, Produce 1 True, Produce 1 True]"

lemma srt_demo_run:
  "case srt_run srt_demo (srt_sys_new 0 1 1) of Inl _ \<Rightarrow> False
   | Inr st \<Rightarrow> sys_prod st 0 = PReserved 7 0 \<and> sys_prod st 1 = PIdle \<and> sys_sent st = [7, 8]"
  by code_simp

lemma srt_demo_reach:
  "\<exists>st. srt_reach 2 (srt_sys_new 0 1 1) st \<and> sys_prod st 0 = PReserved 7 0 \<and> sys_sent st = [7, 8::nat]"
proof -
  obtain st where st: "srt_run srt_demo (srt_sys_new 0 1 1) = Inr st" "sys_prod st 0 = PReserved 7 0" "sys_sent st = [7, 8]"
    using srt_demo_run by (auto split: sum.splits)
  have "\<forall>a\<in>set srt_demo. \<forall>t. srt_act_thread a = Some t \<longrightarrow> t < 2" by (simp add: srt_demo_def)
  from srt_reach_run[OF srt_reach.start this st(1)] st show ?thesis by blast
qed




section \<open>Draining\<close>

text \<open>
  Once no producer is between its \<open>fetch_and_inc\<close> and its store of the flag, every step of
  the consumer brings it closer to having returned everything.
\<close>

fun srt_pop_rank :: "'a srt_consumer \<Rightarrow> int" where
  "srt_pop_rank CIdle = 8"
| "srt_pop_rank CFind = 7"
| "srt_pop_rank CAlloc = 6"
| "srt_pop_rank CFound = 5"
| "srt_pop_rank (CPage a) = 4"
| "srt_pop_rank (CFlagged a) = 3"
| "srt_pop_rank (CRead a m) = 2"
| "srt_pop_rank (CDeleted m) = 1"
| "srt_pop_rank (CTaken m) = 0"

definition srt_drain_measure :: "'a srt_sys \<Rightarrow> int" where
  "srt_drain_measure st = 9 * (sq_post_index (sys_q st) - sq_get_index (sys_q st)) + srt_pop_rank (sys_cons st)"

lemma srt_drain_step:
  assumes inv: "srt_sys_inv n st" and quiet: "\<forall>t. srt_index (sys_prod st t) = None"
    and more: "sq_get_index (sys_q st) < sq_post_index (sys_q st)" and st': "srt_act Consume st = Inr st'"
  shows "srt_drain_measure st' < srt_drain_measure st" "sys_prod st' = sys_prod st" "sys_sent st' = sys_sent st"
proof -
  let ?G = "sq_get_index (sys_q st)"
  note cinv = inv[unfolded srt_sys_inv_def]
  have flag: "sm_flag slot = 1" if "sys_cons st = CPage a" "srt_load a (srt_off (sys_q st) ?G) (sys_q st) = Inr slot" for a slot
  proof -
    have v: "srt_view (sys_cons st) (sys_q st) = sys_q st" using that(1) by (simp add: srt_view_id)
    have a: "srt_entry (sys_q st) ?G = Some a" using srt_cinvD(9)[OF cinv] that(1) v by simp
    have "srt_slot (sys_q st) ?G = Some slot"
      using srt_load_slot[OF _ a] srt_cinvD(1)[OF cinv] that(2) v by auto
    then show ?thesis using srt_cinvD(7)[OF cinv] quiet more that(1) v by (auto simp: srt_delivered_def)
  qed
  show "srt_drain_measure st' < srt_drain_measure st"
  proof (cases "sys_cons st")
    case CAlloc
    then obtain page q' where q': "srt_get_msg_page (srt_pidx (sys_q st) ?G) (sys_q st) = Inr (page, q')"
      "st' = st\<lparr>sys_q := q', sys_cons := CFound, sys_recv := sys_recv st\<rparr>"
      using st' by (auto simp: obind_eq_Inr)
    then show ?thesis using CAlloc srt_sameD(1,2)[OF srt_primitives_same(1)[OF q'(1)]]
      by (simp add: srt_drain_measure_def)
  next
    case (CPage a)
    then obtain slot where slot: "srt_load a (srt_off (sys_q st) ?G) (sys_q st) = Inr slot"
      using st' by (auto simp: obind_eq_Inr)
    then show ?thesis using CPage st' flag[OF CPage slot] by (auto simp: srt_drain_measure_def)
  next
    case CIdle
    then show ?thesis using st' more by (auto simp: obind_eq_Inr srt_drain_measure_def)
  next
    case CFind
    then show ?thesis using st' by (auto simp: obind_eq_Inr srt_drain_measure_def)
  next
    case CFound
    then show ?thesis using st' by (auto simp: srt_drain_measure_def split: option.splits)
  next
    case (CFlagged a)
    then show ?thesis using st' by (auto simp: obind_eq_Inr srt_drain_measure_def)
  next
    case (CRead a m)
    then show ?thesis using st' by (auto simp: srt_drain_measure_def split: if_splits option.splits)
  next
    case (CDeleted m)
    then show ?thesis using st' by (auto simp: srt_drain_measure_def)
  next
    case (CTaken m)
    then show ?thesis using st' by (auto simp: srt_drain_measure_def)
  qed
  show "sys_prod st' = sys_prod st" "sys_sent st' = sys_sent st" using st' by (auto simp: obind_eq_Inr)
qed


lemma srt_demo_done_run:
  "case srt_run (srt_demo @ replicate 5 (Produce 0 True)) (srt_sys_new 0 1 1) of Inl _ \<Rightarrow> False
   | Inr st \<Rightarrow> srt_index (sys_prod st 0) = None \<and> srt_index (sys_prod st 1) = None \<and> sys_sent st = [7, 8]
      \<and> srt_size (sys_q st) = 2"
  by code_simp


section \<open>Three producers\<close>

text \<open>
  Three producers that test for a full queue before any of them increments \<open>post_index_\<close> all
  pass, and \<open>post_index_\<close> runs two past the limit: the last of them reserves an index whose
  slot is that of the oldest message.
\<close>

definition srt_overrun :: "nat srt_action list" where
  "srt_overrun =
    concat (map (\<lambda>t. [Call t (10 + t), Produce t True, Produce t True]) [0, 1, 2])
    @ map (\<lambda>t. Produce t True) [0, 1, 2] @ concat (map (\<lambda>t. replicate 5 (Produce t True)) [0, 1, 2])
    @ replicate 40 Consume"

lemma srt_overrun_run:
  "case srt_run srt_overrun (srt_sys_new 0 0 1) of Inl _ \<Rightarrow> False
   | Inr st \<Rightarrow> sys_sent st = [10, 11, 12] \<and> sys_recv st = [12, 11] \<and> srt_index (sys_prod st 0) = None
      \<and> srt_index (sys_prod st 1) = None \<and> srt_index (sys_prod st 2) = None"
  by code_simp


section \<open>The atomic operations are the uninterrupted runs\<close>

fun srt_push_run :: "bool \<Rightarrow> nat \<Rightarrow> 'a srt_producer \<Rightarrow> 'a srt_queue \<Rightarrow>
    ('a list \<times> 'a srt_producer \<times> 'a srt_queue) outcome" where
  "srt_push_run b 0 p q = Inr ([], p, q)"
| "srt_push_run b (Suc n) p q =
    obind (srt_producer_step b p q) (\<lambda>(new, p', q').
      obind (srt_push_run b n p' q') (\<lambda>(news, p'', q''). Inr (new @ news, p'', q'')))"

text \<open>Run the consumer until it is back at the start of \<open>pop\<close>.\<close>

fun srt_pop_run :: "nat \<Rightarrow> 'a srt_consumer \<Rightarrow> 'a srt_queue \<Rightarrow> ('a list \<times> 'a srt_consumer \<times> 'a srt_queue) outcome" where
  "srt_pop_run 0 c q = Inr ([], c, q)"
| "srt_pop_run (Suc n) c q =
    obind (srt_consumer_step c q) (\<lambda>(out, c', q').
      case c' of
        CIdle \<Rightarrow> Inr (out, CIdle, q')
      | _ \<Rightarrow> obind (srt_pop_run n c' q') (\<lambda>(outs, c'', q''). Inr (out @ outs, c'', q'')))"

lemma srt_get_msg_page_entry:
  "srt_get_msg_page k q = Inr (page, q') \<Longrightarrow> sq_page_indexes q' k = Some page \<and> srt_same q q'"
  by (auto simp: srt_get_msg_page_def srt_alloc_page_def obind_eq_Inr srt_same_def split: option.splits)

lemma srt_push_run_idle: "srt_push_run b n PIdle q = Inr ([], PIdle, q)"
  by (induction n) simp_all

lemma srt_push_run_stores:
  assumes "srt_entry q i = Some page"
  shows "srt_push_run b (Suc (Suc (Suc n))) (PFound m i) q =
    obind (srt_store_msg page (srt_off q i) m q) (\<lambda>q1.
    obind (srt_store_flag page (srt_off q1 i) q1) (\<lambda>q2. Inr ([], PIdle, q2)))"
  using assms by (cases "srt_store_msg page (srt_off q i) m q")
    (auto simp: srt_push_run_idle obind_assoc split: sum.split intro!: arg_cong[where f = "obind _"])

lemma srt_push_run_reserved:
  "srt_push_run b 5 (PReserved m i) q =
    obind (srt_get_msg_page (srt_pidx q i) q) (\<lambda>(page, q1).
    obind (srt_store_msg page (srt_off q1 i) m q1) (\<lambda>q2.
    obind (srt_store_flag page (srt_off q2 i) q2) (\<lambda>q3. Inr ([], PIdle, q3))))"
proof -
  have five: "(5::nat) = Suc (Suc (Suc (Suc (Suc 0))))" by simp
  show ?thesis
  proof (cases "sq_initialized q \<and> 0 \<le> srt_pidx q i \<and> srt_pidx q i < sq_page_index_count q")
    case False
    then show ?thesis by (auto simp: five srt_get_msg_page_def oassert_def)
  next
    case True
    then obtain page q1 where g: "srt_get_msg_page (srt_pidx q i) q = Inr (page, q1)"
      by (cases "srt_entry q i") (auto simp: srt_get_msg_page_def srt_alloc_page_def)
    note e = srt_get_msg_page_entry[OF g]
    have e1: "srt_entry q1 i = Some page" using e srt_sameD(9)[of q q1] by simp
    show ?thesis
    proof (cases "srt_entry q i")
      case None
      then show ?thesis using True g srt_push_run_stores[OF e1, of b 0 m]
        by (simp add: five del: srt_producer_step.simps(8))
    next
      case (Some a)
      then have "q1 = q" "a = page" using g True by (simp_all add: srt_get_msg_page_def)
      then show ?thesis using True g Some srt_push_run_stores[OF e1, of b 1 m]
        by (simp add: five del: srt_producer_step.simps(8))
    qed
  qed
qed

lemma srt_push_run_step:
  "srt_producer_step b p q = Inr ([], p', q') \<Longrightarrow> srt_push_run b (Suc n) p q = srt_push_run b n p' q'"
  by simp

lemma srt_push_run_push:
  "srt_push_run b 8 (PCall m) q =
    obind (srt_push m q) (\<lambda>(ok, q'). Inr (if ok then [m] else [], PIdle, q'))"
proof (cases "sq_initialized q")
  case False
  then show ?thesis by (simp add: eval_nat_numeral srt_push_def)
next
  case init: True
  let ?p = "if b then PHasPost m (sq_post_index q) else PHasGet m (sq_get_index q)"
  let ?p' = "if srt_full q (sq_post_index q) (sq_get_index q) then PIdle else PTicket m (sq_post_index q)"
  let ?q1 = "q\<lparr>sq_post_index := sq_post_index q + 1\<rparr>"
  have "srt_push_run b 8 (PCall m) q = srt_push_run b (Suc (Suc (Suc 5))) (PCall m) q" by simp
  also have "\<dots> = srt_push_run b (Suc (Suc 5)) ?p q"
    by (rule srt_push_run_step) (simp add: init)
  also have "\<dots> = srt_push_run b (Suc 5) ?p' q"
    by (rule srt_push_run_step) simp
  also have "\<dots> = obind (srt_push m q) (\<lambda>(ok, q'). Inr (if ok then [m] else [], PIdle, q'))"
  proof (cases "srt_full q (sq_post_index q) (sq_get_index q)")
    case True
    then show ?thesis using init by (simp only: srt_push_run_idle if_True) (simp add: srt_push_def)
  next
    case False
    have "srt_push_run b (Suc 5) (PTicket m (sq_post_index q)) q =
        obind (srt_push_run b 5 (PReserved m (sq_post_index q)) ?q1) (\<lambda>(news, p, q'). Inr (m # news, p, q'))"
      by (simp only: srt_push_run.simps(2) srt_producer_step.simps obind.simps prod.case append.simps)
    then show ?thesis
      using init False by (simp only: srt_push_run_reserved if_False)
        (simp add: srt_push_def obind_assoc case_prod_unfold Let_def)
  qed
  finally show ?thesis .
qed

lemma srt_pop_run_step:
  "srt_consumer_step c q = Inr ([], c', q') \<Longrightarrow> c' \<noteq> CIdle \<Longrightarrow> srt_pop_run (Suc n) c q = srt_pop_run n c' q'"
  by (cases c') simp_all

lemma srt_pop_run_last:
  "srt_consumer_step c q = Inr (out, CIdle, q') \<Longrightarrow> srt_pop_run (Suc n) c q = Inr (out, CIdle, q')"
  by simp

lemma srt_pop_run_fault: "srt_consumer_step c q = Inl e \<Longrightarrow> srt_pop_run (Suc n) c q = Inl e"
  by simp

text \<open>From the page on, the run reads the slot and frees the page as \<open>pop\<close> does.\<close>

lemma srt_pop_run_page:
  "srt_pop_run (Suc (Suc (Suc (Suc (Suc n))))) (CPage page) q =
    obind (srt_load page (srt_off q (sq_get_index q)) q) (\<lambda>slot.
      if sm_flag slot = 1 then
        obind (if srt_off q (sq_get_index q) = sq_page_msg_mask q
               then srt_free_page page (srt_pidx q (sq_get_index q)) q else Inr q) (\<lambda>q2.
          Inr ([sm_msg slot], CIdle, q2\<lparr>sq_get_index := sq_get_index q2 + 1\<rparr>))
      else Inr ([], CIdle, q))"
proof (cases "srt_load page (srt_off q (sq_get_index q)) q")
  case (Inl e)
  then show ?thesis by simp
next
  case (Inr slot)
  show ?thesis
  proof (cases "sm_flag slot = 1")
    case False
    then show ?thesis using Inr by simp
  next
    case flag: True
    have pidx: "srt_pidx (q\<lparr>sq_heap := h\<rparr>) = srt_pidx q" for h by (simp add: srt_pidx_def fun_eq_iff)
    have "srt_pop_run (Suc (Suc (Suc (Suc (Suc n))))) (CPage page) q
        = srt_pop_run (Suc (Suc (Suc n))) (CRead page (sm_msg slot)) q"
      using Inr flag by (simp add: srt_pop_run_step del: srt_pop_run.simps)
    also have "\<dots> = obind (if srt_off q (sq_get_index q) = sq_page_msg_mask q
               then srt_free_page page (srt_pidx q (sq_get_index q)) q else Inr q) (\<lambda>q2.
          Inr ([sm_msg slot], CIdle, q2\<lparr>sq_get_index := sq_get_index q2 + 1\<rparr>))"
      by (cases "sq_heap q page") (simp_all add: srt_free_page_def pidx)
    finally show ?thesis using Inr flag by simp
  qed
qed

lemma srt_pop_run_find:
  assumes "sq_initialized q" "sq_get_index q < sq_post_index q"
    and g: "srt_get_msg_page (srt_pidx q (sq_get_index q)) q = Inr (page, q1)"
  shows "\<exists>n. srt_pop_run 9 CIdle q = srt_pop_run (Suc (Suc (Suc (Suc (Suc n))))) (CPage page) q1"
proof -
  let ?k = "srt_pidx q (sq_get_index q)"
  have nine: "(9::nat) = Suc (Suc (Suc (Suc (Suc (Suc (Suc (Suc (Suc 0))))))))" by simp
  have rng: "0 \<le> ?k" "?k < sq_page_index_count q"
    using g by (auto simp: srt_get_msg_page_def obind_eq_Inr oassert_def split: if_splits)
  note e = srt_get_msg_page_entry[OF g]
  note d = srt_sameD[OF conjunct2[OF e]]
  show ?thesis
  proof (cases "sq_page_indexes q ?k")
    case None
    have "srt_pop_run 9 CIdle q = srt_pop_run (Suc (Suc (Suc (Suc (Suc 0))))) (CPage page) q1"
      using assms rng g None e by (simp add: nine srt_pop_run_step d del: srt_pop_run.simps)
    then show ?thesis by blast
  next
    case (Some a)
    then have "a = page" "q1 = q" using assms rng by (simp_all add: srt_get_msg_page_def)
    then have "srt_pop_run 9 CIdle q = srt_pop_run (Suc (Suc (Suc (Suc (Suc (Suc 0)))))) (CPage page) q1"
      using assms rng Some by (simp add: nine srt_pop_run_step del: srt_pop_run.simps)
    then show ?thesis by blast
  qed
qed

lemma srt_pop_found:
  assumes "sq_initialized q" "sq_get_index q < sq_post_index q"
    and g: "srt_get_msg_page (srt_pidx q (sq_get_index q)) q = Inr (page, q1)"
  shows "srt_pop q = obind (srt_load page (srt_off q1 (sq_get_index q1)) q1) (\<lambda>slot.
      if sm_flag slot = 1 then
        obind (if srt_off q1 (sq_get_index q1) = sq_page_msg_mask q1
               then srt_free_page page (srt_pidx q1 (sq_get_index q1)) q1 else Inr q1) (\<lambda>q2.
          Inr (Some (sm_msg slot), q2\<lparr>sq_get_index := sq_get_index q2 + 1\<rparr>))
      else Inr (None, q1))"
proof -
  note d = srt_sameD[OF conjunct2[OF srt_get_msg_page_entry[OF g]]]
  show ?thesis unfolding d using assms by (simp add: srt_pop_def Let_def d cong: if_cong)
qed

lemma srt_pop_run_pop:
  "srt_pop_run 9 CIdle q =
    obind (srt_pop q) (\<lambda>(r, q'). Inr (case r of None \<Rightarrow> [] | Some m \<Rightarrow> [m], CIdle, q'))"
proof (cases "sq_initialized q \<and> sq_get_index q < sq_post_index q")
  case False
  have nine: "(9::nat) = Suc (Suc (Suc (Suc (Suc (Suc (Suc (Suc (Suc 0))))))))" by simp
  from False show ?thesis by (auto simp: nine srt_pop_def oassert_def)
next
  case go: True
  show ?thesis
  proof (cases "srt_get_msg_page (srt_pidx q (sq_get_index q)) q")
    case (Inl e)
    have nine: "(9::nat) = Suc (Suc (Suc (Suc (Suc (Suc (Suc (Suc (Suc 0))))))))" by simp
    from Inl go have "\<not> (0 \<le> srt_pidx q (sq_get_index q) \<and> srt_pidx q (sq_get_index q) < sq_page_index_count q)"
      "e = AssertFail"
      by (auto simp: srt_get_msg_page_def oassert_def split: if_splits option.splits)
    then show ?thesis using go Inl by (auto simp: nine srt_pop_def oassert_def)
  next
    case (Inr r)
    then obtain page q1 where g: "srt_get_msg_page (srt_pidx q (sq_get_index q)) q = Inr (page, q1)"
      by (cases r) simp
    obtain n where n: "srt_pop_run 9 CIdle q = srt_pop_run (Suc (Suc (Suc (Suc (Suc n))))) (CPage page) q1"
      using srt_pop_run_find[OF _ _ g] go by blast
    show ?thesis
      unfolding n srt_pop_run_page srt_pop_found[OF conjunct1[OF go] conjunct2[OF go] g]
      by (cases "srt_load page (srt_off q1 (sq_get_index q1)) q1") (simp_all add: obind_assoc)
  qed
qed

text \<open>
  A \<open>push\<close> whose steps are not interleaved with any other thread is the atomic \<open>push\<close>, in
  every case: success, full queue, and every fault; and the same holds for \<open>pop\<close>.
\<close>

lemma srt_atomic_runs:
  "srt_push_run b 8 (PCall m) q = obind (srt_push m q) (\<lambda>(ok, q'). Inr (if ok then [m] else [], PIdle, q'))
   \<and> srt_pop_run 9 CIdle q = obind (srt_pop q) (\<lambda>(r, q'). Inr (case r of None \<Rightarrow> [] | Some x \<Rightarrow> [x], CIdle, q'))"
  by (rule conjI[OF srt_push_run_push srt_pop_run_pop])

end
