(* ===== verification/Drb_Queue.thy ===== *)
theory Drb_Queue
  imports Prelude
begin

text \<open>
  \<open>drb_queue\<close> (base/src/mqueue.h): the queue that never removes a message.  Pages of
  \<open>page_msg_count_\<close> slots are reached through a table that is replaced by a larger one when a
  page number does not fit; the old table is not freed.  Indices and sizes of type \<open>bint64\<close> are
  integers (they stay far below \<open>2 ^ 63\<close>).  Operations run without interference here.
\<close>

record 'a drb_message =
  dm_msg :: 'a
  dm_flag :: "16 word"

record 'a drb_queue =
  dq_initialized :: bool
  dq_page_indexes :: "int \<Rightarrow> nat option"
  dq_heap :: "nat \<Rightarrow> (nat \<Rightarrow> 'a drb_message) option"
  dq_next :: nat
  dq_tables :: int \<comment> \<open>tables allocated and not freed\<close>
  dq_post_index :: int
  dq_write_index :: int
  dq_page_index_count :: int
  dq_page_msg_count :: int
  dq_page_msg_mask :: int
  dq_page_msg_bits :: nat
  dq_zero :: 'a

text \<open>The loop of the constructor; \<open>int(1) << 31\<close> does not fit an \<open>int\<close>.\<close>

function drb_bits :: "int \<Rightarrow> nat \<Rightarrow> nat outcome" where
  "drb_bits page_msg_count bits =
    (if bits > 30 then Inl ShiftOverflow
     else if push_bit bits 1 < page_msg_count then drb_bits page_msg_count (Suc bits)
     else Inr bits)"
  by pat_completeness auto
termination by (relation "measure (\<lambda>(c, b). 31 - b)") auto

declare drb_bits.simps [simp del]

definition drb_new :: "'a \<Rightarrow> int \<Rightarrow> int \<Rightarrow> 'a drb_queue outcome" where
  "drb_new zero page_msg_count init_page_msg_count =
    obind (drb_bits page_msg_count 1) (\<lambda>bits.
      Inr \<lparr>dq_initialized = False, dq_page_indexes = (\<lambda>_. None), dq_heap = (\<lambda>_. None), dq_next = 0,
           dq_tables = 0, dq_post_index = 0, dq_write_index = 0, dq_page_index_count = init_page_msg_count,
           dq_page_msg_count = push_bit bits 1, dq_page_msg_mask = push_bit bits 1 - 1,
           dq_page_msg_bits = bits, dq_zero = zero\<rparr>)"

definition drb_alloc_page :: "int \<Rightarrow> 'a drb_queue \<Rightarrow> 'a drb_queue" where
  "drb_alloc_page page_index q =
    q\<lparr>dq_heap := (dq_heap q)(dq_next q \<mapsto> (\<lambda>_. \<lparr>dm_msg = dq_zero q, dm_flag = 0\<rparr>)),
      dq_page_indexes := (dq_page_indexes q)(page_index \<mapsto> dq_next q),
      dq_next := Suc (dq_next q)\<rparr>"

definition drb_init :: "'a drb_queue \<Rightarrow> (bool \<times> 'a drb_queue) outcome" where
  "drb_init q =
    (if dq_initialized q then Inr (True, q)
     else obind (oassert BadAlloc (0 \<le> dq_page_index_count q)) (\<lambda>_.
          obind (oassert OutOfBounds (0 < dq_page_index_count q)) (\<lambda>_.
            Inr (True, (drb_alloc_page 0 (q\<lparr>dq_page_indexes := (\<lambda>_. None), dq_tables := dq_tables q + 1\<rparr>))
                         \<lparr>dq_initialized := True\<rparr>))))"

text \<open>
  The loop that looks for the size of the new table, \<open>while (page_index > extend_size)
  extend_size <<= 1\<close>; from zero it never ends.
\<close>

partial_function (option) drb_extend :: "int \<Rightarrow> int \<Rightarrow> int option" where
  "drb_extend page_index extend_size =
    (if page_index > extend_size then drb_extend page_index (push_bit 1 extend_size) else Some extend_size)"

declare drb_extend.simps [code]

definition drb_get_msg_page :: "int \<Rightarrow> 'a drb_queue \<Rightarrow> (nat \<times> 'a drb_queue) outcome" where
  "drb_get_msg_page page_index q =
    obind (oassert AssertFail (dq_initialized q)) (\<lambda>_.
    obind (if page_index \<ge> dq_page_index_count q then
             (case drb_extend page_index (push_bit 1 (dq_page_index_count q)) of
                None \<Rightarrow> Inl Diverges
              | Some extend_size \<Rightarrow>
                  Inr (q\<lparr>dq_page_indexes := (\<lambda>k. if k < dq_page_index_count q then dq_page_indexes q k else None),
                         dq_page_index_count := extend_size, dq_tables := dq_tables q + 1\<rparr>))
           else Inr q) (\<lambda>q1.
    obind (oassert OutOfBounds (0 \<le> page_index \<and> page_index < dq_page_index_count q1)) (\<lambda>_.
      case dq_page_indexes q1 page_index of
        Some page \<Rightarrow> Inr (page, q1)
      | None \<Rightarrow> Inr (dq_next q1, drb_alloc_page page_index q1))))"

definition drb_page :: "'a drb_queue \<Rightarrow> nat \<Rightarrow> int \<Rightarrow> (nat \<Rightarrow> 'a drb_message) outcome" where
  "drb_page q page off =
    (case dq_heap q page of
       None \<Rightarrow> Inl UseAfterFree
     | Some slots \<Rightarrow> obind (oassert OutOfBounds (0 \<le> off \<and> off < dq_page_msg_count q)) (\<lambda>_. Inr slots))"

definition drb_push :: "'a \<Rightarrow> 'a drb_queue \<Rightarrow> (bool \<times> 'a drb_queue) outcome" where
  "drb_push msg q =
    obind (oassert AssertFail (dq_initialized q)) (\<lambda>_.
      let post_index = dq_post_index q;
          q1 = q\<lparr>dq_post_index := dq_post_index q + 1\<rparr>
      in obind (drb_get_msg_page (drop_bit (dq_page_msg_bits q1) post_index) q1) (\<lambda>(page, q2).
         let off = post_index AND dq_page_msg_mask q2 in
         obind (drb_page q2 page off) (\<lambda>slots.
           let q3 = q2\<lparr>dq_heap := (dq_heap q2)(page \<mapsto> slots(nat off := (slots (nat off))\<lparr>dm_msg := msg\<rparr>))\<rparr> in
         obind (drb_page q3 page off) (\<lambda>slots.
           let q4 = q3\<lparr>dq_heap := (dq_heap q3)(page \<mapsto> slots(nat off := (slots (nat off))\<lparr>dm_flag := 1\<rparr>))\<rparr> in
         Inr (True, q4\<lparr>dq_write_index := dq_write_index q4 + 1\<rparr>)))))"

definition drb_get :: "int \<Rightarrow> 'a drb_queue \<Rightarrow> ('a option \<times> 'a drb_queue) outcome" where
  "drb_get pos q =
    obind (oassert AssertFail (dq_initialized q)) (\<lambda>_.
      if dq_write_index q \<le> pos then Inr (None, q)
      else obind (drb_get_msg_page (drop_bit (dq_page_msg_bits q) pos) q) (\<lambda>(page, q1).
           let off = pos AND dq_page_msg_mask q1 in
           obind (drb_page q1 page off) (\<lambda>slots.
             Inr (if dm_flag (slots (nat off)) = 1 then Some (dm_msg (slots (nat off))) else None, q1))))"

definition drb_size :: "'a drb_queue \<Rightarrow> int" where
  "drb_size q = dq_write_index q"

function drb_release_loop :: "int \<Rightarrow> 'a drb_queue \<Rightarrow> 'a drb_queue outcome" where
  "drb_release_loop i q =
    (if i < dq_page_index_count q then
       (case dq_page_indexes q i of
          None \<Rightarrow> drb_release_loop (i + 1) q
        | Some page \<Rightarrow> (case dq_heap q page of
            None \<Rightarrow> Inl UseAfterFree
          | Some slots \<Rightarrow> drb_release_loop (i + 1)
              (q\<lparr>dq_heap := (dq_heap q)(page := None), dq_page_indexes := (dq_page_indexes q)(i := None)\<rparr>)))
     else Inr q)"
  by pat_completeness auto
termination
  by (relation "measure (\<lambda>(i, q). nat (dq_page_index_count q - i))") auto

declare drb_release_loop.simps [simp del]

definition drb_release :: "'a drb_queue \<Rightarrow> (bool \<times> 'a drb_queue) outcome" where
  "drb_release q =
    obind (if dq_tables q = 0 then Inr q
           else obind (drb_release_loop 0 q) (\<lambda>q'. Inr (q'\<lparr>dq_tables := dq_tables q' - 1\<rparr>)))
      (\<lambda>q'. Inr (True, q'\<lparr>dq_initialized := False\<rparr>))"

section \<open>The size of the new table\<close>

lemma drb_bits_ok:
  assumes "c \<le> 2 ^ 30" "1 \<le> b" "b \<le> 30"
  shows "\<exists>bits. drb_bits c b = Inr bits \<and> b \<le> bits \<and> bits \<le> 30 \<and> c \<le> 2 ^ bits"
  using assms
proof (induction c b rule: drb_bits.induct)
  case (1 c b)
  show ?case
  proof (cases "2 ^ b < c")
    case True
    have "b < 30"
    proof (rule ccontr)
      assume "\<not> b < 30"
      with 1(4) have "b = 30" by simp
      with True 1(2) show False by simp
    qed
    moreover have "\<not> b > 30" "push_bit b 1 < c" using 1(4) True by (simp_all add: push_bit_eq_mult)
    ultimately obtain bits where "drb_bits c (Suc b) = Inr bits" "Suc b \<le> bits" "bits \<le> 30" "c \<le> 2 ^ bits"
      using 1(1)[OF _ _ 1(2)] by auto
    with \<open>\<not> b > 30\<close> \<open>push_bit b 1 < c\<close> show ?thesis by (simp add: drb_bits.simps[of c b])
  next
    case False
    with 1(4) show ?thesis by (simp add: drb_bits.simps[of c b] push_bit_eq_mult)
  qed
qed

text \<open>From a positive size the loop ends, at the first \<open>s * 2 ^ k\<close> that is not below the page number.\<close>

lemma drb_extend_value:
  assumes "p \<le> s * 2 ^ k" "\<forall>j<k. s * 2 ^ j < p"
  shows "drb_extend p s = Some (s * 2 ^ k)"
  using assms
proof (induction k arbitrary: s)
  case 0
  then show ?case by (simp add: drb_extend.simps[of p s])
next
  case (Suc k)
  have "s < p" using Suc.prems(2)[rule_format, of 0] by simp
  moreover have "drb_extend p (s * 2) = Some (s * 2 * 2 ^ k)"
    by (rule Suc.IH) (use Suc.prems in \<open>auto simp: algebra_simps dest: spec[of _ "Suc _"]\<close>)
  ultimately show ?case by (simp add: drb_extend.simps[of p s] push_bit_eq_mult algebra_simps)
qed

lemma drb_extend_total:
  assumes "0 < s"
  shows "\<exists>k. drb_extend p s = Some (s * 2 ^ k) \<and> p \<le> s * 2 ^ k \<and> (\<forall>j<k. s * 2 ^ j < p)"
proof -
  have "p \<le> s * 2 ^ nat p"
  proof (cases "p \<le> 0")
    case True
    have "0 \<le> s * 2 ^ nat p" using assms by simp
    with True show ?thesis by linarith
  next
    case False
    then have "p = int (nat p)" by simp
    also have "\<dots> \<le> int (2 ^ nat p)" using less_exp[of "nat p"] by (simp only: of_nat_le_iff)
    also have "\<dots> = 2 ^ nat p" by simp
    also have "\<dots> \<le> s * 2 ^ nat p" using assms by (simp add: mult_le_cancel_right1)
    finally show ?thesis .
  qed
  then obtain k where k: "p \<le> s * 2 ^ k" "\<forall>j<k. \<not> p \<le> s * 2 ^ j"
    using exists_least_iff[of "\<lambda>k. p \<le> s * 2 ^ k"] by blast
  then have "\<forall>j<k. s * 2 ^ j < p" by auto
  with k(1) drb_extend_value[OF k(1) this] show ?thesis by blast
qed

lemma drb_extend_from_zero:
  assumes "drb_extend p s = Some r"
  shows "s = 0 \<longrightarrow> p \<le> 0"
proof (rule drb_extend.raw_induct[where P = "\<lambda>p s r. s = 0 \<longrightarrow> p \<le> 0", OF _ assms], intro impI)
  fix f p s y
  assume IH: "\<And>p s y. f p s = Some y \<Longrightarrow> s = 0 \<longrightarrow> p \<le> (0::int)"
    and eq: "(if s < p then f p (push_bit 1 s) else Some s) = Some y" and s: "s = (0::int)"
  show "p \<le> 0" using eq IH[of p 0] s by (cases "0 < p") auto
qed

text \<open>
  Page number \<open>p\<close> is beyond a table of \<open>c\<close> entries.  The access after the extension is in
  bounds unless the loop stopped with the new size equal to the page number.
\<close>

definition drb_misfit :: "int \<Rightarrow> int \<Rightarrow> bool" where
  "drb_misfit c p \<longleftrightarrow> (\<exists>k\<ge>1. p = c * 2 ^ k)"

lemma drb_extend_fits:
  assumes "0 < c" "c \<le> p"
  shows "\<exists>e. drb_extend p (push_bit 1 c) = Some e \<and> p \<le> e \<and> c < e \<and> (p = e \<longleftrightarrow> drb_misfit c p)"
proof -
  have two: "push_bit 1 c = c * 2" by (simp add: push_bit_eq_mult)
  obtain k where k: "drb_extend p (c * 2) = Some (c * 2 * 2 ^ k)" "p \<le> c * 2 * 2 ^ k" "\<forall>j<k. c * 2 * 2 ^ j < p"
    using drb_extend_total[of "c * 2" p] assms(1) by auto
  have gt: "c < c * 2 * 2 ^ k" proof -
    have "1 \<le> (2::int) ^ k" by simp
    then have "1 < 2 * (2::int) ^ k" by linarith
    then show ?thesis using assms(1) by (simp add: mult.assoc mult_less_cancel_left1)
  qed
  have "p = c * 2 * 2 ^ k \<longleftrightarrow> drb_misfit c p"
  proof
    assume "p = c * 2 * 2 ^ k"
    then show "drb_misfit c p" unfolding drb_misfit_def by (intro exI[of _ "Suc k"]) simp
  next
    assume "drb_misfit c p"
    then obtain j where j: "1 \<le> j" "p = c * 2 ^ j" by (auto simp: drb_misfit_def)
    then obtain i where i: "j = Suc i" by (cases j) auto
    then have p: "p = c * 2 * 2 ^ i" using j(2) by simp
    have "\<not> i < k" using k(3) p by auto
    moreover have "i \<le> k" using k(2) p assms(1) by (simp add: mult_le_cancel_left_pos)
    ultimately show "p = c * 2 * 2 ^ k" using p by simp
  qed
  with k gt two show ?thesis by auto
qed

section \<open>Without interference the queue is a growing list\<close>

definition drb_slot :: "'a drb_queue \<Rightarrow> int \<Rightarrow> 'a drb_message option" where
  "drb_slot q i =
    (case dq_page_indexes q (i div dq_page_msg_count q) of
       None \<Rightarrow> None
     | Some page \<Rightarrow> map_option (\<lambda>slots. slots (nat (i mod dq_page_msg_count q))) (dq_heap q page))"

definition drb_tables :: "'a drb_queue \<Rightarrow> bool" where
  "drb_tables q \<longleftrightarrow> dq_initialized q \<and> 0 < dq_page_index_count q
     \<and> dq_page_msg_count q = 2 ^ dq_page_msg_bits q \<and> dq_page_msg_mask q = 2 ^ dq_page_msg_bits q - 1
     \<and> (\<forall>k a. dq_page_indexes q k = Some a \<longrightarrow> 0 \<le> k \<and> k < dq_page_index_count q \<and> dq_heap q a \<noteq> None)
     \<and> (\<forall>k k' a. dq_page_indexes q k = Some a \<and> dq_page_indexes q k' = Some a \<longrightarrow> k = k')
     \<and> (\<forall>a. dq_heap q a \<noteq> None \<longrightarrow> a < dq_next q \<and> (\<exists>k. dq_page_indexes q k = Some a))"

definition drb_inv :: "'a drb_queue \<Rightarrow> bool" where
  "drb_inv q \<longleftrightarrow> drb_tables q \<and> 0 \<le> dq_post_index q \<and> dq_write_index q = dq_post_index q
     \<and> dq_post_index q \<le> dq_page_index_count q * dq_page_msg_count q
     \<and> (\<forall>i. 0 \<le> i \<and> i < dq_post_index q \<longrightarrow> (\<exists>m. drb_slot q i = Some \<lparr>dm_msg = m, dm_flag = 1\<rparr>))"

definition drb_contents :: "'a drb_queue \<Rightarrow> 'a list" where
  "drb_contents q = map (\<lambda>i. dm_msg (the (drb_slot q i))) [0..dq_post_index q - 1]"

lemma drb_coords:
  assumes "drb_tables q"
  shows "drop_bit (dq_page_msg_bits q) i = i div dq_page_msg_count q"
    "i AND dq_page_msg_mask q = i mod dq_page_msg_count q" "0 < dq_page_msg_count q"
  using assms by (simp_all add: drb_tables_def drop_bit_eq_div take_bit_eq_mod[symmetric] take_bit_eq_mask
      mask_eq_exp_minus_1)

lemma drb_tablesD:
  assumes "drb_tables q"
  shows "\<And>k a. dq_page_indexes q k = Some a \<Longrightarrow> 0 \<le> k \<and> k < dq_page_index_count q \<and> (\<exists>slots. dq_heap q a = Some slots)"
    "\<And>k k' a. dq_page_indexes q k = Some a \<Longrightarrow> dq_page_indexes q k' = Some a \<Longrightarrow> k = k'"
    "\<And>a slots. dq_heap q a = Some slots \<Longrightarrow> a < dq_next q \<and> (\<exists>k. dq_page_indexes q k = Some a)"
    "dq_initialized q" "0 < dq_page_index_count q"
  using assms unfolding drb_tables_def by blast+

text \<open>The page table after the extension, if one is needed.\<close>

lemma drb_grow:
  assumes t: "drb_tables q" and e: "dq_page_index_count q \<le> e"
    and q1: "q1 = q\<lparr>dq_page_indexes := (\<lambda>k. if k < dq_page_index_count q then dq_page_indexes q k else None),
                  dq_page_index_count := e, dq_tables := dq_tables q + 1\<rparr>"
  shows "drb_tables q1" "drb_slot q1 = drb_slot q" "dq_page_indexes q1 = dq_page_indexes q"
proof -
  show pi: "dq_page_indexes q1 = dq_page_indexes q"
  proof
    fix k
    show "dq_page_indexes q1 k = dq_page_indexes q k"
      using drb_tablesD(1)[OF t, of k] by (cases "dq_page_indexes q k") (auto simp: q1)
  qed
  then show "drb_slot q1 = drb_slot q" by (simp add: drb_slot_def fun_eq_iff q1 split: option.split)
  show "drb_tables q1" using t e unfolding drb_tables_def pi by (auto simp: q1 intro: less_le_trans)
qed

lemma drb_alloc_ok:
  assumes t: "drb_tables q" and k: "0 \<le> k" "k < dq_page_index_count q" and None: "dq_page_indexes q k = None"
  shows "drb_tables (drb_alloc_page k q)"
    "drb_slot (drb_alloc_page k q) j =
      (if j div dq_page_msg_count q = k then Some \<lparr>dm_msg = dq_zero q, dm_flag = 0\<rparr> else drb_slot q j)"
proof -
  have new: "dq_heap q (dq_next q) = None" using drb_tablesD(3)[OF t, of "dq_next q"] by fastforce
  then have unused: "dq_page_indexes q k' \<noteq> Some (dq_next q)" for k'
    using drb_tablesD(1)[OF t, of k' "dq_next q"] by auto
  show "drb_tables (drb_alloc_page k q)"
    unfolding drb_tables_def
  proof (intro conjI allI impI)
    fix k' a assume "dq_page_indexes (drb_alloc_page k q) k' = Some a"
    then show "0 \<le> k'" "k' < dq_page_index_count (drb_alloc_page k q)" "dq_heap (drb_alloc_page k q) a \<noteq> None"
      using drb_tablesD(1)[OF t, of k' a] k by (auto simp: drb_alloc_page_def split: if_splits)
  next
    fix k1 k2 a
    assume "dq_page_indexes (drb_alloc_page k q) k1 = Some a \<and> dq_page_indexes (drb_alloc_page k q) k2 = Some a"
    then show "k1 = k2"
      using drb_tablesD(2)[OF t, of k1 a k2] unused by (auto simp: drb_alloc_page_def split: if_splits)
  next
    fix a assume h: "dq_heap (drb_alloc_page k q) a \<noteq> None"
    then show "a < dq_next (drb_alloc_page k q)"
      using drb_tablesD(3)[OF t, of a] by (fastforce simp: drb_alloc_page_def split: if_splits)
    show "\<exists>k'. dq_page_indexes (drb_alloc_page k q) k' = Some a"
    proof (cases "a = dq_next q")
      case True
      then show ?thesis by (auto simp: drb_alloc_page_def)
    next
      case False
      with h obtain k' where "dq_page_indexes q k' = Some a"
        using drb_tablesD(3)[OF t, of a] by (auto simp: drb_alloc_page_def)
      moreover from this None have "k' \<noteq> k" by auto
      ultimately show ?thesis by (auto simp: drb_alloc_page_def)
    qed
  qed (use t in \<open>simp_all add: drb_alloc_page_def drb_tables_def\<close>)
  show "drb_slot (drb_alloc_page k q) j =
      (if j div dq_page_msg_count q = k then Some \<lparr>dm_msg = dq_zero q, dm_flag = 0\<rparr> else drb_slot q j)"
    using unused[of "j div dq_page_msg_count q"]
    by (auto simp: drb_slot_def drb_alloc_page_def split: option.split)
qed

text \<open>A page number that is at most the size of the table.\<close>

lemma drb_get_page_ok:
  assumes t: "drb_tables q" and k: "0 \<le> k" "k \<le> dq_page_index_count q"
  shows "\<exists>page q'. drb_get_msg_page k q = Inr (page, q') \<and> drb_tables q' \<and> dq_page_indexes q' k = Some page
    \<and> dq_page_index_count q \<le> dq_page_index_count q' \<and> k < dq_page_index_count q'
    \<and> dq_post_index q' = dq_post_index q \<and> dq_write_index q' = dq_write_index q
    \<and> dq_page_msg_count q' = dq_page_msg_count q
    \<and> (\<forall>j. drb_slot q' j = (if dq_page_indexes q k = None \<and> j div dq_page_msg_count q = k
         then Some \<lparr>dm_msg = dq_zero q, dm_flag = 0\<rparr> else drb_slot q j))"
proof -
  let ?c = "dq_page_index_count q"
  let ?q1 = "if ?c \<le> k then q\<lparr>dq_page_indexes := (\<lambda>k. if k < ?c then dq_page_indexes q k else None),
                  dq_page_index_count := ?c * 2, dq_tables := dq_tables q + 1\<rparr> else q"
  have c: "0 < ?c" "dq_initialized q" using drb_tablesD[OF t] by auto
  have ext: "drb_extend k (push_bit 1 ?c) = Some (?c * 2)" if "?c \<le> k"
    using drb_extend_value[of k "?c * 2" 0] that k c by (simp add: push_bit_eq_mult)
  define q1 where "q1 = ?q1"
  have g: "drb_tables q1" "drb_slot q1 = drb_slot q" "dq_page_indexes q1 = dq_page_indexes q"
    using drb_grow[OF t, of "?c * 2"] t c by (auto simp: q1_def)
  have d: "?c \<le> dq_page_index_count q1" "k < dq_page_index_count q1" "dq_post_index q1 = dq_post_index q"
    "dq_write_index q1 = dq_write_index q" "dq_page_msg_count q1 = dq_page_msg_count q" "dq_zero q1 = dq_zero q"
    using k c by (auto simp: q1_def)
  have get: "drb_get_msg_page k q = (case dq_page_indexes q1 k of
        Some page \<Rightarrow> Inr (page, q1) | None \<Rightarrow> Inr (dq_next q1, drb_alloc_page k q1))"
    using c ext k d(2) unfolding q1_def
    by (cases "?c \<le> k") (simp_all add: drb_get_msg_page_def cong: option.case_cong)
  show ?thesis
  proof (cases "dq_page_indexes q k")
    case (Some page)
    then show ?thesis using get g d by auto
  next
    case None
    let ?q2 = "drb_alloc_page k q1"
    have None1: "dq_page_indexes q1 k = None" using None g(3) by simp
    note al = drb_alloc_ok[OF g(1) k(1) d(2) None1]
    have f: "dq_page_index_count ?q2 = dq_page_index_count q1" "dq_post_index ?q2 = dq_post_index q1"
      "dq_write_index ?q2 = dq_write_index q1" "dq_page_msg_count ?q2 = dq_page_msg_count q1"
      "dq_page_indexes ?q2 k = Some (dq_next q1)"
      by (simp_all add: drb_alloc_page_def)
    show ?thesis
      using get None g d f al by (intro exI[of _ "dq_next q1"] exI[of _ ?q2]) simp
  qed
qed

text \<open>A write to a page in the table changes the one slot.\<close>

lemma drb_write_ok:
  assumes t: "drb_tables q" and pg: "dq_page_indexes q (i div dq_page_msg_count q) = Some page"
    and hp: "dq_heap q page = Some slots"
    and q': "q' = q\<lparr>dq_heap := (dq_heap q)(page \<mapsto> slots(nat (i mod dq_page_msg_count q) := v))\<rparr>"
  shows "drb_tables q'" "\<And>j. drb_slot q' j = (if j = i then Some v else drb_slot q j)"
proof -
  show "drb_tables q'" using t hp by (auto simp: drb_tables_def q')
  fix j
  have P: "0 < dq_page_msg_count q" by (rule drb_coords(3)[OF t])
  have inj: "dq_page_indexes q (j div dq_page_msg_count q) = Some page \<longleftrightarrow>
      j div dq_page_msg_count q = i div dq_page_msg_count q"
    using drb_tablesD(2)[OF t _ pg] pg by metis
  have off: "nat (j mod dq_page_msg_count q) = nat (i mod dq_page_msg_count q) \<longleftrightarrow>
      j mod dq_page_msg_count q = i mod dq_page_msg_count q"
    using P by (metis eq_nat_nat_iff pos_mod_sign)
  have eq: "j = i \<longleftrightarrow> j div dq_page_msg_count q = i div dq_page_msg_count q
      \<and> j mod dq_page_msg_count q = i mod dq_page_msg_count q"
    by (metis div_mult_mod_eq)
  show "drb_slot q' j = (if j = i then Some v else drb_slot q j)"
    unfolding eq using inj off hp pg by (auto simp: drb_slot_def q' split: option.split)
qed

lemma drb_page_ok:
  assumes t: "drb_tables q" and pg: "dq_page_indexes q (i div dq_page_msg_count q) = Some page"
  shows "\<exists>slots. drb_page q page (i mod dq_page_msg_count q) = Inr slots \<and> dq_heap q page = Some slots
    \<and> drb_slot q i = Some (slots (nat (i mod dq_page_msg_count q)))"
  using drb_tablesD(1)[OF t pg] drb_coords(3)[OF t] pg by (auto simp: drb_page_def drb_slot_def)

lemma drb_push_appends:
  assumes inv: "drb_inv q"
  shows "\<exists>q'. drb_push m q = Inr (True, q') \<and> drb_inv q' \<and> drb_contents q' = drb_contents q @ [m]"
proof -
  let ?p = "dq_post_index q" and ?P = "dq_page_msg_count q"
  have t: "drb_tables q" and b: "0 \<le> ?p" "dq_write_index q = ?p" "?p \<le> dq_page_index_count q * ?P"
    using inv by (simp_all add: drb_inv_def)
  note c = drb_coords[OF t]
  let ?q1 = "q\<lparr>dq_post_index := ?p + 1\<rparr>"
  have t1: "drb_tables ?q1" and s1: "drb_slot ?q1 = drb_slot q"
    using t by (simp_all add: drb_tables_def drb_slot_def fun_eq_iff split: option.split)
  have k: "0 \<le> ?p div ?P" "?p div ?P \<le> dq_page_index_count ?q1"
    using b(1) c(3) zdiv_mono1[OF b(3) c(3)] by (simp_all add: pos_imp_zdiv_nonneg_iff)
  from drb_get_page_ok[OF t1 k] obtain page q2 where
    g: "drb_get_msg_page (?p div ?P) ?q1 = Inr (page, q2)" and t2: "drb_tables q2"
    and pg: "dq_page_indexes q2 (?p div ?P) = Some page"
    and d: "dq_page_index_count q \<le> dq_page_index_count q2" "?p div ?P < dq_page_index_count q2"
      "dq_post_index q2 = ?p + 1" "dq_write_index q2 = ?p" "dq_page_msg_count q2 = ?P"
    and s2: "\<forall>j. drb_slot q2 j = (if dq_page_indexes q (?p div ?P) = None \<and> j div ?P = ?p div ?P
         then Some \<lparr>dm_msg = dq_zero q, dm_flag = 0\<rparr> else drb_slot q j)"
    unfolding s1 using b(2) by force
  note c2 = drb_coords[OF t2]
  from drb_page_ok[OF t2, of ?p page] pg d(5) obtain slots where
    h2: "drb_page q2 page (?p mod ?P) = Inr slots" "dq_heap q2 page = Some slots" by auto
  define q3 where "q3 = q2\<lparr>dq_heap := (dq_heap q2)(page \<mapsto> slots(nat (?p mod ?P) := (slots (nat (?p mod ?P)))\<lparr>dm_msg := m\<rparr>))\<rparr>"
  have w3: "drb_tables q3" "\<And>j. drb_slot q3 j = (if j = ?p then Some ((slots (nat (?p mod ?P)))\<lparr>dm_msg := m\<rparr>) else drb_slot q2 j)"
    using drb_write_ok[OF t2 _ h2(2), of ?p q3] pg d(5) by (simp_all add: q3_def)
  have pg3: "dq_page_indexes q3 = dq_page_indexes q2" "dq_page_msg_count q3 = ?P" by (simp_all add: q3_def d)
  from drb_page_ok[OF w3(1), of ?p page] pg pg3 obtain slots' where
    h3: "drb_page q3 page (?p mod ?P) = Inr slots'" "dq_heap q3 page = Some slots'"
      "drb_slot q3 ?p = Some (slots' (nat (?p mod ?P)))" by auto
  define q4 where "q4 = q3\<lparr>dq_heap := (dq_heap q3)(page \<mapsto> slots'(nat (?p mod ?P) := (slots' (nat (?p mod ?P)))\<lparr>dm_flag := 1\<rparr>))\<rparr>"
  have w4: "drb_tables q4" "\<And>j. drb_slot q4 j = (if j = ?p then Some ((slots' (nat (?p mod ?P)))\<lparr>dm_flag := 1\<rparr>) else drb_slot q3 j)"
    using drb_write_ok[OF w3(1) _ h3(2), of ?p q4] pg pg3 by (simp_all add: q4_def)
  let ?q5 = "q4\<lparr>dq_write_index := dq_write_index q4 + 1\<rparr>"
  have s5: "drb_slot ?q5 = drb_slot q4" by (simp add: drb_slot_def fun_eq_iff split: option.split)
  have t5: "drb_tables ?q5" using w4(1) by (simp add: drb_tables_def)
  have new: "drb_slot ?q5 ?p = Some \<lparr>dm_msg = m, dm_flag = 1\<rparr>"
    using s5 w4(2)[of ?p] w3(2)[of ?p] h3(3) by simp
  have old: "drb_slot ?q5 i = drb_slot q i" if i: "0 \<le> i" "i < ?p" for i
  proof -
    have "drb_slot q i \<noteq> None" using inv i by (force simp: drb_inv_def)
    then have "\<not> (dq_page_indexes q (?p div ?P) = None \<and> i div ?P = ?p div ?P)"
      by (auto simp: drb_slot_def split: option.splits)
    then show ?thesis using s5 w4(2)[of i] w3(2)[of i] s2 i(2) by auto
  qed
  have idx: "dq_post_index ?q5 = ?p + 1" "dq_write_index ?q5 = ?p + 1" "dq_page_msg_count ?q5 = ?P"
    "dq_page_index_count ?q5 = dq_page_index_count q2"
    by (simp_all add: q4_def q3_def d)
  have "drb_push m q = Inr (True, ?q5)"
    using drb_tablesD(4)[OF t] g h2 h3 c c2(2) d
    by (simp add: drb_push_def Let_def q3_def[symmetric]) (simp add: q4_def q3_def d)
  moreover have "drb_inv ?q5"
    unfolding drb_inv_def idx
  proof (intro conjI allI impI)
    show "drb_tables ?q5" by (rule t5)
    have "?p + 1 \<le> ?p div ?P * ?P + ?P"
      using div_mult_mod_eq[of ?p ?P] pos_mod_bound[OF c(3), of ?p] by linarith
    also have "\<dots> = (?p div ?P + 1) * ?P" by (simp only: distrib_right mult_1)
    also have "\<dots> \<le> dq_page_index_count q2 * ?P" using d(2) c(3) by (intro mult_right_mono) auto
    finally show "?p + 1 \<le> dq_page_index_count q2 * ?P" .
    show "\<exists>m. drb_slot ?q5 i = Some \<lparr>dm_msg = m, dm_flag = 1\<rparr>" if "0 \<le> i \<and> i < ?p + 1" for i
    proof (cases "i = ?p")
      case True
      then show ?thesis using new by blast
    next
      case False
      then have "0 \<le> i" "i < ?p" using that by simp_all
      then show ?thesis using old[of i] inv by (auto simp: drb_inv_def)
    qed
  qed (use b in simp_all)
  moreover have "drb_contents ?q5 = drb_contents q @ [m]"
  proof -
    have "[0..?p] = [0..?p - 1] @ [?p]" using b(1) by (rule upto_rec2)
    then show ?thesis using new old by (auto simp: drb_contents_def idx)
  qed
  ultimately show ?thesis by blast
qed

lemma drb_get_nth:
  assumes inv: "drb_inv q" and pos: "0 \<le> pos"
  shows "drb_get pos q = Inr (if nat pos < length (drb_contents q) then Some (drb_contents q ! nat pos) else None, q)"
proof (cases "pos < dq_post_index q")
  case False
  then show ?thesis using inv pos by (simp add: drb_get_def drb_inv_def drb_tables_def drb_contents_def)
next
  case True
  let ?P = "dq_page_msg_count q"
  have t: "drb_tables q" and w: "dq_write_index q = dq_post_index q" using inv by (simp_all add: drb_inv_def)
  note c = drb_coords[OF t]
  obtain m where m: "drb_slot q pos = Some \<lparr>dm_msg = m, dm_flag = 1\<rparr>"
    using inv pos True by (auto simp: drb_inv_def)
  then obtain page where pg: "dq_page_indexes q (pos div ?P) = Some page"
    by (auto simp: drb_slot_def split: option.splits)
  then have g: "drb_get_msg_page (pos div ?P) q = Inr (page, q)"
    using drb_tablesD(1)[OF t pg] drb_tablesD(4)[OF t] by (simp add: drb_get_msg_page_def)
  obtain slots where h: "drb_page q page (pos mod ?P) = Inr slots" "drb_slot q pos = Some (slots (nat (pos mod ?P)))"
    using drb_page_ok[OF t pg] by auto
  have "slots (nat (pos mod ?P)) = \<lparr>dm_msg = m, dm_flag = 1\<rparr>" using h(2) m by simp
  then have "drb_get pos q = Inr (Some m, q)"
    using drb_tablesD(4)[OF t] True w c g h(1) by (simp add: drb_get_def Let_def)
  moreover have "nat pos < length (drb_contents q)" "drb_contents q ! nat pos = m"
    using True pos m by (simp_all add: drb_contents_def)
  ultimately show ?thesis by simp
qed

lemma drb_new_init:
  assumes "page_msg_count \<le> 2 ^ 30" "0 < init_page_msg_count"
  shows "\<exists>q0 q. drb_new zero page_msg_count init_page_msg_count = Inr q0 \<and> drb_init q0 = Inr (True, q)
    \<and> drb_inv q \<and> drb_contents q = []"
proof -
  obtain bits where bits: "drb_bits page_msg_count 1 = Inr bits"
    using drb_bits_ok[OF assms(1), of 1] by auto
  define q0 where "q0 = \<lparr>dq_initialized = False, dq_page_indexes = (\<lambda>_. None), dq_heap = (\<lambda>_. None), dq_next = 0,
           dq_tables = 0, dq_post_index = 0, dq_write_index = 0, dq_page_index_count = init_page_msg_count,
           dq_page_msg_count = push_bit bits 1, dq_page_msg_mask = push_bit bits 1 - 1,
           dq_page_msg_bits = bits, dq_zero = zero\<rparr>"
  have "drb_new zero page_msg_count init_page_msg_count = Inr q0" using bits by (simp add: drb_new_def q0_def)
  moreover define q where "q = (drb_alloc_page 0 (q0\<lparr>dq_page_indexes := (\<lambda>_. None), dq_tables := dq_tables q0 + 1\<rparr>))
                         \<lparr>dq_initialized := True\<rparr>"
  have "drb_init q0 = Inr (True, q)" using assms(2) by (simp add: drb_init_def q0_def q_def)
  moreover have "drb_inv q"
    using assms(2) by (auto simp: drb_inv_def drb_tables_def q_def q0_def drb_alloc_page_def push_bit_eq_mult)
  moreover have "drb_contents q = []" by (simp add: drb_contents_def q_def q0_def drb_alloc_page_def)
  ultimately show ?thesis by blast
qed

fun drb_push_all :: "'a list \<Rightarrow> 'a drb_queue \<Rightarrow> 'a drb_queue outcome" where
  "drb_push_all [] q = Inr q"
| "drb_push_all (x # xs) q = obind (drb_push x q) (\<lambda>(ok, q'). drb_push_all xs q')"

lemma drb_push_all_appends:
  "drb_inv q \<Longrightarrow> \<exists>q'. drb_push_all xs q = Inr q' \<and> drb_inv q' \<and> drb_contents q' = drb_contents q @ xs"
proof (induction xs arbitrary: q)
  case Nil
  then show ?case by simp
next
  case (Cons x xs)
  obtain q1 where q1: "drb_push x q = Inr (True, q1)" "drb_inv q1" "drb_contents q1 = drb_contents q @ [x]"
    using drb_push_appends[OF Cons.prems] by blast
  then show ?case using Cons.IH[OF q1(2)] by auto
qed

lemma drb_size_contents: "drb_inv q \<Longrightarrow> drb_size q = int (length (drb_contents q))"
  by (simp add: drb_size_def drb_inv_def drb_contents_def)

text \<open>
  The durable queue is a growing list: after any messages pushed from one thread into a
  queue built with any page size up to \<open>2 ^ 30\<close> and a positive initial table, \<open>size\<close> is their
  number, \<open>get(pos)\<close> returns the message pushed as number \<open>pos\<close> and leaves the queue as it
  is, and beyond the size it returns false; growing the table loses nothing.
\<close>

lemma drb_growing_list:
  assumes "page_msg_count \<le> 2 ^ 30" "0 < init_page_msg_count" "0 \<le> pos"
  shows "\<exists>q0 q q'. drb_new zero page_msg_count init_page_msg_count = Inr q0 \<and> drb_init q0 = Inr (True, q)
    \<and> drb_push_all xs q = Inr q' \<and> drb_size q' = int (length xs)
    \<and> drb_get pos q' = Inr (if nat pos < length xs then Some (xs ! nat pos) else None, q')"
proof -
  obtain q0 q where q: "drb_new zero page_msg_count init_page_msg_count = Inr q0" "drb_init q0 = Inr (True, q)"
    "drb_inv q" "drb_contents q = []"
    using drb_new_init[OF assms(1,2), of zero] by blast
  obtain q' where q': "drb_push_all xs q = Inr q'" "drb_inv q'" "drb_contents q' = xs"
    using drb_push_all_appends[OF q(3), of xs] q(4) by auto
  from q(1,2) q'(1) drb_size_contents[OF q'(2)] drb_get_nth[OF q'(2) assms(3)] show ?thesis
    unfolding q'(3) by (intro exI conjI)
qed

lemma drb_growing_list_example:
  "\<exists>q0 q q'. drb_new (0::nat) 2 1 = Inr q0 \<and> drb_init q0 = Inr (True, q)
    \<and> drb_push_all [7, 8, 9, 10, 11] q = Inr q' \<and> drb_get 4 q' = Inr (Some 11, q')"
proof -
  have "\<exists>q0 q q'. drb_new (0::nat) 2 1 = Inr q0 \<and> drb_init q0 = Inr (True, q)
    \<and> drb_push_all [7, 8, 9, 10, 11] q = Inr q' \<and> drb_size q' = int (length [7, 8, 9, 10, 11::nat])
    \<and> drb_get 4 q' = Inr (if nat 4 < length [7, 8, 9, 10, 11::nat] then Some ([7, 8, 9, 10, 11] ! nat 4) else None, q')"
    by (rule drb_growing_list) simp_all
  moreover have "(if nat 4 < length [7, 8, 9, 10, 11::nat] then Some ([7, 8, 9, 10, 11] ! nat 4) else None) = Some (11::nat)"
    by code_simp
  ultimately show ?thesis by (elim exE conjE) (intro exI conjI, simp_all only:)
qed

text \<open>
  C36: The table is extended correctly for every page number except those that are exactly the
  current size times a power of two from 2 on: the loop \<open>while (page_index > extend_size)\<close>
  stops one doubling early for them, and the access is one past the end of the new table.
\<close>

theorem drb_extension_exact:
  assumes "drb_inv q" "0 \<le> page_index"
  shows "if drb_misfit (dq_page_index_count q) page_index
    then drb_get_msg_page page_index q = Inl OutOfBounds
    else \<exists>page q'. drb_get_msg_page page_index q = Inr (page, q') \<and> dq_page_indexes q' page_index = Some page
      \<and> page_index < dq_page_index_count q' \<and> (\<forall>k page. dq_page_indexes q k = Some page \<longrightarrow> dq_page_indexes q' k = Some page)"
proof -
  let ?c = "dq_page_index_count q"
  have t: "drb_tables q" using assms(1) by (simp add: drb_inv_def)
  have c: "dq_initialized q" "0 < ?c" by (rule drb_tablesD[OF t])+
  show ?thesis
  proof (cases "page_index < ?c")
    case True
    have "?c \<le> ?c * 2 ^ k" for k using c(2) by simp
    then have "page_index \<noteq> ?c * 2 ^ k" for k using True by (metis not_less)
    then have "\<not> drb_misfit ?c page_index" by (simp add: drb_misfit_def)
    then show ?thesis using True c assms(2)
      by (cases "dq_page_indexes q page_index") (auto simp: drb_get_msg_page_def drb_alloc_page_def)
  next
    case False
    obtain e where e: "drb_extend page_index (push_bit 1 ?c) = Some e" "page_index \<le> e" "?c < e"
      "page_index = e \<longleftrightarrow> drb_misfit ?c page_index"
      using drb_extend_fits[OF c(2), of page_index] False by auto
    define q1 where "q1 = q\<lparr>dq_page_indexes := (\<lambda>k. if k < ?c then dq_page_indexes q k else None),
                  dq_page_index_count := e, dq_tables := dq_tables q + 1\<rparr>"
    have g: "dq_page_indexes q1 = dq_page_indexes q" "dq_page_index_count q1 = e"
      using drb_grow(3)[OF t less_imp_le[OF e(3)] q1_def] by (simp_all add: q1_def)
    have get: "drb_get_msg_page page_index q = obind (oassert OutOfBounds (page_index < e)) (\<lambda>_.
        case dq_page_indexes q page_index of
          Some page \<Rightarrow> Inr (page, q1) | None \<Rightarrow> Inr (dq_next q1, drb_alloc_page page_index q1))"
      using False c e(1) g assms(2) by (simp add: drb_get_msg_page_def q1_def[symmetric])
    have None: "dq_page_indexes q page_index = None"
      using drb_tablesD(1)[OF t, of page_index] False by (cases "dq_page_indexes q page_index") auto
    show ?thesis
    proof (cases "page_index = e")
      case True
      then show ?thesis using get e(4) by simp
    next
      case False
      then show ?thesis using get e(2,4) None g by (simp add: drb_alloc_page_def)
    qed
  qed
qed

theorem drb_extension_exact_witness:
  "\<exists>q0 q. drb_new (0::nat) 2 1 = Inr q0 \<and> drb_init q0 = Inr (True, q)
    \<and> drb_get_msg_page 2 q = Inl OutOfBounds"
proof -
  obtain q0 q where q: "drb_new (0::nat) 2 1 = Inr q0" "drb_init q0 = Inr (True, q)" "drb_inv q"
    using drb_new_init[of 2 1 "0::nat"] by auto
  have "dq_page_index_count q0 = 1" using q(1) by (auto simp: drb_new_def obind_eq_Inr)
  then have "dq_page_index_count q = 1"
    using q(2) by (auto simp: drb_init_def obind_eq_Inr drb_alloc_page_def split: if_splits)
  then have "drb_misfit (dq_page_index_count q) 2" by (auto simp: drb_misfit_def intro!: exI[of _ 1])
  with drb_extension_exact[OF q(3), of 2] q(1,2) show ?thesis by auto
qed

end
