(* ===== verification/Drb_Concurrent.thy ===== *)
theory Drb_Concurrent
  imports Drb_Queue
begin

text \<open>
  \<open>drb_queue\<close> (base/src/mqueue.h) under concurrency: producer threads inside \<open>push\<close> and reader
  threads inside \<open>get\<close>, interleaved at their accesses to shared memory.  A thread in \<open>get_msg_page\<close>
  first looks without the lock, reading the size of the table, the pointer to it and an entry; the
  locked section stores the new size, the pointer to the new table and the new entry one after the
  other, and whoever does not hold the lock can look in between.  The queue is initialised, and
  accesses are sequentially consistent.
\<close>

section \<open>Shared memory and threads\<close>

text \<open>
  The tables and pages that were allocated, by number; neither is freed before the destructor.
  Positions are \<open>bint64\<close> and stay far below \<open>2 ^ 63\<close>.
\<close>

record drb_table =
  tb_size :: int
  tb_entry :: "int \<Rightarrow> nat option"

record 'a drb_shared =
  dc_initialized :: bool
  dc_page_indexes :: nat
  dc_tables :: "drb_table list"
  dc_pages :: "(int \<Rightarrow> 'a drb_message) list"
  dc_post_index :: int
  dc_write_index :: int
  dc_page_index_count :: int
  dc_page_msg_bits :: nat
  dc_mutex :: bool
  dc_zero :: 'a

text \<open>After \<open>init\<close>, with pages of \<open>2 ^ bits\<close> messages and a table of \<open>n\<close> entries.\<close>

definition drb_shared_new :: "'a \<Rightarrow> nat \<Rightarrow> int \<Rightarrow> 'a drb_shared" where
  "drb_shared_new zero bits n =
    \<lparr>dc_initialized = True, dc_page_indexes = 0,
     dc_tables = [\<lparr>tb_size = n, tb_entry = (\<lambda>_. None)(0 \<mapsto> 0)\<rparr>],
     dc_pages = [\<lambda>_. \<lparr>dm_msg = zero, dm_flag = 0\<rparr>],
     dc_post_index = 0, dc_write_index = 0, dc_page_index_count = n, dc_page_msg_bits = bits,
     dc_mutex = False, dc_zero = zero\<rparr>"

text \<open>
  Where a thread is in \<open>get_msg_page\<close>: before it reads the size, the pointer, or the entry of the
  table it has a pointer to; before \<open>lock\<close>; in the locked section before the test of the size, the
  store of the new size, the store of the new pointer, the test of the entry, \<open>unlock\<close>; before it
  reads the pointer and the entry for the result.
\<close>

datatype drb_get_pc =
    GCount | GTable | GEntry nat | GLock | GLocked | GGrown int nat | GCounted nat | GFill | GUnlock
  | GReload | GLast nat

definition drb_entry_at :: "nat \<Rightarrow> int \<Rightarrow> 'a drb_shared \<Rightarrow> nat option outcome" where
  "drb_entry_at tab k m =
    obind (oassert UseAfterFree (tab < length (dc_tables m))) (\<lambda>_.
    obind (oassert OutOfBounds (0 \<le> k \<and> k < tb_size (dc_tables m ! tab))) (\<lambda>_.
      Inr (tb_entry (dc_tables m ! tab) k)))"

text \<open>One access of \<open>get_msg_page k\<close>; \<open>Inr page\<close> in the result is the value it returns.\<close>

fun drb_page_step :: "int \<Rightarrow> drb_get_pc \<Rightarrow> 'a drb_shared \<Rightarrow> ((drb_get_pc + nat) \<times> 'a drb_shared) outcome" where
  "drb_page_step k GCount m =
    obind (oassert AssertFail (dc_initialized m)) (\<lambda>_.
      Inr (Inl (if k \<ge> dc_page_index_count m then GLock else GTable), m))"
| "drb_page_step k GTable m = Inr (Inl (GEntry (dc_page_indexes m)), m)"
| "drb_page_step k (GEntry tab) m =
    obind (drb_entry_at tab k m) (\<lambda>e. Inr (Inl (if e = None then GLock else GReload), m))"
| "drb_page_step k GLock m =
    (if dc_mutex m then Inr (Inl GLock, m) else Inr (Inl GLocked, m\<lparr>dc_mutex := True\<rparr>))"
| "drb_page_step k GLocked m =
    (if k \<ge> dc_page_index_count m then
       (case drb_extend k (push_bit 1 (dc_page_index_count m)) of
          None \<Rightarrow> Inl Diverges
        | Some extend_size \<Rightarrow>
            let old = dc_tables m ! dc_page_indexes m in
            obind (oassert OutOfBounds (dc_page_index_count m \<le> tb_size old)) (\<lambda>_.
              Inr (Inl (GGrown extend_size (length (dc_tables m))),
                   m\<lparr>dc_tables := dc_tables m @ [\<lparr>tb_size = extend_size,
                       tb_entry = (\<lambda>j. if j < dc_page_index_count m then tb_entry old j else None)\<rparr>]\<rparr>)))
     else Inr (Inl GFill, m))"
| "drb_page_step k (GGrown extend_size tab) m = Inr (Inl (GCounted tab), m\<lparr>dc_page_index_count := extend_size\<rparr>)"
| "drb_page_step k (GCounted tab) m = Inr (Inl GFill, m\<lparr>dc_page_indexes := tab\<rparr>)"
| "drb_page_step k GFill m =
    obind (drb_entry_at (dc_page_indexes m) k m) (\<lambda>e.
      Inr (Inl GUnlock,
        case e of
          Some page \<Rightarrow> m
        | None \<Rightarrow>
            let tab = dc_tables m ! dc_page_indexes m in
            m\<lparr>dc_pages := dc_pages m @ [\<lambda>_. \<lparr>dm_msg = dc_zero m, dm_flag = 0\<rparr>],
              dc_tables := (dc_tables m)[dc_page_indexes m :=
                tab\<lparr>tb_entry := (tb_entry tab)(k \<mapsto> length (dc_pages m))\<rparr>]\<rparr>))"
| "drb_page_step k GUnlock m = Inr (Inl GReload, m\<lparr>dc_mutex := False\<rparr>)"
| "drb_page_step k GReload m = Inr (Inl (GLast (dc_page_indexes m)), m)"
| "drb_page_step k (GLast tab) m =
    obind (drb_entry_at tab k m) (\<lambda>e. case e of None \<Rightarrow> Inl NullDeref | Some page \<Rightarrow> Inr (Inr page, m))"

definition drb_pidx :: "'a drb_shared \<Rightarrow> int \<Rightarrow> int" where
  "drb_pidx m i = drop_bit (dc_page_msg_bits m) i"

definition drb_off :: "'a drb_shared \<Rightarrow> int \<Rightarrow> int" where
  "drb_off m i = i AND (push_bit (dc_page_msg_bits m) 1 - 1)"

text \<open>A load and a store of a slot.\<close>

definition drb_slot_ok :: "nat \<Rightarrow> int \<Rightarrow> 'a drb_shared \<Rightarrow> unit outcome" where
  "drb_slot_ok page off m =
    obind (oassert UseAfterFree (page < length (dc_pages m))) (\<lambda>_.
      oassert OutOfBounds (0 \<le> off \<and> off < push_bit (dc_page_msg_bits m) 1))"

definition drb_load :: "nat \<Rightarrow> int \<Rightarrow> 'a drb_shared \<Rightarrow> 'a drb_message outcome" where
  "drb_load page off m = obind (drb_slot_ok page off m) (\<lambda>_. Inr ((dc_pages m ! page) off))"

definition drb_store :: "nat \<Rightarrow> int \<Rightarrow> ('a drb_message \<Rightarrow> 'a drb_message) \<Rightarrow> 'a drb_shared \<Rightarrow> 'a drb_shared outcome" where
  "drb_store page off f m =
    obind (drb_slot_ok page off m) (\<lambda>_.
      Inr (m\<lparr>dc_pages := (dc_pages m)[page := (dc_pages m ! page)(off := f ((dc_pages m ! page) off))]\<rparr>))"

text \<open>A producer: outside, before the \<open>fetch_and_inc\<close>, in \<open>get_msg_page\<close>, and before each store.\<close>

datatype 'a drb_producer =
    DIdle | DCall 'a | DFind 'a int drb_get_pc | DPage 'a int nat | DStored 'a int nat | DFlagged 'a int

fun drb_producer_step :: "'a drb_producer \<Rightarrow> 'a drb_shared \<Rightarrow> ('a list \<times> 'a drb_producer \<times> 'a drb_shared) outcome" where
  "drb_producer_step DIdle m = Inr ([], DIdle, m)"
| "drb_producer_step (DCall msg) m =
    obind (oassert AssertFail (dc_initialized m)) (\<lambda>_.
      Inr ([msg], DFind msg (dc_post_index m) GCount, m\<lparr>dc_post_index := dc_post_index m + 1\<rparr>))"
| "drb_producer_step (DFind msg i pc) m =
    obind (drb_page_step (drb_pidx m i) pc m) (\<lambda>(r, m').
      Inr ([], case r of Inl pc' \<Rightarrow> DFind msg i pc' | Inr page \<Rightarrow> DPage msg i page, m'))"
| "drb_producer_step (DPage msg i page) m =
    obind (drb_store page (drb_off m i) (dm_msg_update (\<lambda>_. msg)) m) (\<lambda>m'. Inr ([], DStored msg i page, m'))"
| "drb_producer_step (DStored msg i page) m =
    obind (drb_store page (drb_off m i) (dm_flag_update (\<lambda>_. 1)) m) (\<lambda>m'. Inr ([], DFlagged msg i, m'))"
| "drb_producer_step (DFlagged msg i) m = Inr ([], DIdle, m\<lparr>dc_write_index := dc_write_index m + 1\<rparr>)"

text \<open>
  A reader of position \<open>pos\<close>.  What \<open>get\<close> returns is reported with the value \<open>w\<close> of \<open>write_index_\<close> it
  has read: \<open>None\<close> if it returns false.
\<close>

datatype drb_reader =
    RIdle | RCall int | RFind int int drb_get_pc | RPage int int nat | RFlag int int nat

fun drb_reader_step :: "drb_reader \<Rightarrow> 'a drb_shared \<Rightarrow> ((int \<times> int \<times> 'a option) list \<times> drb_reader \<times> 'a drb_shared) outcome" where
  "drb_reader_step RIdle m = Inr ([], RIdle, m)"
| "drb_reader_step (RCall pos) m =
    obind (oassert AssertFail (dc_initialized m)) (\<lambda>_.
      let w = dc_write_index m in
      if w \<le> pos then Inr ([(pos, w, None)], RIdle, m) else Inr ([], RFind pos w GCount, m))"
| "drb_reader_step (RFind pos w pc) m =
    obind (drb_page_step (drb_pidx m pos) pc m) (\<lambda>(r, m').
      Inr ([], case r of Inl pc' \<Rightarrow> RFind pos w pc' | Inr page \<Rightarrow> RPage pos w page, m'))"
| "drb_reader_step (RPage pos w page) m =
    obind (drb_load page (drb_off m pos) m) (\<lambda>slot.
      if dm_flag slot = 1 then Inr ([], RFlag pos w page, m) else Inr ([(pos, w, None)], RIdle, m))"
| "drb_reader_step (RFlag pos w page) m =
    obind (drb_load page (drb_off m pos) m) (\<lambda>slot. Inr ([(pos, w, Some (dm_msg slot))], RIdle, m))"

section \<open>The system\<close>

record 'a drb_sys =
  ds_mem :: "'a drb_shared"
  ds_prod :: "nat \<Rightarrow> 'a drb_producer"
  ds_read :: "nat \<Rightarrow> drb_reader"
  ds_sent :: "'a list" \<comment> \<open>messages in the order of their indices\<close>
  ds_got :: "(int \<times> int \<times> 'a option) list" \<comment> \<open>what the calls of \<open>get\<close> have returned\<close>

definition drb_sys_new :: "'a \<Rightarrow> nat \<Rightarrow> int \<Rightarrow> 'a drb_sys" where
  "drb_sys_new zero bits n =
    \<lparr>ds_mem = drb_shared_new zero bits n, ds_prod = (\<lambda>_. DIdle), ds_read = (\<lambda>_. RIdle), ds_sent = [], ds_got = []\<rparr>"

datatype 'a drb_action = DPush nat 'a | DProduce nat | DGet nat int | DRead nat

fun drb_act :: "'a drb_action \<Rightarrow> 'a drb_sys \<Rightarrow> 'a drb_sys outcome" where
  "drb_act (DPush t msg) st =
    Inr (if ds_prod st t = DIdle then st\<lparr>ds_prod := (ds_prod st)(t := DCall msg)\<rparr> else st)"
| "drb_act (DProduce t) st =
    obind (drb_producer_step (ds_prod st t) (ds_mem st)) (\<lambda>(new, p, m).
      Inr (st\<lparr>ds_mem := m, ds_prod := (ds_prod st)(t := p), ds_sent := ds_sent st @ new\<rparr>))"
| "drb_act (DGet r pos) st =
    Inr (if ds_read st r = RIdle then st\<lparr>ds_read := (ds_read st)(r := RCall pos)\<rparr> else st)"
| "drb_act (DRead r) st =
    obind (drb_reader_step (ds_read st r) (ds_mem st)) (\<lambda>(out, p, m).
      Inr (st\<lparr>ds_mem := m, ds_read := (ds_read st)(r := p), ds_got := ds_got st @ out\<rparr>))"

fun drb_run :: "'a drb_action list \<Rightarrow> 'a drb_sys \<Rightarrow> 'a drb_sys outcome" where
  "drb_run [] st = Inr st"
| "drb_run (a # as) st = obind (drb_act a st) (drb_run as)"

text \<open>Producers are \<open>0, \<dots>, n - 1\<close>, and positions asked for are not negative.\<close>

fun drb_act_ok :: "nat \<Rightarrow> 'a drb_action \<Rightarrow> bool" where
  "drb_act_ok n (DPush t msg) \<longleftrightarrow> t < n"
| "drb_act_ok n (DProduce t) \<longleftrightarrow> t < n"
| "drb_act_ok n (DGet r pos) \<longleftrightarrow> 0 \<le> pos"
| "drb_act_ok n (DRead r) \<longleftrightarrow> True"

inductive drb_reach :: "nat \<Rightarrow> 'a drb_sys \<Rightarrow> 'a drb_sys \<Rightarrow> bool" for n st0 where
  start: "drb_reach n st0 st0"
| act: "drb_reach n st0 st \<Longrightarrow> drb_act_ok n a \<Longrightarrow> drb_act a st = Inr st' \<Longrightarrow> drb_reach n st0 st'"

section \<open>The memory\<close>

abbreviation drb_tab :: "'a drb_shared \<Rightarrow> drb_table" where
  "drb_tab m \<equiv> dc_tables m ! dc_page_indexes m"

abbreviation drb_ent :: "'a drb_shared \<Rightarrow> int \<Rightarrow> nat option" where
  "drb_ent m k \<equiv> tb_entry (drb_tab m) k"

text \<open>The slot of an index, in the table the pointer leads to.\<close>

definition drb_at :: "'a drb_shared \<Rightarrow> int \<Rightarrow> 'a drb_message option" where
  "drb_at m i = map_option (\<lambda>a. (dc_pages m ! a) (drb_off m i)) (drb_ent m (drb_pidx m i))"

definition drb_blank :: "'a drb_shared \<Rightarrow> int \<Rightarrow> bool" where
  "drb_blank m i \<longleftrightarrow> (\<forall>s. drb_at m i = Some s \<longrightarrow> dm_flag s = 0)"

definition drb_mem_ok :: "'a drb_shared \<Rightarrow> bool" where
  "drb_mem_ok m \<longleftrightarrow> dc_initialized m \<and> dc_page_indexes m < length (dc_tables m)
     \<and> 0 < tb_size (drb_tab m) \<and> tb_size (drb_tab m) \<le> dc_page_index_count m
     \<and> (\<forall>tab<length (dc_tables m). \<forall>k a. tb_entry (dc_tables m ! tab) k = Some a \<longrightarrow>
          0 \<le> k \<and> k < tb_size (dc_tables m ! tab) \<and> a < length (dc_pages m))
     \<and> (\<forall>k k' a. drb_ent m k = Some a \<and> drb_ent m k' = Some a \<longrightarrow> k = k')"

lemma drb_mem_okD:
  assumes "drb_mem_ok m"
  shows "dc_initialized m" "dc_page_indexes m < length (dc_tables m)" "0 < tb_size (drb_tab m)"
    "tb_size (drb_tab m) \<le> dc_page_index_count m"
    "\<And>tab k a. tab < length (dc_tables m) \<Longrightarrow> tb_entry (dc_tables m ! tab) k = Some a \<Longrightarrow>
      0 \<le> k \<and> k < tb_size (dc_tables m ! tab) \<and> a < length (dc_pages m)"
    "\<And>k k' a. drb_ent m k = Some a \<Longrightarrow> drb_ent m k' = Some a \<Longrightarrow> k = k'"
  using assms unfolding drb_mem_ok_def by blast+

lemma drb_coord:
  "drb_pidx m i = i div 2 ^ dc_page_msg_bits m" "drb_off m i = i mod 2 ^ dc_page_msg_bits m"
  by (simp_all add: drb_pidx_def drb_off_def drop_bit_eq_div push_bit_eq_mult take_bit_eq_mod[symmetric]
      take_bit_eq_mask mask_eq_exp_minus_1)

lemma drb_coord_eq: "i = j \<longleftrightarrow> drb_pidx m i = drb_pidx m j \<and> drb_off m i = drb_off m j"
  unfolding drb_coord by (metis div_mult_mod_eq)

section \<open>Local assertions of get_msg_page\<close>

text \<open>
  A thread has read the pointer to table \<open>tab\<close> and looks for page \<open>k\<close>: either the pointer has not
  changed since, or the page was there and is the same in both tables.
\<close>

definition drb_seen :: "'a drb_shared \<Rightarrow> int \<Rightarrow> nat \<Rightarrow> bool" where
  "drb_seen m k tab \<longleftrightarrow> tab < length (dc_tables m) \<and> k < tb_size (dc_tables m ! tab)
     \<and> (tab = dc_page_indexes m \<or> tb_entry (dc_tables m ! tab) k = drb_ent m k \<and> drb_ent m k \<noteq> None)"

fun drb_find_ok :: "'a drb_shared \<Rightarrow> int \<Rightarrow> drb_get_pc \<Rightarrow> bool" where
  "drb_find_ok m k GCount \<longleftrightarrow> True"
| "drb_find_ok m k GTable \<longleftrightarrow> k < tb_size (drb_tab m)"
| "drb_find_ok m k (GEntry tab) \<longleftrightarrow> drb_seen m k tab"
| "drb_find_ok m k GLock \<longleftrightarrow> True"
| "drb_find_ok m k GLocked \<longleftrightarrow> dc_mutex m \<and> tb_size (drb_tab m) = dc_page_index_count m"
| "drb_find_ok m k (GGrown e tab) \<longleftrightarrow> dc_mutex m \<and> tb_size (drb_tab m) = dc_page_index_count m \<and> k < e
     \<and> dc_page_index_count m \<le> e \<and> tab < length (dc_tables m)
     \<and> dc_tables m ! tab = \<lparr>tb_size = e, tb_entry = tb_entry (drb_tab m)\<rparr>"
| "drb_find_ok m k (GCounted tab) \<longleftrightarrow> dc_mutex m \<and> k < dc_page_index_count m \<and> tab < length (dc_tables m)
     \<and> dc_tables m ! tab = \<lparr>tb_size = dc_page_index_count m, tb_entry = tb_entry (drb_tab m)\<rparr>"
| "drb_find_ok m k GFill \<longleftrightarrow> dc_mutex m \<and> tb_size (drb_tab m) = dc_page_index_count m \<and> k < tb_size (drb_tab m)"
| "drb_find_ok m k GUnlock \<longleftrightarrow> dc_mutex m \<and> tb_size (drb_tab m) = dc_page_index_count m \<and> drb_ent m k \<noteq> None"
| "drb_find_ok m k GReload \<longleftrightarrow> drb_ent m k \<noteq> None"
| "drb_find_ok m k (GLast tab) \<longleftrightarrow> drb_seen m k tab \<and> drb_ent m k \<noteq> None"

fun drb_locked :: "drb_get_pc \<Rightarrow> bool" where
  "drb_locked GLocked = True"
| "drb_locked (GGrown e tab) = True"
| "drb_locked (GCounted tab) = True"
| "drb_locked GFill = True"
| "drb_locked GUnlock = True"
| "drb_locked _ = False"

text \<open>What a step may do to the memory: tables and pages grow, and an entry once set stays.\<close>

definition drb_ext :: "'a drb_shared \<Rightarrow> 'a drb_shared \<Rightarrow> bool" where
  "drb_ext m m' \<longleftrightarrow> dc_page_msg_bits m' = dc_page_msg_bits m \<and> dc_page_index_count m \<le> dc_page_index_count m'
     \<and> length (dc_tables m) \<le> length (dc_tables m') \<and> length (dc_pages m) \<le> length (dc_pages m')
     \<and> (\<forall>tab<length (dc_tables m). tb_size (dc_tables m' ! tab) = tb_size (dc_tables m ! tab)
         \<and> (tab \<noteq> dc_page_indexes m \<longrightarrow> dc_tables m' ! tab = dc_tables m ! tab))
     \<and> (dc_page_indexes m' = dc_page_indexes m \<or> dc_tables m' = dc_tables m)
     \<and> tb_size (drb_tab m) \<le> tb_size (drb_tab m')
     \<and> (\<forall>k a. drb_ent m k = Some a \<longrightarrow> drb_ent m' k = Some a)"

text \<open>A step that leaves tables, sizes and the mutex alone.\<close>

definition drb_calm :: "'a drb_shared \<Rightarrow> 'a drb_shared \<Rightarrow> bool" where
  "drb_calm m m' \<longleftrightarrow> dc_tables m' = dc_tables m \<and> dc_page_indexes m' = dc_page_indexes m \<and> dc_mutex m' = dc_mutex m
     \<and> dc_page_index_count m' = dc_page_index_count m"

lemma drb_seen_ext:
  assumes "drb_ext m m'" "drb_seen m k tab" "dc_page_indexes m' = dc_page_indexes m \<or> drb_ent m k \<noteq> None"
  shows "drb_seen m' k tab"
  using assms unfolding drb_ext_def drb_seen_def by (cases "tab = dc_page_indexes m") auto

lemma drb_find_ext:
  assumes "drb_ext m m'" "drb_find_ok m k pc" "\<not> drb_locked pc"
    "dc_page_indexes m' = dc_page_indexes m \<or> drb_ent m k \<noteq> None"
  shows "drb_find_ok m' k pc"
  using assms(2,3) drb_seen_ext[OF assms(1) _ assms(4)] assms(1)
  by (cases pc) (auto simp: drb_ext_def)

lemma drb_find_calm:
  assumes "drb_calm m m'"
  shows "drb_find_ok m' k pc = drb_find_ok m k pc"
  using assms by (cases pc) (simp_all add: drb_calm_def drb_seen_def)

lemma drb_entry_at_seen:
  assumes "drb_mem_ok m" "drb_seen m k tab" "0 \<le> k"
  shows "drb_entry_at tab k m = Inr (drb_ent m k)"
  using assms by (auto simp: drb_seen_def drb_entry_at_def)

lemma drb_ext_refl [simp]: "drb_ext m m"
  by (simp add: drb_ext_def)

text \<open>
  What one step of a thread at \<open>pc\<close>, with result \<open>r\<close>, does beside keeping its own assertion: it is
  calm outside the locked section unless it enters it; inside, it stays there until it unlocks; only
  the store of the pointer changes the pointer; and size and table differ only before this store.
\<close>

definition drb_grows :: "drb_get_pc \<Rightarrow> bool" where
  "drb_grows pc \<longleftrightarrow> (\<exists>tab. pc = GCounted tab)"

definition drb_stepped :: "drb_get_pc \<Rightarrow> drb_get_pc + nat \<Rightarrow> 'a drb_shared \<Rightarrow> 'a drb_shared \<Rightarrow> bool" where
  "drb_stepped pc r m m' \<longleftrightarrow>
     (if drb_locked pc then \<exists>pc'. r = Inl pc' \<and> (drb_locked pc' \<longleftrightarrow> dc_mutex m') \<and> (tb_size (drb_tab m') = dc_page_index_count m' \<or> drb_grows pc')
      else drb_calm m m' \<and> (\<forall>pc'. r = Inl pc' \<longrightarrow> \<not> drb_locked pc')
        \<or> r = Inl GLocked \<and> \<not> dc_mutex m \<and> m' = m\<lparr>dc_mutex := True\<rparr>)
     \<and> (dc_page_indexes m' = dc_page_indexes m \<or> drb_grows pc)"

definition drb_same_slots :: "'a drb_shared \<Rightarrow> 'a drb_shared \<Rightarrow> bool" where
  "drb_same_slots m m' \<longleftrightarrow> dc_post_index m' = dc_post_index m \<and> dc_write_index m' = dc_write_index m
     \<and> (\<forall>i. drb_at m' i = drb_at m i \<or> drb_at m i = None \<and> drb_blank m' i)"

abbreviation drb_result_ok :: "'a drb_shared \<Rightarrow> int \<Rightarrow> drb_get_pc + nat \<Rightarrow> bool" where
  "drb_result_ok m k r \<equiv> (case r of Inl pc \<Rightarrow> drb_find_ok m k pc | Inr a \<Rightarrow> drb_ent m k = Some a)"

lemma drb_stepped_calm:
  "drb_calm m m' \<Longrightarrow> \<not> drb_locked pc \<Longrightarrow> \<forall>pc'. r = Inl pc' \<longrightarrow> \<not> drb_locked pc' \<Longrightarrow> drb_stepped pc r m m'"
  by (simp add: drb_stepped_def drb_calm_def)

lemma drb_calm_refl [simp]: "drb_calm m m"
  by (simp add: drb_calm_def)

lemma drb_same_slots_refl [simp]: "drb_same_slots m m"
  by (simp add: drb_same_slots_def)

lemma drb_ent_None: "drb_mem_ok m \<Longrightarrow> \<not> (0 \<le> k \<and> k < tb_size (drb_tab m)) \<Longrightarrow> drb_ent m k = None"
  by (cases "drb_ent m k") (auto dest: drb_mem_okD(5)[OF _ drb_mem_okD(2)])

lemma drb_ent_Some: "drb_mem_ok m \<Longrightarrow> drb_ent m k \<noteq> None \<Longrightarrow> 0 \<le> k \<and> k < tb_size (drb_tab m)"
  by (rule ccontr) (simp add: drb_ent_None)

text \<open>The steps that read only.\<close>

lemma drb_page_step_reads:
  assumes "drb_mem_ok m" "drb_find_ok m k pc" "0 \<le> k" "\<not> drb_locked pc" "pc \<noteq> GLock"
    and "pc = GCount \<Longrightarrow> tb_size (drb_tab m) = dc_page_index_count m \<or> drb_ent m k \<noteq> None"
  shows "\<exists>r. drb_page_step k pc m = Inr (r, m) \<and> drb_result_ok m k r \<and> drb_stepped pc r m m"
proof -
  have e: "0 \<le> k \<and> k < tb_size (drb_tab m)" if "drb_ent m k \<noteq> None"
    by (rule drb_ent_Some[OF assms(1) that])
  show ?thesis
  proof (cases pc)
    case GCount
    have "k < tb_size (drb_tab m)" if "k < dc_page_index_count m" using assms(6)[OF GCount] e that by auto
    then show ?thesis using GCount drb_mem_okD(1)[OF assms(1)] by (auto intro!: drb_stepped_calm)
  next
    case GTable
    then show ?thesis using assms(1-3) drb_mem_okD(2)[OF assms(1)] by (auto simp: drb_seen_def intro!: drb_stepped_calm)
  next
    case (GEntry tab)
    then show ?thesis using assms drb_entry_at_seen[OF assms(1) _ assms(3), of tab] by (auto intro!: drb_stepped_calm)
  next
    case GReload
    then show ?thesis using assms e drb_mem_okD(2)[OF assms(1)] by (auto simp: drb_seen_def intro!: drb_stepped_calm)
  next
    case (GLast tab)
    then show ?thesis using assms drb_entry_at_seen[OF assms(1) _ assms(3), of tab] by (auto intro!: drb_stepped_calm)
  qed (use assms in simp_all)
qed

text \<open>The locked section.\<close>

lemma drb_step_grow:
  assumes mem: "drb_mem_ok m" and f: "drb_find_ok m k GLocked" and k: "0 \<le> k" "k \<le> dc_page_index_count m"
  shows "\<exists>r m'. drb_page_step k GLocked m = Inr (r, m') \<and> drb_mem_ok m' \<and> drb_ext m m' \<and> drb_result_ok m' k r
    \<and> drb_same_slots m m' \<and> drb_stepped GLocked r m m'"
proof (cases "k < dc_page_index_count m")
  case True
  then show ?thesis using f mem by (auto simp: drb_stepped_def)
next
  case False
  let ?c = "dc_page_index_count m" and ?n = "length (dc_tables m)"
  note d = drb_mem_okD[OF mem]
  have c: "k = ?c" "0 < ?c" "tb_size (drb_tab m) = ?c" "dc_mutex m" using False k d(3,4) f by simp_all
  have ext: "drb_extend k (push_bit 1 ?c) = Some (?c * 2)"
    using drb_extend_value[of k "?c * 2" 0] c by (simp add: push_bit_eq_mult)
  let ?new = "\<lparr>tb_size = ?c * 2, tb_entry = tb_entry (drb_tab m)\<rparr>"
  let ?m = "m\<lparr>dc_tables := dc_tables m @ [?new]\<rparr>"
  have lt: "j < ?c * 2" if "j < ?c" for j using that c(2) by linarith
  have new: "(\<lambda>j. if j < ?c then drb_ent m j else None) = tb_entry (drb_tab m)"
    using drb_ent_None[OF mem] c by (auto simp: fun_eq_iff)
  have "drb_page_step k GLocked m = Inr (Inl (GGrown (?c * 2) ?n), ?m)"
    using c ext new by (simp add: Let_def)
  moreover have ent: "drb_tab ?m = drb_tab m" using d(2) by (simp add: nth_append)
  moreover have "drb_mem_ok ?m"
    using mem c d(5)[OF d(2)] unfolding drb_mem_ok_def ent by (auto simp: nth_append less_Suc_eq intro: lt)
  moreover have "drb_ext m ?m" unfolding drb_ext_def ent by (simp add: nth_append)
  moreover have "drb_same_slots m ?m" unfolding drb_same_slots_def drb_at_def drb_pidx_def drb_off_def ent by simp
  moreover have "drb_stepped GLocked (Inl (GGrown (?c * 2) ?n)) m ?m" using c unfolding drb_stepped_def ent by simp
  ultimately show ?thesis using c by (intro exI[of _ "Inl (GGrown (?c * 2) ?n)"] exI[of _ ?m]) simp
qed

lemma drb_step_fill:
  assumes mem: "drb_mem_ok m" and f: "drb_find_ok m k GFill" and k: "0 \<le> k"
  shows "\<exists>r m'. drb_page_step k GFill m = Inr (r, m') \<and> drb_mem_ok m' \<and> drb_ext m m' \<and> drb_result_ok m' k r
    \<and> drb_same_slots m m' \<and> drb_stepped GFill r m m'"
proof -
  note d = drb_mem_okD[OF mem]
  have g: "dc_mutex m" "tb_size (drb_tab m) = dc_page_index_count m" "k < tb_size (drb_tab m)" using f by simp_all
  have at: "drb_entry_at (dc_page_indexes m) k m = Inr (drb_ent m k)"
    using drb_entry_at_seen[OF mem _ k, of "dc_page_indexes m"] g d(2) by (simp add: drb_seen_def)
  show ?thesis
  proof (cases "drb_ent m k")
    case (Some a)
    then show ?thesis using at g mem by (simp add: drb_stepped_def)
  next
    case None
    let ?n = "length (dc_pages m)"
    let ?tab = "(drb_tab m)\<lparr>tb_entry := (tb_entry (drb_tab m))(k \<mapsto> ?n)\<rparr>"
    let ?m = "m\<lparr>dc_pages := dc_pages m @ [\<lambda>_. \<lparr>dm_msg = dc_zero m, dm_flag = 0\<rparr>],
               dc_tables := (dc_tables m)[dc_page_indexes m := ?tab]\<rparr>"
    have tab: "drb_tab ?m = ?tab" using d(2) by simp
    have old: "a < ?n" if "drb_ent m j = Some a" for j a using d(5)[OF d(2) that] by simp
    have ent: "drb_ent ?m j = (if j = k then Some ?n else drb_ent m j)" for j using d(2) by simp
    have "drb_page_step k GFill m = Inr (Inl GUnlock, ?m)" using at None by (simp add: Let_def)
    moreover have "drb_mem_ok ?m"
      unfolding drb_mem_ok_def
    proof (intro conjI allI impI)
      fix t j a
      assume t: "t < length (dc_tables ?m)" "tb_entry (dc_tables ?m ! t) j = Some a"
      then have "0 \<le> j \<and> j < tb_size (dc_tables m ! t) \<and> (a < ?n \<or> a = ?n)"
        using d(5)[of t j a] g k by (cases "t = dc_page_indexes m") (auto split: if_splits)
      then show "0 \<le> j" "j < tb_size (dc_tables ?m ! t)" "a < length (dc_pages ?m)"
        using t(1) by (cases "t = dc_page_indexes m"; auto)+
    next
      fix j j' a assume "drb_ent ?m j = Some a \<and> drb_ent ?m j' = Some a"
      then show "j = j'" unfolding ent using d(6)[of j a j'] old by (auto split: if_splits)
    qed (use d(1-4) tab in simp_all)
    moreover have "drb_ext m ?m"
      unfolding drb_ext_def ent using None d(2) by (auto simp: nth_list_update)
    moreover have "drb_same_slots m ?m"
      unfolding drb_same_slots_def
    proof (intro conjI allI)
      fix i
      show "drb_at ?m i = drb_at m i \<or> drb_at m i = None \<and> drb_blank ?m i"
        using None old[of "drb_pidx m i"] unfolding drb_at_def drb_blank_def ent
        by (cases "drb_ent m (drb_pidx m i)") (auto simp: drb_pidx_def drb_off_def nth_append)
    qed simp_all
    moreover have "drb_stepped GFill (Inl GUnlock) m ?m" using g unfolding drb_stepped_def tab by simp
    moreover have "drb_find_ok ?m k GUnlock" using g d(2) by simp
    ultimately show ?thesis by (intro exI[of _ "Inl GUnlock"] exI[of _ ?m] conjI) simp_all
  qed
qed

lemma drb_page_step_ok:
  assumes mem: "drb_mem_ok m" and f: "drb_find_ok m k pc" and k: "0 \<le> k" "k \<le> dc_page_index_count m"
    and count: "pc = GCount \<Longrightarrow> tb_size (drb_tab m) = dc_page_index_count m \<or> drb_ent m k \<noteq> None"
    and lock: "pc = GLock \<Longrightarrow> \<not> dc_mutex m \<Longrightarrow> tb_size (drb_tab m) = dc_page_index_count m"
  shows "\<exists>r m'. drb_page_step k pc m = Inr (r, m') \<and> drb_mem_ok m' \<and> drb_ext m m' \<and> drb_result_ok m' k r
    \<and> drb_same_slots m m' \<and> drb_stepped pc r m m'"
proof -
  note d = drb_mem_okD[OF mem]
  have same: "drb_at (m\<lparr>dc_mutex := b\<rparr>) i = drb_at m i" "drb_at (m\<lparr>dc_page_index_count := c\<rparr>) i = drb_at m i"
    for b c i by (simp_all add: drb_at_def drb_pidx_def drb_off_def)
  show ?thesis
  proof (cases pc)
    case GLock
    have "drb_mem_ok (m\<lparr>dc_mutex := True\<rparr>)" using mem by (simp add: drb_mem_ok_def)
    then show ?thesis using GLock mem lock same
      by (cases "dc_mutex m") (simp_all add: drb_stepped_def drb_ext_def drb_same_slots_def)
  next
    case GLocked
    then show ?thesis using drb_step_grow[OF mem] f k by simp
  next
    case (GGrown e tab)
    have "drb_mem_ok (m\<lparr>dc_page_index_count := e\<rparr>)" using mem f GGrown by (auto simp: drb_mem_ok_def)
    then show ?thesis using GGrown f same
      by (simp add: drb_stepped_def drb_ext_def drb_same_slots_def drb_grows_def)
  next
    case (GCounted tab)
    have t: "dc_mutex m" "k < dc_page_index_count m" "tab < length (dc_tables m)"
      "dc_tables m ! tab = \<lparr>tb_size = dc_page_index_count m, tb_entry = tb_entry (drb_tab m)\<rparr>"
      using f GCounted by simp_all
    have "drb_mem_ok (m\<lparr>dc_page_indexes := tab\<rparr>)" using mem t k by (auto simp: drb_mem_ok_def)
    then show ?thesis using GCounted t d(4)
      by (simp add: drb_stepped_def drb_ext_def drb_same_slots_def drb_grows_def drb_at_def drb_pidx_def drb_off_def)
  next
    case GFill
    then show ?thesis using drb_step_fill[OF mem] f k by simp
  next
    case GUnlock
    have "drb_mem_ok (m\<lparr>dc_mutex := False\<rparr>)" using mem by (simp add: drb_mem_ok_def)
    then show ?thesis using GUnlock f same by (simp add: drb_stepped_def drb_ext_def drb_same_slots_def)
  qed (use drb_page_step_reads[OF mem f k(1) _ _ count] mem in \<open>auto\<close>)
qed

section \<open>Loads and stores of slots\<close>

lemma drb_slot_ok_at:
  assumes "drb_mem_ok m" "drb_ent m (drb_pidx m i) = Some a"
  shows "drb_slot_ok a (drb_off m i) m = Inr ()"
  using drb_mem_okD(5)[OF assms(1) drb_mem_okD(2)[OF assms(1)] assms(2)]
  by (simp add: drb_slot_ok_def drb_coord push_bit_eq_mult)

lemma drb_load_ok:
  assumes "drb_mem_ok m" "drb_ent m (drb_pidx m i) = Some a"
  shows "\<exists>s. drb_load a (drb_off m i) m = Inr s \<and> drb_at m i = Some s"
  using assms by (simp add: drb_load_def drb_slot_ok_at drb_at_def)

lemma drb_store_ok:
  assumes mem: "drb_mem_ok m" and a: "drb_ent m (drb_pidx m i) = Some a"
  shows "\<exists>m'. drb_store a (drb_off m i) f m = Inr m' \<and> drb_mem_ok m' \<and> drb_calm m m' \<and> drb_ext m m'
    \<and> dc_post_index m' = dc_post_index m \<and> dc_write_index m' = dc_write_index m
    \<and> drb_at m' i = map_option f (drb_at m i) \<and> (\<forall>j. j \<noteq> i \<longrightarrow> drb_at m' j = drb_at m j)"
proof -
  let ?m = "m\<lparr>dc_pages := (dc_pages m)[a := (dc_pages m ! a)(drb_off m i := f ((dc_pages m ! a) (drb_off m i)))]\<rparr>"
  have len: "a < length (dc_pages m)" using drb_mem_okD(5)[OF mem drb_mem_okD(2)[OF mem] a] by simp
  have "drb_store a (drb_off m i) f m = Inr ?m" using drb_slot_ok_at[OF assms] by (simp add: drb_store_def)
  moreover have "drb_at ?m j = (if j = i then map_option f (drb_at m i) else drb_at m j)" for j
    using a len drb_coord_eq[of j i m] drb_mem_okD(6)[OF mem _ a, of "drb_pidx m j"]
    by (cases "drb_ent m (drb_pidx m j)") (auto simp: drb_at_def drb_pidx_def drb_off_def nth_list_update)
  ultimately show ?thesis using mem
    by (intro exI[of _ ?m]) (simp add: drb_calm_def drb_ext_def drb_mem_ok_def)
qed

section \<open>Local assertions of push and get\<close>

fun drb_holds :: "'a drb_producer \<Rightarrow> int option" where
  "drb_holds (DFind msg i pc) = Some i"
| "drb_holds (DPage msg i page) = Some i"
| "drb_holds (DStored msg i page) = Some i"
| "drb_holds (DFlagged msg i) = Some i"
| "drb_holds _ = None"

definition drb_held :: "'a list \<Rightarrow> 'a \<Rightarrow> int \<Rightarrow> bool" where
  "drb_held sent msg i \<longleftrightarrow> 0 \<le> i \<and> nat i < length sent \<and> sent ! nat i = msg"

definition drb_done :: "'a drb_shared \<Rightarrow> 'a list \<Rightarrow> int \<Rightarrow> bool" where
  "drb_done m sent i \<longleftrightarrow> drb_at m i = Some \<lparr>dm_msg = sent ! nat i, dm_flag = 1\<rparr>"

fun drb_prod_ok :: "'a drb_shared \<Rightarrow> 'a list \<Rightarrow> 'a drb_producer \<Rightarrow> bool" where
  "drb_prod_ok m sent (DFind msg i pc) \<longleftrightarrow>
     drb_held sent msg i \<and> drb_blank m i \<and> drb_find_ok m (drb_pidx m i) pc \<and> drb_pidx m i \<le> dc_page_index_count m"
| "drb_prod_ok m sent (DPage msg i page) \<longleftrightarrow>
     drb_held sent msg i \<and> drb_blank m i \<and> drb_ent m (drb_pidx m i) = Some page"
| "drb_prod_ok m sent (DStored msg i page) \<longleftrightarrow> drb_held sent msg i
     \<and> drb_at m i = Some \<lparr>dm_msg = msg, dm_flag = 0\<rparr> \<and> drb_ent m (drb_pidx m i) = Some page"
| "drb_prod_ok m sent (DFlagged msg i) \<longleftrightarrow> drb_held sent msg i \<and> drb_done m sent i"
| "drb_prod_ok m sent _ \<longleftrightarrow> True"

text \<open>\<open>single\<close>: there is at most one producer, and a reader finds its page without the lock.\<close>

definition drb_asked :: "'a drb_shared \<Rightarrow> int \<Rightarrow> int \<Rightarrow> bool" where
  "drb_asked m pos w \<longleftrightarrow> 0 \<le> pos \<and> pos < w \<and> w \<le> dc_write_index m"

fun drb_read_ok :: "bool \<Rightarrow> 'a drb_shared \<Rightarrow> 'a list \<Rightarrow> drb_reader \<Rightarrow> bool" where
  "drb_read_ok single m sent RIdle \<longleftrightarrow> True"
| "drb_read_ok single m sent (RCall pos) \<longleftrightarrow> 0 \<le> pos"
| "drb_read_ok single m sent (RFind pos w pc) \<longleftrightarrow> drb_asked m pos w \<and> drb_find_ok m (drb_pidx m pos) pc
     \<and> drb_pidx m pos \<le> dc_page_index_count m \<and> (single \<longrightarrow> \<not> drb_locked pc \<and> pc \<noteq> GLock)"
| "drb_read_ok single m sent (RPage pos w page) \<longleftrightarrow> drb_asked m pos w \<and> drb_ent m (drb_pidx m pos) = Some page"
| "drb_read_ok single m sent (RFlag pos w page) \<longleftrightarrow>
     drb_asked m pos w \<and> drb_ent m (drb_pidx m pos) = Some page \<and> drb_done m sent pos"

text \<open>Interference: the assertions survive a step of another thread.\<close>

definition drb_grown :: "'a list \<Rightarrow> 'a list \<Rightarrow> bool" where
  "drb_grown sent sent' \<longleftrightarrow> length sent \<le> length sent' \<and> (\<forall>i<length sent. sent' ! i = sent ! i)"

lemma drb_grown_simps [simp]: "drb_grown sent sent" "drb_grown sent (sent @ xs)"
  by (simp_all add: drb_grown_def nth_append)

definition drb_undisturbed :: "'a drb_shared \<Rightarrow> 'a drb_shared \<Rightarrow> int \<Rightarrow> drb_get_pc \<Rightarrow> bool" where
  "drb_undisturbed m m' k pc \<longleftrightarrow> drb_calm m m'
     \<or> \<not> drb_locked pc \<and> (dc_page_indexes m' = dc_page_indexes m \<or> drb_ent m k \<noteq> None)"

lemma drb_find_undisturbed:
  "drb_ext m m' \<Longrightarrow> drb_undisturbed m m' k pc \<Longrightarrow> drb_find_ok m k pc \<Longrightarrow> drb_find_ok m' k pc"
  using drb_find_ext[of m m' k pc] drb_find_calm[of m m' k pc] by (auto simp: drb_undisturbed_def)

lemma drb_ext_ent: "drb_ext m m' \<Longrightarrow> drb_ent m k = Some a \<Longrightarrow> drb_ent m' k = Some a"
  by (simp add: drb_ext_def)

lemma drb_ext_simps:
  assumes "drb_ext m m'"
  shows "drb_pidx m' = drb_pidx m" "drb_off m' = drb_off m" "dc_page_index_count m \<le> dc_page_index_count m'"
  using assms by (simp_all add: drb_ext_def drb_pidx_def drb_off_def fun_eq_iff)

lemma drb_prod_env:
  assumes ok: "drb_prod_ok m sent p" and ext: "drb_ext m m'" and sent: "drb_grown sent sent'"
    and slot: "\<And>i. drb_holds p = Some i \<Longrightarrow> drb_at m' i = drb_at m i \<or> drb_at m i = None \<and> drb_blank m' i"
    and find: "\<And>msg i pc. p = DFind msg i pc \<Longrightarrow> drb_undisturbed m m' (drb_pidx m i) pc"
  shows "drb_prod_ok m' sent' p"
proof -
  note e = drb_ext_simps[OF ext]
  have held: "drb_held sent' msg i \<and> sent' ! nat i = sent ! nat i" if "drb_held sent msg i" for msg i
    using that sent by (auto simp: drb_held_def drb_grown_def)
  have blank: "drb_blank m' i" if "drb_blank m i" "drb_holds p = Some i" for i
    using slot[OF that(2)] that(1) by (auto simp: drb_blank_def)
  show ?thesis
  proof (cases p)
    case (DFind msg i pc)
    then show ?thesis using ok held blank drb_find_undisturbed[OF ext find[OF DFind]] e by auto
  next
    case (DPage msg i page)
    then show ?thesis using ok held blank drb_ext_ent[OF ext] e by auto
  next
    case (DStored msg i page)
    then show ?thesis using ok held slot[of i] drb_ext_ent[OF ext] e by auto
  next
    case (DFlagged msg i)
    then show ?thesis using ok held slot[of i] by (auto simp: drb_done_def)
  qed simp_all
qed

lemma drb_read_env:
  assumes ok: "drb_read_ok single m sent r" and ext: "drb_ext m m'" and sent: "drb_grown sent sent'"
    and wr: "dc_write_index m \<le> dc_write_index m'"
    and slot: "\<And>pos w page. r = RFlag pos w page \<Longrightarrow> drb_done m sent pos \<Longrightarrow> drb_at m' pos = drb_at m pos \<and> nat pos < length sent"
    and find: "\<And>pos w pc. r = RFind pos w pc \<Longrightarrow> drb_undisturbed m m' (drb_pidx m pos) pc"
  shows "drb_read_ok single m' sent' r"
proof -
  note e = drb_ext_simps[OF ext]
  have asked: "drb_asked m' pos w" if "drb_asked m pos w" for pos w
    using that wr by (simp add: drb_asked_def)
  show ?thesis
  proof (cases r)
    case (RFind pos w pc)
    then show ?thesis using ok asked drb_find_undisturbed[OF ext find[OF RFind]] e by auto
  next
    case (RPage pos w page)
    then show ?thesis using ok asked drb_ext_ent[OF ext] e by auto
  next
    case (RFlag pos w page)
    then show ?thesis using ok asked drb_ext_ent[OF ext] e slot[OF RFlag] sent
      by (auto simp: drb_done_def drb_grown_def)
  qed (use ok in simp_all)
qed

end
