(* ===== verification/Drb_Concurrent_Inv.thy ===== *)
theory Drb_Concurrent_Inv
  imports Drb_Concurrent
begin

text \<open>
  The invariant of the concurrent \<open>drb_queue\<close>: who holds the mutex, what each thread knows where it
  is, which indices are handed out, stored and readable; every step keeps it.  Last, what it gives
  for \<open>get\<close> and \<open>push\<close> in any interleaving, and what goes wrong outside its conditions.
\<close>

section \<open>The mutex\<close>

text \<open>
  Of the threads in \<open>get_msg_page\<close> at most one is in the locked section; size and table differ only
  while it is about to store the pointer; and if there are several producers none ever extends the
  table.
\<close>

definition drb_growing :: "drb_get_pc \<Rightarrow> bool" where
  "drb_growing pc \<longleftrightarrow> drb_grows pc \<or> (\<exists>e tab. pc = GGrown e tab)"

definition drb_lock_inv :: "bool \<Rightarrow> ('x \<Rightarrow> drb_get_pc option) \<Rightarrow> 'a drb_shared \<Rightarrow> bool" where
  "drb_lock_inv single pcs m \<longleftrightarrow>
     (\<forall>x pc. pcs x = Some pc \<and> drb_locked pc \<longrightarrow> dc_mutex m)
     \<and> (\<forall>x y pc pc'. pcs x = Some pc \<and> pcs y = Some pc' \<and> drb_locked pc \<and> drb_locked pc' \<longrightarrow> x = y)
     \<and> (tb_size (drb_tab m) = dc_page_index_count m \<or> (\<exists>x pc. pcs x = Some pc \<and> drb_grows pc))
     \<and> (\<not> single \<longrightarrow> (\<forall>x pc. pcs x = Some pc \<longrightarrow> \<not> drb_growing pc))"

lemma drb_grows_locked: "drb_grows pc \<Longrightarrow> drb_locked pc"
  by (auto simp: drb_grows_def)

lemma drb_lock_invD:
  assumes "drb_lock_inv single pcs m"
  shows "\<And>x pc. pcs x = Some pc \<Longrightarrow> drb_locked pc \<Longrightarrow> dc_mutex m"
    "\<And>x y pc pc'. pcs x = Some pc \<Longrightarrow> pcs y = Some pc' \<Longrightarrow> drb_locked pc \<Longrightarrow> drb_locked pc' \<Longrightarrow> x = y"
    "tb_size (drb_tab m) = dc_page_index_count m \<or> (\<exists>x pc. pcs x = Some pc \<and> drb_grows pc)"
    "\<And>x pc. \<not> single \<Longrightarrow> pcs x = Some pc \<Longrightarrow> \<not> drb_growing pc"
  using assms unfolding drb_lock_inv_def by blast+

lemma drb_lock_calm:
  "drb_calm m m' \<Longrightarrow> drb_lock_inv single pcs m' = drb_lock_inv single pcs m"
  by (simp add: drb_lock_inv_def drb_calm_def)

text \<open>A thread outside the locked section that stays outside, or comes or goes.\<close>

lemma drb_lock_outside:
  assumes inv: "drb_lock_inv single pcs m" and old: "\<forall>pc. pcs x = Some pc \<longrightarrow> \<not> drb_locked pc"
    and new: "\<forall>pc. p = Some pc \<longrightarrow> \<not> drb_locked pc \<and> \<not> drb_growing pc"
  shows "drb_lock_inv single (pcs(x := p)) m"
  unfolding drb_lock_inv_def
proof (intro conjI)
  show "tb_size (drb_tab m) = dc_page_index_count m \<or> (\<exists>y pc. (pcs(x := p)) y = Some pc \<and> drb_grows pc)"
    using drb_lock_invD(3)[OF inv]
  proof (elim disjE exE conjE)
    fix y pc assume "pcs y = Some pc" "drb_grows pc"
    moreover from this have "y \<noteq> x" using old drb_grows_locked by auto
    ultimately show ?thesis by auto
  qed simp
qed (use new drb_lock_invD(1,2,4)[OF inv] in \<open>auto split: if_splits\<close>)

lemma drb_lock_step:
  assumes inv: "drb_lock_inv single pcs m" and pc: "pcs x = Some pc" and step: "drb_stepped pc r m m'"
    and grow: "\<not> single \<Longrightarrow> \<forall>pc'. r = Inl pc' \<longrightarrow> \<not> drb_growing pc'"
  shows "drb_lock_inv single (pcs(x := case r of Inl pc' \<Rightarrow> Some pc' | Inr page \<Rightarrow> None)) m'"
proof (cases "drb_locked pc")
  case True
  then obtain pc' where r: "r = Inl pc'" "drb_locked pc' \<longleftrightarrow> dc_mutex m'"
    "tb_size (drb_tab m') = dc_page_index_count m' \<or> drb_grows pc'"
    using step by (auto simp: drb_stepped_def)
  have others: "\<not> drb_locked pcy" if "pcs y = Some pcy" "y \<noteq> x" for y pcy
    using drb_lock_invD(2)[OF inv that(1) pc _ True] that(2) by blast
  show ?thesis
    unfolding drb_lock_inv_def
  proof (intro conjI)
    show "tb_size (drb_tab m') = dc_page_index_count m'
      \<or> (\<exists>y pcy. (pcs(x := case r of Inl pc' \<Rightarrow> Some pc' | Inr page \<Rightarrow> None)) y = Some pcy \<and> drb_grows pcy)"
      using r(1,3) by auto
  qed (use r others grow drb_lock_invD(4)[OF inv] in \<open>auto split: if_splits\<close>)
next
  case False
  then consider (calm) "drb_calm m m'" "\<forall>pc'. r = Inl pc' \<longrightarrow> \<not> drb_locked pc'"
    | (acquire) "r = Inl GLocked" "\<not> dc_mutex m" "m' = m\<lparr>dc_mutex := True\<rparr>"
    using step by (auto simp: drb_stepped_def)
  then show ?thesis
  proof cases
    case calm
    have "drb_lock_inv single (pcs(x := case r of Inl pc' \<Rightarrow> Some pc' | Inr page \<Rightarrow> None)) m"
      by (rule drb_lock_outside[OF inv]) (use False pc calm(2) grow in \<open>auto simp: drb_growing_def drb_grows_def split: sum.splits\<close>)
    then show ?thesis by (simp only: drb_lock_calm[OF calm(1)])
  next
    case acquire
    have none: "\<not> drb_locked pcy" if "pcs y = Some pcy" for y pcy
      using drb_lock_invD(1)[OF inv that] acquire(2) by blast
    then have "tb_size (drb_tab m) = dc_page_index_count m" using drb_lock_invD(3)[OF inv] drb_grows_locked by blast
    then show ?thesis
      using acquire none drb_lock_invD(4)[OF inv] unfolding drb_lock_inv_def
      by (auto simp: drb_growing_def drb_grows_def split: if_splits)
  qed
qed

text \<open>What the step of one thread in \<open>get_msg_page\<close> does to another one there.\<close>

lemma drb_step_undisturbed:
  assumes inv: "drb_lock_inv single pcs m" and pc: "pcs x = Some pc" and step: "drb_stepped pc r m m'"
    and y: "pcs y = Some pcy" "y \<noteq> x" and grow: "drb_grows pc \<Longrightarrow> drb_ent m k \<noteq> None"
  shows "drb_undisturbed m m' k pcy"
proof (cases "drb_locked pc")
  case True
  then have "\<not> drb_locked pcy" using drb_lock_invD(2)[OF inv pc y(1)] y(2) by blast
  then show ?thesis using step grow by (auto simp: drb_stepped_def drb_undisturbed_def)
next
  case False
  then consider "drb_calm m m'" | "\<not> dc_mutex m" "m' = m\<lparr>dc_mutex := True\<rparr>"
    using step by (auto simp: drb_stepped_def)
  then show ?thesis
    using drb_lock_invD(1)[OF inv y(1)] by cases (auto simp: drb_undisturbed_def)
qed

lemma drb_page_step_growing:
  assumes "drb_page_step k pc m = Inr (r, m')"
  shows "r = Inl pc' \<Longrightarrow> drb_growing pc' \<Longrightarrow> drb_growing pc \<or> dc_page_index_count m \<le> k"
    "\<not> drb_growing pc \<Longrightarrow> dc_page_index_count m' = dc_page_index_count m"
  using assms by (cases pc; auto simp: drb_growing_def drb_grows_def obind_eq_Inr Let_def split: if_splits option.splits)+

section \<open>The invariant of the system\<close>

fun drb_ppc :: "'a drb_producer \<Rightarrow> drb_get_pc option" where
  "drb_ppc (DFind msg i pc) = Some pc"
| "drb_ppc _ = None"

fun drb_rpc :: "drb_reader \<Rightarrow> drb_get_pc option" where
  "drb_rpc (RFind pos w pc) = Some pc"
| "drb_rpc _ = None"

definition drb_pcs :: "'a drb_sys \<Rightarrow> nat + nat \<Rightarrow> drb_get_pc option" where
  "drb_pcs st = case_sum (drb_ppc \<circ> ds_prod st) (drb_rpc \<circ> ds_read st)"

lemma drb_pcs_simps [simp]:
  "drb_pcs st (Inl t) = drb_ppc (ds_prod st t)" "drb_pcs st (Inr r) = drb_rpc (ds_read st r)"
  by (simp_all add: drb_pcs_def)

lemma drb_ppc_eq: "drb_ppc p = Some pc \<longleftrightarrow> (\<exists>msg i. p = DFind msg i pc)"
  by (cases p) auto

lemma drb_rpc_eq: "drb_rpc p = Some pc \<longleftrightarrow> (\<exists>pos w. p = RFind pos w pc)"
  by (cases p) auto

text \<open>
  A message sent and not held by a producer on its way is in its slot with the flag set; slots
  beyond the last index are blank; \<open>write_index_\<close> lacks those on their way.
\<close>

definition drb_slots_inv :: "bool \<Rightarrow> 'a drb_shared \<Rightarrow> 'a list \<Rightarrow> (nat \<Rightarrow> int option) \<Rightarrow> bool" where
  "drb_slots_inv single m sent held \<longleftrightarrow> dc_post_index m = int (length sent) \<and> 0 \<le> dc_write_index m
     \<and> dc_write_index m + int (card {t. held t \<noteq> None}) = dc_post_index m
     \<and> (\<forall>i. 0 \<le> i \<and> i < dc_post_index m \<longrightarrow> drb_done m sent i \<or> (\<exists>t. held t = Some i))
     \<and> (\<forall>i. dc_post_index m \<le> i \<longrightarrow> drb_blank m i)
     \<and> (\<forall>t t' i. held t = Some i \<and> held t' = Some i \<longrightarrow> t = t')
     \<and> (single \<longrightarrow> (\<forall>i. 0 \<le> i \<and> i < dc_write_index m \<longrightarrow> drb_done m sent i))"

definition drb_got_ok :: "bool \<Rightarrow> 'a list \<Rightarrow> int \<times> int \<times> 'a option \<Rightarrow> bool" where
  "drb_got_ok single sent = (\<lambda>(pos, w, r). case r of
     None \<Rightarrow> single \<longrightarrow> w \<le> pos
   | Some x \<Rightarrow> 0 \<le> pos \<and> pos < w \<and> nat pos < length sent \<and> x = sent ! nat pos)"

definition drb_sys_inv :: "nat \<Rightarrow> int \<Rightarrow> 'a drb_sys \<Rightarrow> bool" where
  "drb_sys_inv n N st \<longleftrightarrow> drb_mem_ok (ds_mem st)
     \<and> (\<forall>t\<ge>n. ds_prod st t = DIdle)
     \<and> (\<forall>t. drb_prod_ok (ds_mem st) (ds_sent st) (ds_prod st t))
     \<and> (\<forall>r. drb_read_ok (n \<le> 1) (ds_mem st) (ds_sent st) (ds_read st r))
     \<and> drb_slots_inv (n \<le> 1) (ds_mem st) (ds_sent st) (drb_holds \<circ> ds_prod st)
     \<and> drb_lock_inv (n \<le> 1) (drb_pcs st) (ds_mem st)
     \<and> (n \<le> 1 \<or> dc_page_index_count (ds_mem st) = N)
     \<and> (\<forall>g\<in>set (ds_got st). drb_got_ok (n \<le> 1) (ds_sent st) g)"

lemma drb_sys_invD:
  assumes "drb_sys_inv n N st"
  shows "drb_mem_ok (ds_mem st)" "\<And>t. n \<le> t \<Longrightarrow> ds_prod st t = DIdle"
    "\<And>t. drb_prod_ok (ds_mem st) (ds_sent st) (ds_prod st t)"
    "\<And>r. drb_read_ok (n \<le> 1) (ds_mem st) (ds_sent st) (ds_read st r)"
    "drb_slots_inv (n \<le> 1) (ds_mem st) (ds_sent st) (drb_holds \<circ> ds_prod st)"
    "drb_lock_inv (n \<le> 1) (drb_pcs st) (ds_mem st)"
    "n \<le> 1 \<or> dc_page_index_count (ds_mem st) = N"
    "\<And>g. g \<in> set (ds_got st) \<Longrightarrow> drb_got_ok (n \<le> 1) (ds_sent st) g"
  using assms unfolding drb_sys_inv_def by blast+

lemma drb_slots_invD:
  assumes "drb_slots_inv single m sent held"
  shows "dc_post_index m = int (length sent)" "0 \<le> dc_write_index m"
    "dc_write_index m + int (card {t. held t \<noteq> None}) = dc_post_index m" "dc_write_index m \<le> dc_post_index m"
    "\<And>i. 0 \<le> i \<Longrightarrow> i < dc_post_index m \<Longrightarrow> drb_done m sent i \<or> (\<exists>t. held t = Some i)"
    "\<And>i. dc_post_index m \<le> i \<Longrightarrow> drb_blank m i"
    "\<And>t t' i. held t = Some i \<Longrightarrow> held t' = Some i \<Longrightarrow> t = t'"
    "\<And>i. single \<Longrightarrow> 0 \<le> i \<Longrightarrow> i < dc_write_index m \<Longrightarrow> drb_done m sent i"
proof -
  show w: "dc_write_index m + int (card {t. held t \<noteq> None}) = dc_post_index m"
    using assms unfolding drb_slots_inv_def by blast
  show "dc_write_index m \<le> dc_post_index m" using w by linarith
qed (use assms in \<open>unfold drb_slots_inv_def, blast+\<close>)

lemma drb_done_ent: "drb_done m sent i \<Longrightarrow> drb_ent m (drb_pidx m i) \<noteq> None"
  by (auto simp: drb_done_def drb_at_def)

lemma drb_done_page:
  "drb_mem_ok m \<Longrightarrow> drb_done m sent i \<Longrightarrow> drb_pidx m i < tb_size (drb_tab m)"
  using drb_ent_Some[OF _ drb_done_ent] by blast

lemma drb_pidx_nonneg: "0 \<le> i \<Longrightarrow> 0 \<le> drb_pidx m i"
  by (simp add: drb_coord pos_imp_zdiv_nonneg_iff)

lemma drb_pidx_less:
  assumes "i < N * 2 ^ dc_page_msg_bits m"
  shows "drb_pidx m i < N"
proof -
  let ?P = "2 ^ dc_page_msg_bits m :: int"
  have "i div ?P * ?P \<le> i" by (simp add: minus_mod_eq_div_mult [symmetric])
  then have "i div ?P * ?P < N * ?P" using assms by linarith
  then show ?thesis by (simp add: drb_coord mult_less_cancel_right)
qed

lemma drb_pidx_next: "drb_pidx m i < c \<Longrightarrow> drb_pidx m (i + 1) \<le> c"
proof -
  assume "drb_pidx m i < c"
  then have "i div 2 ^ dc_page_msg_bits m + 1 \<le> c" by (simp add: drb_coord)
  moreover have "(i + 1) div 2 ^ dc_page_msg_bits m \<le> i div 2 ^ dc_page_msg_bits m + 1"
  proof -
    have "(i + 1) div 2 ^ dc_page_msg_bits m \<le> (i + 2 ^ dc_page_msg_bits m) div 2 ^ dc_page_msg_bits m"
      by (rule zdiv_mono1) (simp_all add: self_le_power)
    also have "\<dots> = i div 2 ^ dc_page_msg_bits m + 1" by (rule div_add_self2) simp
    finally show ?thesis .
  qed
  ultimately show ?thesis by (simp add: drb_coord)
qed

text \<open>With a single producer the one that extends the table is the producer.\<close>

lemma drb_grower:
  assumes inv: "drb_sys_inv n N st" and x: "drb_pcs st x = Some pc" "drb_grows pc"
  shows "x = Inl 0" "n \<le> 1"
proof -
  note d = drb_sys_invD[OF inv]
  show n: "n \<le> 1" using drb_lock_invD(4)[OF d(6) _ x(1)] x(2) by (auto simp: drb_growing_def)
  show "x = Inl 0"
  proof (cases x)
    case (Inl t)
    then have "\<not> n \<le> t" using x(1) d(2)[of t] by auto
    then show ?thesis using n Inl by simp
  next
    case (Inr r)
    then show ?thesis using x d(4)[of r] n drb_grows_locked by (auto simp: drb_rpc_eq)
  qed
qed

lemma drb_reader_page:
  assumes inv: "drb_sys_inv n N st" and "n \<le> 1" "drb_asked (ds_mem st) pos w"
  shows "drb_done (ds_mem st) (ds_sent st) pos"
  using drb_slots_invD(8)[OF drb_sys_invD(5)[OF inv], of pos] assms(2,3) by (simp add: drb_asked_def)

text \<open>A step of thread \<open>x\<close> in \<open>get_msg_page\<close>, as the others see it.\<close>

lemma drb_sys_find:
  assumes inv: "drb_sys_inv n N st" and x: "drb_pcs st x = Some pc"
    and f: "drb_find_ok (ds_mem st) k pc" and k: "0 \<le> k" "k \<le> dc_page_index_count (ds_mem st)" "n \<le> 1 \<or> k < N"
    and who: "case x of Inl t \<Rightarrow> t < n | Inr r \<Rightarrow> n \<le> 1 \<longrightarrow> drb_ent (ds_mem st) k \<noteq> None"
  shows "\<exists>r m'. drb_page_step k pc (ds_mem st) = Inr (r, m') \<and> drb_mem_ok m' \<and> drb_ext (ds_mem st) m' \<and> drb_result_ok m' k r
    \<and> drb_same_slots (ds_mem st) m' \<and> drb_stepped pc r (ds_mem st) m'
    \<and> drb_lock_inv (n \<le> 1) ((drb_pcs st)(x := case r of Inl pc' \<Rightarrow> Some pc' | Inr page \<Rightarrow> None)) m'
    \<and> (n \<le> 1 \<or> dc_page_index_count m' = N)
    \<and> (\<forall>t. Inl t \<noteq> x \<longrightarrow> drb_prod_ok m' (ds_sent st) (ds_prod st t))
    \<and> (\<forall>r. Inr r \<noteq> x \<longrightarrow> drb_read_ok (n \<le> 1) m' (ds_sent st) (ds_read st r))"
proof -
  let ?m = "ds_mem st"
  note d = drb_sys_invD[OF inv]
  note l = drb_lock_invD[OF d(6)]
  have free: "tb_size (drb_tab ?m) = dc_page_index_count ?m" if "pc = GLock" "\<not> dc_mutex ?m"
    using l(1,3) that drb_grows_locked by blast
  have count: "tb_size (drb_tab ?m) = dc_page_index_count ?m \<or> drb_ent ?m k \<noteq> None" if "pc = GCount"
  proof (cases x)
    case (Inl t)
    have "\<not> drb_grows pcy" if "drb_pcs st y = Some pcy" for y pcy
    proof
      assume g: "drb_grows pcy"
      have "y = x" using drb_grower[OF inv that g] who Inl by simp
      then show False using g that x \<open>pc = GCount\<close> by (simp add: drb_grows_def)
    qed
    then show ?thesis using l(3) by blast
  next
    case (Inr r)
    then show ?thesis using who l(3) drb_grower(2)[OF inv] by auto
  qed
  obtain r m' where s: "drb_page_step k pc ?m = Inr (r, m')" "drb_mem_ok m'" "drb_ext ?m m'" "drb_result_ok m' k r"
    "drb_same_slots ?m m'" "drb_stepped pc r ?m m'"
    using drb_page_step_ok[OF d(1) f k(1,2) count free] by blast
  note g = drb_page_step_growing[OF s(1)]
  have fits: "\<forall>pc'. r = Inl pc' \<longrightarrow> \<not> drb_growing pc'" "dc_page_index_count m' = N" if "\<not> n \<le> 1"
    using g l(4)[OF that x] d(7) k(3) that by auto
  have lock: "drb_lock_inv (n \<le> 1) ((drb_pcs st)(x := case r of Inl pc' \<Rightarrow> Some pc' | Inr page \<Rightarrow> None)) m'"
    by (rule drb_lock_step[OF d(6) x s(6) fits(1)])
  have slot: "drb_at m' i = drb_at ?m i \<or> drb_at ?m i = None \<and> drb_blank m' i" for i
    using s(5) by (simp add: drb_same_slots_def)
  have wr: "dc_write_index m' = dc_write_index ?m" using s(5) by (simp add: drb_same_slots_def)
  have "drb_prod_ok m' (ds_sent st) (ds_prod st t)" if t: "Inl t \<noteq> x" for t
  proof (rule drb_prod_env[OF d(3) s(3) _ slot])
    fix msg i pcy
    assume y: "ds_prod st t = DFind msg i pcy"
    then have "t < n" using d(2)[of t] by (cases "n \<le> t") auto
    then have "\<not> drb_grows pc" using drb_grower[OF inv x] t by auto
    then show "drb_undisturbed ?m m' (drb_pidx ?m i) pcy"
      using drb_step_undisturbed[OF d(6) x s(6), of "Inl t" pcy] y t by auto
  qed simp
  moreover have "drb_read_ok (n \<le> 1) m' (ds_sent st) (ds_read st q)" if q: "Inr q \<noteq> x" for q
  proof (rule drb_read_env[OF d(4) s(3)])
    fix pos w page assume "ds_read st q = RFlag pos w page" "drb_done ?m (ds_sent st) pos"
    then show "drb_at m' pos = drb_at ?m pos \<and> nat pos < length (ds_sent st)"
      using slot[of pos] d(4)[of q] drb_slots_invD(1,4)[OF d(5)] by (auto simp: drb_done_def drb_asked_def)
  next
    fix pos w pcy
    assume y: "ds_read st q = RFind pos w pcy"
    then have "drb_asked ?m pos w" using d(4)[of q] by simp
    then have "drb_ent ?m (drb_pidx ?m pos) \<noteq> None" if "drb_grows pc"
      using drb_done_ent drb_reader_page[OF inv drb_grower(2)[OF inv x that]] by blast
    then show "drb_undisturbed ?m m' (drb_pidx ?m pos) pcy"
      using drb_step_undisturbed[OF d(6) x s(6), of "Inr q" pcy] y q by auto
  qed (simp_all add: wr)
  ultimately show ?thesis using s lock fits(2) by blast
qed

section \<open>Slots and indices\<close>

lemma drb_same_blank: "drb_same_slots m m' \<Longrightarrow> drb_blank m i \<Longrightarrow> drb_blank m' i"
  unfolding drb_same_slots_def by (metis drb_blank_def)

lemma drb_slots_same:
  assumes inv: "drb_slots_inv single m sent held" and same: "drb_same_slots m m'"
  shows "drb_slots_inv single m' sent held"
proof -
  have slot: "drb_at m' i = drb_at m i \<or> drb_at m i = None \<and> drb_blank m' i" for i
    using same by (simp add: drb_same_slots_def)
  have dn: "drb_done m' sent i" if "drb_done m sent i" for i using slot[of i] that by (auto simp: drb_done_def)
  have blank: "drb_blank m' i" if "drb_blank m i" for i using slot[of i] that by (auto simp: drb_blank_def)
  have idx: "dc_post_index m' = dc_post_index m" "dc_write_index m' = dc_write_index m"
    using same by (simp_all add: drb_same_slots_def)
  note d = drb_slots_invD[OF inv]
  show ?thesis
    unfolding drb_slots_inv_def idx
  proof (intro conjI allI impI)
    fix i assume "0 \<le> i \<and> i < dc_post_index m"
    then show "drb_done m' sent i \<or> (\<exists>t. held t = Some i)" using d(5)[of i] dn by blast
  qed (use d dn blank in \<open>blast+\<close>)
qed

lemma drb_done_append: "nat i < length sent \<Longrightarrow> drb_done m (sent @ xs) i = drb_done m sent i"
  by (simp add: drb_done_def nth_append)

lemma drb_card_held:
  assumes "finite {t. held t \<noteq> None}" "held t = None"
  shows "card {u. (held(t := Some i)) u \<noteq> None} = Suc (card {u. held u \<noteq> None})"
proof -
  have "{u. (held(t := Some i)) u \<noteq> None} = insert t {u. held u \<noteq> None}" by auto
  then show ?thesis using assms by simp
qed

lemma drb_at_index [simp]:
  "drb_at (m\<lparr>dc_post_index := p\<rparr>) = drb_at m" "drb_at (m\<lparr>dc_write_index := w\<rparr>) = drb_at m"
  "drb_done (m\<lparr>dc_post_index := p\<rparr>) = drb_done m" "drb_done (m\<lparr>dc_write_index := w\<rparr>) = drb_done m"
  "drb_blank (m\<lparr>dc_post_index := p\<rparr>) = drb_blank m" "drb_blank (m\<lparr>dc_write_index := w\<rparr>) = drb_blank m"
  by (simp_all add: fun_eq_iff drb_at_def drb_pidx_def drb_off_def drb_done_def drb_blank_def)

lemma drb_slots_call:
  assumes inv: "drb_slots_inv single m sent held" and t: "held t = None" "finite {u. held u \<noteq> None}"
    and below: "\<And>u i. held u = Some i \<Longrightarrow> i < dc_post_index m"
  shows "drb_slots_inv single (m\<lparr>dc_post_index := dc_post_index m + 1\<rparr>) (sent @ [msg]) (held(t := Some (dc_post_index m)))"
proof -
  note d = drb_slots_invD[OF inv]
  have old: "drb_done m (sent @ [msg]) i = drb_done m sent i" if "0 \<le> i" "i < dc_post_index m" for i
    by (rule drb_done_append) (use that d(1) in linarith)
  show ?thesis
    unfolding drb_slots_inv_def
  proof (intro conjI allI impI)
    fix i
    assume i: "0 \<le> i \<and> i < dc_post_index (m\<lparr>dc_post_index := dc_post_index m + 1\<rparr>)"
    show "drb_done (m\<lparr>dc_post_index := dc_post_index m + 1\<rparr>) (sent @ [msg]) i
      \<or> (\<exists>u. (held(t := Some (dc_post_index m))) u = Some i)"
    proof (cases "i = dc_post_index m")
      case False
      then have "drb_done m sent i \<or> (\<exists>u. held u = Some i)" "i < dc_post_index m" using i d(5)[of i] by auto
      moreover have "u \<noteq> t" if "held u = Some i" for u using that t(1) by auto
      ultimately show ?thesis using old[of i] i by auto
    qed auto
  next
    fix u u' i assume "(held(t := Some (dc_post_index m))) u = Some i \<and> (held(t := Some (dc_post_index m))) u' = Some i"
    then show "u = u'" using d(7)[of u i u'] below[of u i] below[of u' i] by (auto split: if_splits)
  qed (use d old drb_card_held[OF t(2,1)] in auto)
qed

lemma drb_slots_store:
  assumes inv: "drb_slots_inv single m sent held" and i: "held t = Some i" "i < dc_post_index m" "\<not> drb_done m sent i"
    and same: "dc_post_index m' = dc_post_index m" "dc_write_index m' = dc_write_index m"
      "\<And>j. j \<noteq> i \<Longrightarrow> drb_at m' j = drb_at m j"
  shows "drb_slots_inv single m' sent held"
proof -
  note d = drb_slots_invD[OF inv]
  have other: "drb_done m' sent j" if "drb_done m sent j" for j
    using that i(3) same(3)[of j] by (cases "j = i") (auto simp: drb_done_def)
  have blank: "drb_blank m' j" if "dc_post_index m \<le> j" for j
    using d(6)[OF that] same(3)[of j] i(2) that by (simp add: drb_blank_def)
  show ?thesis
    unfolding drb_slots_inv_def same
  proof (intro conjI allI impI)
    fix j assume "0 \<le> j \<and> j < dc_post_index m"
    then show "drb_done m' sent j \<or> (\<exists>u. held u = Some j)" using d(5)[of j] other by blast
  qed (use d other blank in \<open>blast+\<close>)
qed

lemma drb_slots_flagged:
  assumes inv: "drb_slots_inv single m sent held" and t: "held t = Some i" "finite {u. held u \<noteq> None}" "drb_done m sent i"
    and single: "\<And>u. single \<Longrightarrow> held u \<noteq> None \<Longrightarrow> u = t"
  shows "drb_slots_inv single (m\<lparr>dc_write_index := dc_write_index m + 1\<rparr>) sent (held(t := None))"
proof -
  note d = drb_slots_invD[OF inv]
  have card: "card {u. held u \<noteq> None} = Suc (card {u. (held(t := None)) u \<noteq> None})"
  proof -
    have "{u. held u \<noteq> None} = insert t {u. (held(t := None)) u \<noteq> None}" using t(1) by auto
    moreover have "finite {u. (held(t := None)) u \<noteq> None}" by (rule finite_subset[OF _ t(2)]) auto
    ultimately show ?thesis by simp
  qed
  have all: "drb_done m sent j" if "single" "0 \<le> j" "j < dc_write_index m + 1" for j
  proof -
    have "j < dc_post_index m" using that(3) d(3) card by simp
    then have "drb_done m sent j \<or> (\<exists>u. held u = Some j)" using d(5) that(2) by blast
    then show ?thesis using single[OF that(1)] t(1,3) by fastforce
  qed
  show ?thesis
    unfolding drb_slots_inv_def
  proof (intro conjI allI impI)
    fix j assume "0 \<le> j \<and> j < dc_post_index (m\<lparr>dc_write_index := dc_write_index m + 1\<rparr>)"
    then have "drb_done m sent j \<or> (\<exists>u. held u = Some j)" using d(5)[of j] by simp
    then show "drb_done (m\<lparr>dc_write_index := dc_write_index m + 1\<rparr>) sent j \<or> (\<exists>u. (held(t := None)) u = Some j)"
      using t(1,3) by (metis drb_at_index(4) fun_upd_other option.inject)
  next
    fix u u' j assume "(held(t := None)) u = Some j \<and> (held(t := None)) u' = Some j"
    then show "u = u'" using d(7)[of u j u'] by (auto split: if_splits)
  qed (use d card all in auto)
qed

section \<open>Every step keeps the invariant\<close>

lemma drb_held_below:
  assumes "drb_sys_inv n N st" "drb_holds (ds_prod st t) = Some i"
  shows "0 \<le> i" "i < dc_post_index (ds_mem st)" "t < n"
proof -
  note d = drb_sys_invD[OF assms(1)]
  have "0 \<le> i \<and> nat i < length (ds_sent st)"
    using d(3)[of t] assms(2) by (cases "ds_prod st t") (auto simp: drb_held_def)
  then show "0 \<le> i" "i < dc_post_index (ds_mem st)" using drb_slots_invD(1)[OF d(5)] by linarith+
  show "t < n" using assms(2) d(2)[of t] by (cases "n \<le> t") auto
qed

lemma drb_held_finite:
  assumes "drb_sys_inv n N st"
  shows "finite {t. (drb_holds \<circ> ds_prod st) t \<noteq> None}"
proof (rule finite_subset)
  show "{t. (drb_holds \<circ> ds_prod st) t \<noteq> None} \<subseteq> {..<n}" using drb_held_below(3)[OF assms] by auto
qed simp

text \<open>A thread that is not in \<open>get_msg_page\<close>, before or after, and leaves tables and sizes alone.\<close>

lemma drb_pcs_upd:
  "drb_pcs (st\<lparr>ds_mem := m, ds_prod := (ds_prod st)(t := p), ds_sent := xs\<rparr>) = (drb_pcs st)(Inl t := drb_ppc p)"
  "drb_pcs (st\<lparr>ds_mem := m, ds_read := (ds_read st)(r := q), ds_got := ys\<rparr>) = (drb_pcs st)(Inr r := drb_rpc q)"
  by (auto simp: drb_pcs_def fun_eq_iff split: sum.split)

lemma drb_capacity:
  assumes inv: "drb_sys_inv n N st" and i: "0 \<le> i" "i \<le> dc_post_index (ds_mem st)"
    and idle: "n \<le> 1 \<Longrightarrow> \<forall>t. drb_holds (ds_prod st t) = None"
    and cap: "n \<le> 1 \<or> i < N * 2 ^ dc_page_msg_bits (ds_mem st)"
  shows "drb_pidx (ds_mem st) i \<le> dc_page_index_count (ds_mem st)" "n \<le> 1 \<or> drb_pidx (ds_mem st) i < N"
proof -
  let ?m = "ds_mem st"
  note d = drb_sys_invD[OF inv]
  show N: "n \<le> 1 \<or> drb_pidx ?m i < N" using cap drb_pidx_less by blast
  show "drb_pidx ?m i \<le> dc_page_index_count ?m"
  proof (cases "n \<le> 1")
    case False
    then show ?thesis using N d(7) by simp
  next
    case True
    show ?thesis
    proof (cases "i = 0")
      case True
      then show ?thesis using drb_mem_okD(3,4)[OF d(1)] by (simp add: drb_pidx_def)
    next
      case False
      have "drb_done ?m (ds_sent st) (i - 1)"
        using drb_slots_invD(5)[OF d(5), of "i - 1"] idle[OF True] i False by auto
      from drb_done_page[OF d(1) this] have "drb_pidx ?m (i - 1) < dc_page_index_count ?m"
        using drb_mem_okD(4)[OF d(1)] by simp
      then show ?thesis using drb_pidx_next[of ?m "i - 1"] by simp
    qed
  qed
qed

text \<open>What is to be shown of a step of producer \<open>t\<close>, and of reader \<open>r\<close>.\<close>

lemma drb_update_prod:
  assumes inv: "drb_sys_inv n N st" and t: "t < n" and mem: "drb_mem_ok m'"
    and p: "drb_prod_ok m' (ds_sent st @ new) p" "\<And>u. u \<noteq> t \<Longrightarrow> drb_prod_ok m' (ds_sent st @ new) (ds_prod st u)"
    and r: "\<And>r. drb_read_ok (n \<le> 1) m' (ds_sent st @ new) (ds_read st r)"
    and s: "drb_slots_inv (n \<le> 1) m' (ds_sent st @ new) ((drb_holds \<circ> ds_prod st)(t := drb_holds p))"
    and l: "drb_lock_inv (n \<le> 1) ((drb_pcs st)(Inl t := drb_ppc p)) m'" "n \<le> 1 \<or> dc_page_index_count m' = N"
  shows "drb_sys_inv n N (st\<lparr>ds_mem := m', ds_prod := (ds_prod st)(t := p), ds_sent := ds_sent st @ new\<rparr>)"
proof -
  note d = drb_sys_invD[OF inv]
  have hold: "drb_holds \<circ> (ds_prod st)(t := p) = (drb_holds \<circ> ds_prod st)(t := drb_holds p)" by auto
  show ?thesis
    unfolding drb_sys_inv_def drb_pcs_upd
  proof (intro conjI allI impI ballI)
    fix u assume "n \<le> u"
    then show "ds_prod (st\<lparr>ds_mem := m', ds_prod := (ds_prod st)(t := p), ds_sent := ds_sent st @ new\<rparr>) u = DIdle"
      using d(2)[of u] t by simp
  next
    fix g assume "g \<in> set (ds_got (st\<lparr>ds_mem := m', ds_prod := (ds_prod st)(t := p), ds_sent := ds_sent st @ new\<rparr>))"
    then show "drb_got_ok (n \<le> 1) (ds_sent (st\<lparr>ds_mem := m', ds_prod := (ds_prod st)(t := p), ds_sent := ds_sent st @ new\<rparr>)) g"
      using d(8)[of g] by (auto simp: drb_got_ok_def nth_append split: option.splits)
  qed (use mem p r s l in \<open>simp_all add: hold\<close>)
qed

lemma drb_update_read:
  assumes inv: "drb_sys_inv n N st" and mem: "drb_mem_ok m'"
    and p: "\<And>t. drb_prod_ok m' (ds_sent st) (ds_prod st t)"
    and r: "drb_read_ok (n \<le> 1) m' (ds_sent st) q" "\<And>u. u \<noteq> r \<Longrightarrow> drb_read_ok (n \<le> 1) m' (ds_sent st) (ds_read st u)"
    and s: "drb_slots_inv (n \<le> 1) m' (ds_sent st) (drb_holds \<circ> ds_prod st)"
    and l: "drb_lock_inv (n \<le> 1) ((drb_pcs st)(Inr r := drb_rpc q)) m'" "n \<le> 1 \<or> dc_page_index_count m' = N"
    and g: "\<And>g. g \<in> set out \<Longrightarrow> drb_got_ok (n \<le> 1) (ds_sent st) g"
  shows "drb_sys_inv n N (st\<lparr>ds_mem := m', ds_read := (ds_read st)(r := q), ds_got := ds_got st @ out\<rparr>)"
proof -
  note d = drb_sys_invD[OF inv]
  show ?thesis
    unfolding drb_sys_inv_def drb_pcs_upd
  proof (intro conjI allI impI ballI)
    fix x assume "x \<in> set (ds_got (st\<lparr>ds_mem := m', ds_read := (ds_read st)(r := q), ds_got := ds_got st @ out\<rparr>))"
    then show "drb_got_ok (n \<le> 1) (ds_sent (st\<lparr>ds_mem := m', ds_read := (ds_read st)(r := q), ds_got := ds_got st @ out\<rparr>)) x"
      using d(8)[of x] g[of x] by auto
  qed (use d(2) mem p r s l in \<open>simp_all\<close>)
qed

text \<open>A producer.\<close>

lemma drb_produce_find:
  assumes inv: "drb_sys_inv n N st" and t: "t < n" "ds_prod st t = DFind msg i pc"
    and cap: "n \<le> 1 \<or> dc_post_index (ds_mem st) \<le> N * 2 ^ dc_page_msg_bits (ds_mem st)"
  shows "\<exists>st'. drb_act (DProduce t) st = Inr st' \<and> drb_sys_inv n N st'"
proof -
  let ?m = "ds_mem st"
  note d = drb_sys_invD[OF inv]
  note b = drb_held_below[OF inv, of t i]
  have ok: "drb_held (ds_sent st) msg i" "drb_blank ?m i" "drb_find_ok ?m (drb_pidx ?m i) pc"
    "drb_pidx ?m i \<le> dc_page_index_count ?m" using d(3)[of t] t(2) by simp_all
  have N: "n \<le> 1 \<or> drb_pidx ?m i < N" using cap b t(2) drb_pidx_less[of i N ?m] by fastforce
  have x: "drb_pcs st (Inl t) = Some pc" using t(2) by simp
  have k: "0 \<le> drb_pidx ?m i" using b t(2) by (simp add: drb_pidx_nonneg)
  have who: "case Inl t of Inl t \<Rightarrow> t < n | Inr (r :: nat) \<Rightarrow> n \<le> 1 \<longrightarrow> drb_ent ?m (drb_pidx ?m i) \<noteq> None" using t(1) by simp
  obtain r m' where s: "drb_page_step (drb_pidx ?m i) pc ?m = Inr (r, m')" "drb_mem_ok m'" "drb_ext ?m m'"
      "drb_result_ok m' (drb_pidx ?m i) r" "drb_same_slots ?m m'" "drb_stepped pc r ?m m'"
    "drb_lock_inv (n \<le> 1) ((drb_pcs st)(Inl t := case r of Inl pc' \<Rightarrow> Some pc' | Inr page \<Rightarrow> None)) m'"
    "n \<le> 1 \<or> dc_page_index_count m' = N" "\<And>u. u \<noteq> t \<Longrightarrow> drb_prod_ok m' (ds_sent st) (ds_prod st u)"
    "\<And>r. drb_read_ok (n \<le> 1) m' (ds_sent st) (ds_read st r)"
    using drb_sys_find[OF inv x ok(3) k ok(4) N who] by blast
  let ?p = "case r of Inl pc' \<Rightarrow> DFind msg i pc' | Inr page \<Rightarrow> DPage msg i page"
  have hold: "drb_holds ?p = Some i" "drb_ppc ?p = (case r of Inl pc' \<Rightarrow> Some pc' | Inr page \<Rightarrow> None)"
    by (cases r; simp)+
  have blank: "drb_blank m' i" by (rule drb_same_blank[OF s(5) ok(2)])
  have "drb_prod_ok m' (ds_sent st) ?p" using s(4) ok(1,4) blank drb_ext_simps[OF s(3)] by (cases r) auto
  moreover have "(drb_holds \<circ> ds_prod st)(t := Some i) = drb_holds \<circ> ds_prod st" using t(2) by (auto simp: fun_eq_iff)
  moreover have "drb_slots_inv (n \<le> 1) m' (ds_sent st) (drb_holds \<circ> ds_prod st)" by (rule drb_slots_same[OF d(5) s(5)])
  ultimately have "drb_sys_inv n N (st\<lparr>ds_mem := m', ds_prod := (ds_prod st)(t := ?p), ds_sent := ds_sent st @ []\<rparr>)"
    by (intro drb_update_prod[OF inv t(1) s(2)]) (simp_all add: hold s(7-10) del: One_nat_def)
  moreover have "drb_act (DProduce t) st = Inr (st\<lparr>ds_mem := m', ds_prod := (ds_prod st)(t := ?p), ds_sent := ds_sent st @ []\<rparr>)"
    using t(2) s(1) by simp
  ultimately show ?thesis by blast
qed

text \<open>A store to the slot a producer holds, and what the others see of it.\<close>

lemma drb_produce_store:
  assumes inv: "drb_sys_inv n N st" and t: "t < n" "drb_holds (ds_prod st t) = Some i" "drb_ppc (ds_prod st t) = None"
    and page: "drb_ent (ds_mem st) (drb_pidx (ds_mem st) i) = Some page"
    and at: "\<And>s. drb_at (ds_mem st) i = Some s \<Longrightarrow> dm_flag s = 0"
    and p: "drb_holds p = Some i" "drb_ppc p = None"
      "\<And>m'. drb_at m' i = map_option f (drb_at (ds_mem st) i) \<Longrightarrow> drb_ent m' (drb_pidx m' i) = Some page \<Longrightarrow>
        drb_prod_ok m' (ds_sent st) p"
  shows "\<exists>m'. drb_store page (drb_off (ds_mem st) i) f (ds_mem st) = Inr m'
    \<and> drb_sys_inv n N (st\<lparr>ds_mem := m', ds_prod := (ds_prod st)(t := p), ds_sent := ds_sent st @ []\<rparr>)"
proof -
  let ?m = "ds_mem st"
  note d = drb_sys_invD[OF inv]
  note b = drb_held_below[OF inv t(2)]
  obtain m' where m': "drb_store page (drb_off ?m i) f ?m = Inr m'" "drb_mem_ok m'" "drb_calm ?m m'" "drb_ext ?m m'"
    "dc_post_index m' = dc_post_index ?m" "dc_write_index m' = dc_write_index ?m"
    "drb_at m' i = map_option f (drb_at ?m i)" "\<And>j. j \<noteq> i \<Longrightarrow> drb_at m' j = drb_at ?m j"
    using drb_store_ok[OF d(1) page] by blast
  have und: "drb_undisturbed ?m m' k pc" for k pc using m'(3) by (simp add: drb_undisturbed_def)
  have nd: "\<not> drb_done ?m (ds_sent st) i" using at by (auto simp: drb_done_def)
  have "drb_prod_ok m' (ds_sent st) (ds_prod st u)" if u: "u \<noteq> t" for u
  proof (rule drb_prod_env[OF d(3) m'(4)])
    fix j assume "drb_holds (ds_prod st u) = Some j"
    then have "j \<noteq> i" using drb_slots_invD(7)[OF d(5), of u j t] t(2) u by auto
    then show "drb_at m' j = drb_at ?m j \<or> drb_at ?m j = None \<and> drb_blank m' j" using m'(8) by simp
  qed (simp_all add: und)
  moreover have "drb_read_ok (n \<le> 1) m' (ds_sent st) (ds_read st r)" for r
  proof (rule drb_read_env[OF d(4) m'(4)])
    fix pos w page' assume r: "ds_read st r = RFlag pos w page'" "drb_done ?m (ds_sent st) pos"
    then have "pos \<noteq> i" using nd by auto
    moreover have "nat pos < length (ds_sent st)"
      using d(4)[of r] r(1) drb_slots_invD(1,4)[OF d(5)] by (simp add: drb_asked_def) linarith
    ultimately show "drb_at m' pos = drb_at ?m pos \<and> nat pos < length (ds_sent st)" using m'(8) by simp
  qed (simp_all add: und m'(6))
  moreover have "drb_prod_ok m' (ds_sent st) p"
    using p(3)[OF m'(7)] drb_ext_ent[OF m'(4) page] drb_ext_simps(1)[OF m'(4)] by simp
  moreover have "drb_slots_inv (n \<le> 1) m' (ds_sent st) ((drb_holds \<circ> ds_prod st)(t := drb_holds p))"
  proof -
    have "(drb_holds \<circ> ds_prod st)(t := drb_holds p) = drb_holds \<circ> ds_prod st" using t(2) p(1) by (auto simp: fun_eq_iff)
    moreover have "drb_slots_inv (n \<le> 1) m' (ds_sent st) (drb_holds \<circ> ds_prod st)"
      by (rule drb_slots_store[OF d(5) _ b(2) nd m'(5,6,8), of t]) (simp add: t(2))
    ultimately show ?thesis by simp
  qed
  moreover have "drb_lock_inv (n \<le> 1) ((drb_pcs st)(Inl t := drb_ppc p)) m'"
  proof -
    have same: "(drb_pcs st)(Inl t := drb_ppc p) = drb_pcs st" using t(3) p(2) by (auto simp: fun_eq_iff)
    show ?thesis unfolding same drb_lock_calm[OF m'(3)] by (rule d(6))
  qed
  moreover have "n \<le> 1 \<or> dc_page_index_count m' = N" using d(7) m'(3) by (simp add: drb_calm_def)
  ultimately have "drb_sys_inv n N (st\<lparr>ds_mem := m', ds_prod := (ds_prod st)(t := p), ds_sent := ds_sent st @ []\<rparr>)"
    by (intro drb_update_prod[OF inv t(1) m'(2)]) simp_all
  with m'(1) show ?thesis by blast
qed

text \<open>The two steps that move an index.\<close>

lemma drb_ext_index [simp]:
  "drb_ext m (m\<lparr>dc_post_index := p\<rparr>)" "drb_ext m (m\<lparr>dc_write_index := w\<rparr>)"
  "drb_calm m (m\<lparr>dc_post_index := p\<rparr>)" "drb_calm m (m\<lparr>dc_write_index := w\<rparr>)"
  "drb_mem_ok (m\<lparr>dc_post_index := p\<rparr>) = drb_mem_ok m" "drb_mem_ok (m\<lparr>dc_write_index := w\<rparr>) = drb_mem_ok m"
  by (simp_all add: drb_ext_def drb_calm_def drb_mem_ok_def)

lemma drb_produce_call:
  assumes inv: "drb_sys_inv n N st" and t: "t < n" "ds_prod st t = DCall msg"
    and cap: "n \<le> 1 \<or> dc_post_index (ds_mem st) < N * 2 ^ dc_page_msg_bits (ds_mem st)"
  shows "\<exists>st'. drb_act (DProduce t) st = Inr st' \<and> drb_sys_inv n N st'"
proof -
  let ?m = "ds_mem st"
  let ?i = "dc_post_index ?m" and ?m' = "?m\<lparr>dc_post_index := dc_post_index ?m + 1\<rparr>"
  note d = drb_sys_invD[OF inv]
  note sl = drb_slots_invD[OF d(5)]
  have und: "drb_undisturbed ?m ?m' k pc" for k pc by (simp add: drb_undisturbed_def)
  have idle: "drb_holds (ds_prod st u) = None" if "n \<le> 1" for u
    using that t d(2)[of u] by (cases "u = t") auto
  have k: "drb_pidx ?m ?i \<le> dc_page_index_count ?m"
    using drb_capacity[OF inv _ order_refl _ cap] sl(1) idle by simp
  have "drb_prod_ok ?m' (ds_sent st @ [msg]) (DFind msg ?i GCount)"
    using sl(1) sl(6)[of ?i] k by (simp add: drb_held_def nth_append drb_pidx_def)
  moreover have "drb_prod_ok ?m' (ds_sent st @ [msg]) (ds_prod st u)" for u
    by (rule drb_prod_env[OF d(3)]) (simp_all add: und)
  moreover have "drb_read_ok (n \<le> 1) ?m' (ds_sent st @ [msg]) (ds_read st r)" for r
  proof (rule drb_read_env[OF d(4)])
    fix pos w page assume "ds_read st r = RFlag pos w page"
    then show "drb_at ?m' pos = drb_at ?m pos \<and> nat pos < length (ds_sent st)"
      using d(4)[of r] sl(1,4) by (simp add: drb_asked_def) linarith
  qed (simp_all add: und)
  moreover have "drb_slots_inv (n \<le> 1) ?m' (ds_sent st @ [msg]) ((drb_holds \<circ> ds_prod st)(t := Some ?i))"
    by (rule drb_slots_call[OF d(5) _ drb_held_finite[OF inv]]) (use t drb_held_below[OF inv] in auto)
  moreover have "drb_lock_inv (n \<le> 1) ((drb_pcs st)(Inl t := Some GCount)) ?m'"
  proof -
    have "drb_lock_inv (n \<le> 1) ((drb_pcs st)(Inl t := Some GCount)) ?m"
      by (rule drb_lock_outside[OF d(6)]) (use t(2) in \<open>auto simp: drb_growing_def drb_grows_def\<close>)
    moreover have calm: "drb_calm ?m ?m'" by simp
    ultimately show ?thesis by (simp only: drb_lock_calm[OF calm])
  qed
  ultimately have "drb_sys_inv n N (st\<lparr>ds_mem := ?m', ds_prod := (ds_prod st)(t := DFind msg ?i GCount), ds_sent := ds_sent st @ [msg]\<rparr>)"
    using d(1,7) by (intro drb_update_prod[OF inv t(1)]) simp_all
  then show ?thesis using t(2) drb_mem_okD(1)[OF d(1)] by simp
qed

lemma drb_produce_flagged:
  assumes inv: "drb_sys_inv n N st" and t: "t < n" "ds_prod st t = DFlagged msg i"
  shows "\<exists>st'. drb_act (DProduce t) st = Inr st' \<and> drb_sys_inv n N st'"
proof -
  let ?m = "ds_mem st"
  let ?m' = "?m\<lparr>dc_write_index := dc_write_index ?m + 1\<rparr>"
  note d = drb_sys_invD[OF inv]
  note sl = drb_slots_invD[OF d(5)]
  have und: "drb_undisturbed ?m ?m' k pc" for k pc by (simp add: drb_undisturbed_def)
  have "drb_prod_ok ?m' (ds_sent st) (ds_prod st u)" for u
    by (rule drb_prod_env[OF d(3)]) (simp_all add: und)
  moreover have "drb_read_ok (n \<le> 1) ?m' (ds_sent st) (ds_read st r)" for r
  proof (rule drb_read_env[OF d(4)])
    fix pos w page assume "ds_read st r = RFlag pos w page"
    then show "drb_at ?m' pos = drb_at ?m pos \<and> nat pos < length (ds_sent st)"
      using d(4)[of r] sl(1,4) by (simp add: drb_asked_def) linarith
  qed (simp_all add: und)
  moreover have "drb_slots_inv (n \<le> 1) ?m' (ds_sent st) ((drb_holds \<circ> ds_prod st)(t := None))"
  proof (rule drb_slots_flagged[OF d(5) _ drb_held_finite[OF inv]])
    show "drb_done ?m (ds_sent st) i" using d(3)[of t] t(2) by simp
    fix u assume "n \<le> 1" "(drb_holds \<circ> ds_prod st) u \<noteq> None"
    then show "u = t" using drb_held_below(3)[OF inv, of u] t(1) by fastforce
  qed (simp add: t(2))
  moreover have "drb_lock_inv (n \<le> 1) ((drb_pcs st)(Inl t := None)) ?m'"
  proof -
    have same: "(drb_pcs st)(Inl t := None) = drb_pcs st" using t(2) by (auto simp: fun_eq_iff)
    have calm: "drb_calm ?m ?m'" by simp
    show ?thesis unfolding same drb_lock_calm[OF calm] by (rule d(6))
  qed
  ultimately have "drb_sys_inv n N (st\<lparr>ds_mem := ?m', ds_prod := (ds_prod st)(t := DIdle), ds_sent := ds_sent st @ []\<rparr>)"
    using d(1,7) by (intro drb_update_prod[OF inv t(1)]) simp_all
  then show ?thesis using t(2) by simp
qed

lemma drb_produce_ok:
  assumes inv: "drb_sys_inv n N st" and t: "t < n"
    and cap: "n \<le> 1 \<or> dc_post_index (ds_mem st) \<le> N * 2 ^ dc_page_msg_bits (ds_mem st)"
    and call: "\<And>msg. ds_prod st t = DCall msg \<Longrightarrow> n \<le> 1 \<or> dc_post_index (ds_mem st) < N * 2 ^ dc_page_msg_bits (ds_mem st)"
  shows "\<exists>st'. drb_act (DProduce t) st = Inr st' \<and> drb_sys_inv n N st'"
proof (cases "ds_prod st t")
  case DIdle
  then have "st\<lparr>ds_mem := ds_mem st, ds_prod := (ds_prod st)(t := DIdle), ds_sent := ds_sent st @ []\<rparr> = st"
    by (cases st) (simp add: fun_upd_idem)
  then show ?thesis using inv DIdle by simp
next
  case (DPage msg i page)
  have ok: "drb_held (ds_sent st) msg i" "drb_blank (ds_mem st) i" "drb_ent (ds_mem st) (drb_pidx (ds_mem st) i) = Some page"
    using drb_sys_invD(3)[OF inv, of t] DPage by simp_all
  have "\<exists>m'. drb_store page (drb_off (ds_mem st) i) (dm_msg_update (\<lambda>_. msg)) (ds_mem st) = Inr m'
    \<and> drb_sys_inv n N (st\<lparr>ds_mem := m', ds_prod := (ds_prod st)(t := DStored msg i page), ds_sent := ds_sent st @ []\<rparr>)"
    by (rule drb_produce_store[OF inv t]) (use DPage ok in \<open>auto simp: drb_blank_def drb_at_def\<close>)
  then show ?thesis using DPage by auto
next
  case (DStored msg i page)
  have ok: "drb_held (ds_sent st) msg i" "drb_at (ds_mem st) i = Some \<lparr>dm_msg = msg, dm_flag = 0\<rparr>"
    "drb_ent (ds_mem st) (drb_pidx (ds_mem st) i) = Some page"
    using drb_sys_invD(3)[OF inv, of t] DStored by simp_all
  have "\<exists>m'. drb_store page (drb_off (ds_mem st) i) (dm_flag_update (\<lambda>_. 1)) (ds_mem st) = Inr m'
    \<and> drb_sys_inv n N (st\<lparr>ds_mem := m', ds_prod := (ds_prod st)(t := DFlagged msg i), ds_sent := ds_sent st @ []\<rparr>)"
    by (rule drb_produce_store[OF inv t]) (use DStored ok in \<open>auto simp: drb_done_def drb_held_def\<close>)
  then show ?thesis using DStored by auto
qed (use drb_produce_call[OF inv t] drb_produce_find[OF inv t _ cap] drb_produce_flagged[OF inv t] call in blast)+

text \<open>A reader.\<close>

lemma drb_flag_done:
  assumes inv: "drb_sys_inv n N st" and "drb_asked (ds_mem st) pos w" and s: "drb_at (ds_mem st) pos = Some s" "dm_flag s = 1"
  shows "drb_done (ds_mem st) (ds_sent st) pos"
proof -
  note d = drb_sys_invD[OF inv]
  note sl = drb_slots_invD[OF d(5)]
  have "drb_done (ds_mem st) (ds_sent st) pos \<or> (\<exists>t. drb_holds (ds_prod st t) = Some pos)"
    using sl(4) sl(5)[of pos] assms(2) by (auto simp: drb_asked_def)
  moreover have "drb_done (ds_mem st) (ds_sent st) pos" if "drb_holds (ds_prod st t) = Some pos" for t
    using that d(3)[of t] s by (cases "ds_prod st t") (auto simp: drb_blank_def)
  ultimately show ?thesis by blast
qed

lemma drb_asked_index:
  assumes inv: "drb_sys_inv n N st" and a: "drb_asked (ds_mem st) pos w"
    and cap: "n \<le> 1 \<or> dc_post_index (ds_mem st) \<le> N * 2 ^ dc_page_msg_bits (ds_mem st)"
  shows "nat pos < length (ds_sent st)" "drb_pidx (ds_mem st) pos \<le> dc_page_index_count (ds_mem st)"
    "n \<le> 1 \<or> drb_pidx (ds_mem st) pos < N" "0 \<le> drb_pidx (ds_mem st) pos"
    "n \<le> 1 \<Longrightarrow> drb_ent (ds_mem st) (drb_pidx (ds_mem st) pos) \<noteq> None"
proof -
  let ?m = "ds_mem st"
  note d = drb_sys_invD[OF inv]
  note sl = drb_slots_invD[OF d(5)]
  have p: "0 \<le> pos" "pos < dc_post_index ?m" using a sl(4) by (simp_all add: drb_asked_def)
  show "nat pos < length (ds_sent st)" using p sl(1) by linarith
  show N: "n \<le> 1 \<or> drb_pidx ?m pos < N" using cap p(2) drb_pidx_less[of pos N ?m] by fastforce
  show "0 \<le> drb_pidx ?m pos" by (rule drb_pidx_nonneg[OF p(1)])
  show e: "drb_ent ?m (drb_pidx ?m pos) \<noteq> None" if "n \<le> 1" by (rule drb_done_ent[OF drb_reader_page[OF inv that a]])
  show "drb_pidx ?m pos \<le> dc_page_index_count ?m"
  proof (cases "n \<le> 1")
    case True
    from drb_done_page[OF d(1) drb_reader_page[OF inv True a]] show ?thesis using drb_mem_okD(4)[OF d(1)] by simp
  qed (use N d(7) in simp)
qed

lemma drb_read_quiet:
  assumes inv: "drb_sys_inv n N st" and old: "drb_rpc (ds_read st r) = None"
    and q: "drb_read_ok (n \<le> 1) (ds_mem st) (ds_sent st) q" "\<forall>pc. drb_rpc q = Some pc \<longrightarrow> pc = GCount"
    and g: "\<And>g. g \<in> set out \<Longrightarrow> drb_got_ok (n \<le> 1) (ds_sent st) g"
  shows "drb_sys_inv n N (st\<lparr>ds_mem := ds_mem st, ds_read := (ds_read st)(r := q), ds_got := ds_got st @ out\<rparr>)"
proof -
  note d = drb_sys_invD[OF inv]
  have "drb_lock_inv (n \<le> 1) ((drb_pcs st)(Inr r := drb_rpc q)) (ds_mem st)"
    by (rule drb_lock_outside[OF d(6)]) (use old q(2) in \<open>auto simp: drb_growing_def drb_grows_def\<close>)
  from drb_update_read[OF inv d(1) d(3) q(1) d(4) d(5) this d(7) g] show ?thesis .
qed

lemma drb_page_step_unlocked:
  assumes "drb_page_step k pc m = Inr (Inl pc', m')" "drb_mem_ok m" "drb_find_ok m k pc" "0 \<le> k" "drb_ent m k \<noteq> None"
    and "\<not> drb_locked pc" "pc \<noteq> GLock"
  shows "\<not> drb_locked pc' \<and> pc' \<noteq> GLock"
proof (cases pc)
  case GCount
  then show ?thesis
    using assms drb_ent_Some[OF assms(2,5)] drb_mem_okD(1,4)[OF assms(2)] by simp
next
  case (GEntry tab)
  then show ?thesis using assms drb_entry_at_seen[OF assms(2) _ assms(4), of tab] by auto
qed (use assms in \<open>auto simp: obind_eq_Inr split: option.splits\<close>)

lemma drb_read_find:
  assumes inv: "drb_sys_inv n N st" and r: "ds_read st r = RFind pos w pc"
    and cap: "n \<le> 1 \<or> dc_post_index (ds_mem st) \<le> N * 2 ^ dc_page_msg_bits (ds_mem st)"
  shows "\<exists>st'. drb_act (DRead r) st = Inr st' \<and> drb_sys_inv n N st'"
proof -
  let ?m = "ds_mem st" and ?k = "drb_pidx (ds_mem st) pos"
  note d = drb_sys_invD[OF inv]
  have ok: "drb_asked ?m pos w" "drb_find_ok ?m ?k pc" "?k \<le> dc_page_index_count ?m"
    "n \<le> 1 \<Longrightarrow> \<not> drb_locked pc \<and> pc \<noteq> GLock" using d(4)[of r] r by simp_all
  note a = drb_asked_index[OF inv ok(1) cap]
  have x: "drb_pcs st (Inr r) = Some pc" using r by simp
  have who: "case Inr r of Inl (t :: nat) \<Rightarrow> t < n | Inr r \<Rightarrow> n \<le> 1 \<longrightarrow> drb_ent ?m ?k \<noteq> None" using a(5) by simp
  obtain res m' where s: "drb_page_step ?k pc ?m = Inr (res, m')" "drb_mem_ok m'" "drb_ext ?m m'"
      "drb_result_ok m' ?k res" "drb_same_slots ?m m'" "drb_stepped pc res ?m m'"
    "drb_lock_inv (n \<le> 1) ((drb_pcs st)(Inr r := case res of Inl pc' \<Rightarrow> Some pc' | Inr page \<Rightarrow> None)) m'"
    "n \<le> 1 \<or> dc_page_index_count m' = N" "\<And>u. drb_prod_ok m' (ds_sent st) (ds_prod st u)"
    "\<And>u. u \<noteq> r \<Longrightarrow> drb_read_ok (n \<le> 1) m' (ds_sent st) (ds_read st u)"
    using drb_sys_find[OF inv x ok(2) a(4) ok(3) a(3) who] by blast
  let ?q = "case res of Inl pc' \<Rightarrow> RFind pos w pc' | Inr page \<Rightarrow> RPage pos w page"
  have rpc: "drb_rpc ?q = (case res of Inl pc' \<Rightarrow> Some pc' | Inr page \<Rightarrow> None)" by (cases res) simp_all
  have asked: "drb_asked m' pos w" using ok(1) s(5) by (simp add: drb_asked_def drb_same_slots_def)
  have "drb_read_ok (n \<le> 1) m' (ds_sent st) ?q"
  proof (cases res)
    case (Inl pc')
    have "\<not> drb_locked pc' \<and> pc' \<noteq> GLock" if "n \<le> 1"
      using drb_page_step_unlocked[OF s(1)[unfolded Inl] d(1) ok(2) a(4) a(5)[OF that]] ok(4)[OF that] by blast
    then show ?thesis using Inl s(4) asked ok(3) drb_ext_simps[OF s(3)] by auto
  qed (use s(4) asked drb_ext_simps[OF s(3)] in auto)
  from drb_update_read[OF inv s(2,9) this s(10) drb_slots_same[OF d(5) s(5)] s(7)[folded rpc] s(8), of "[]"]
  have "drb_sys_inv n N (st\<lparr>ds_mem := m', ds_read := (ds_read st)(r := ?q), ds_got := ds_got st @ []\<rparr>)" by simp
  then show ?thesis using r s(1) by simp
qed

lemma drb_read_ok_step:
  assumes inv: "drb_sys_inv n N st"
    and cap: "n \<le> 1 \<or> dc_post_index (ds_mem st) \<le> N * 2 ^ dc_page_msg_bits (ds_mem st)"
  shows "\<exists>st'. drb_act (DRead r) st = Inr st' \<and> drb_sys_inv n N st'"
proof -
  let ?m = "ds_mem st"
  note d = drb_sys_invD[OF inv]
  show ?thesis
  proof (cases "ds_read st r")
    case RIdle
    have "drb_sys_inv n N (st\<lparr>ds_mem := ?m, ds_read := (ds_read st)(r := RIdle), ds_got := ds_got st @ []\<rparr>)"
      by (rule drb_read_quiet[OF inv]) (simp_all add: RIdle)
    then show ?thesis using RIdle by simp
  next
    case (RCall pos)
    let ?w = "dc_write_index ?m"
    have pos: "0 \<le> pos" using d(4)[of r] RCall by simp
    have asked: "drb_asked ?m pos ?w" if "\<not> ?w \<le> pos" using pos that by (simp add: drb_asked_def)
    let ?q = "if ?w \<le> pos then RIdle else RFind pos ?w GCount" and ?out = "if ?w \<le> pos then [(pos, ?w, None)] else []"
    have "drb_sys_inv n N (st\<lparr>ds_mem := ?m, ds_read := (ds_read st)(r := ?q), ds_got := ds_got st @ ?out\<rparr>)"
      by (rule drb_read_quiet[OF inv]) (use RCall asked drb_asked_index(2)[OF inv asked cap] in \<open>auto simp: drb_got_ok_def\<close>)
    then show ?thesis using RCall drb_mem_okD(1)[OF d(1)] by (cases "?w \<le> pos") simp_all
  next
    case (RFind pos w pc)
    then show ?thesis by (rule drb_read_find[OF inv _ cap])
  next
    case (RPage pos w page)
    have ok: "drb_asked ?m pos w" "drb_ent ?m (drb_pidx ?m pos) = Some page" using d(4)[of r] RPage by simp_all
    obtain s where s: "drb_load page (drb_off ?m pos) ?m = Inr s" "drb_at ?m pos = Some s"
      using drb_load_ok[OF d(1) ok(2)] by blast
    have single: "dm_flag s = 1" if "n \<le> 1" using drb_reader_page[OF inv that ok(1)] s(2) by (simp add: drb_done_def)
    let ?q = "if dm_flag s = 1 then RFlag pos w page else RIdle" and ?out = "if dm_flag s = 1 then [] else [(pos, w, None)]"
    have "drb_sys_inv n N (st\<lparr>ds_mem := ?m, ds_read := (ds_read st)(r := ?q), ds_got := ds_got st @ ?out\<rparr>)"
      by (rule drb_read_quiet[OF inv]) (use RPage ok drb_flag_done[OF inv ok(1) s(2)] single in \<open>auto simp: drb_got_ok_def split: if_splits\<close>)
    then show ?thesis using RPage s(1) by (cases "dm_flag s = 1") simp_all
  next
    case (RFlag pos w page)
    have ok: "drb_asked ?m pos w" "drb_ent ?m (drb_pidx ?m pos) = Some page" "drb_done ?m (ds_sent st) pos"
      using d(4)[of r] RFlag by simp_all
    obtain s where s: "drb_load page (drb_off ?m pos) ?m = Inr s" "drb_at ?m pos = Some s"
      using drb_load_ok[OF d(1) ok(2)] by blast
    have "drb_sys_inv n N (st\<lparr>ds_mem := ?m, ds_read := (ds_read st)(r := RIdle), ds_got := ds_got st @ [(pos, w, Some (dm_msg s))]\<rparr>)"
      by (rule drb_read_quiet[OF inv])
        (use RFlag ok s(2) drb_asked_index(1)[OF inv ok(1) cap] in \<open>auto simp: drb_got_ok_def drb_asked_def drb_done_def\<close>)
    then show ?thesis using RFlag s(1) by simp
  qed
qed


section \<open>Reachable states\<close>

lemma drb_holds_idle [simp]: "drb_holds \<circ> (\<lambda>_. DIdle) = (\<lambda>_. None)"
  by auto

lemma drb_sys_inv_new:
  assumes "0 < N"
  shows "drb_sys_inv n N (drb_sys_new zero bits N)"
proof -
  let ?m = "drb_shared_new zero bits N"
  have mem: "drb_mem_ok ?m" using assms by (simp add: drb_mem_ok_def drb_shared_new_def)
  have "drb_blank ?m i" for i by (simp add: drb_blank_def drb_at_def drb_shared_new_def)
  then have "drb_slots_inv (n \<le> 1) ?m [] (\<lambda>_. None)" by (auto simp: drb_slots_inv_def drb_shared_new_def)
  moreover have "drb_lock_inv (n \<le> 1) (drb_pcs (drb_sys_new zero bits N)) ?m"
  proof -
    have "drb_pcs (drb_sys_new zero bits N) = (\<lambda>_. None)"
      by (auto simp: drb_pcs_def drb_sys_new_def fun_eq_iff split: sum.split)
    then show ?thesis by (simp add: drb_lock_inv_def drb_shared_new_def)
  qed
  ultimately show ?thesis using mem by (simp add: drb_sys_inv_def drb_sys_new_def drb_shared_new_def)
qed

lemma drb_page_step_bits: "drb_page_step k pc m = Inr (r, m') \<Longrightarrow> dc_page_msg_bits m' = dc_page_msg_bits m"
  by (cases pc) (auto simp: obind_eq_Inr Let_def split: if_splits option.splits)

lemma drb_store_bits: "drb_store page off f m = Inr m' \<Longrightarrow> dc_page_msg_bits m' = dc_page_msg_bits m"
  by (auto simp: drb_store_def obind_eq_Inr)

lemma drb_act_frame:
  assumes "drb_act a st = Inr st'"
  shows "dc_page_msg_bits (ds_mem st') = dc_page_msg_bits (ds_mem st)"
    "\<exists>new. ds_sent st' = ds_sent st @ new \<and> (\<forall>t msg. a = DProduce t \<and> ds_prod st t = DCall msg \<longrightarrow> new = [msg])"
proof -
  have "drb_producer_step p m = Inr (new, p', m') \<Longrightarrow> dc_page_msg_bits m' = dc_page_msg_bits m
      \<and> (\<forall>msg. p = DCall msg \<longrightarrow> new = [msg])" for p p' :: "'a drb_producer" and m m' new
    by (cases p) (auto simp: obind_eq_Inr dest: drb_page_step_bits drb_store_bits)
  moreover have "drb_reader_step q m = Inr (out, q', m') \<Longrightarrow> dc_page_msg_bits m' = dc_page_msg_bits m"
    for q q' and m m' :: "'a drb_shared" and out
    by (cases q) (auto simp: obind_eq_Inr Let_def dest: drb_page_step_bits split: if_splits)
  ultimately show "dc_page_msg_bits (ds_mem st') = dc_page_msg_bits (ds_mem st)"
    "\<exists>new. ds_sent st' = ds_sent st @ new \<and> (\<forall>t msg. a = DProduce t \<and> ds_prod st t = DCall msg \<longrightarrow> new = [msg])"
    using assms by (cases a; fastforce simp: obind_eq_Inr split: if_splits)+
qed

lemma drb_act_inv:
  assumes inv: "drb_sys_inv n N st" and a: "drb_act_ok n a"
    and cap: "n \<le> 1 \<or> dc_post_index (ds_mem st) \<le> N * 2 ^ dc_page_msg_bits (ds_mem st)"
    and call: "\<And>t msg. a = DProduce t \<Longrightarrow> ds_prod st t = DCall msg \<Longrightarrow>
      n \<le> 1 \<or> dc_post_index (ds_mem st) < N * 2 ^ dc_page_msg_bits (ds_mem st)"
  shows "\<exists>st'. drb_act a st = Inr st' \<and> drb_sys_inv n N st'"
proof (cases a)
  case (DPush t msg)
  have "drb_sys_inv n N (st\<lparr>ds_mem := ds_mem st, ds_prod := (ds_prod st)(t := DCall msg), ds_sent := ds_sent st @ []\<rparr>)"
    if i: "ds_prod st t = DIdle"
  proof (rule drb_update_prod[OF inv])
    note d = drb_sys_invD[OF inv]
    have "(drb_holds \<circ> ds_prod st)(t := drb_holds (DCall msg)) = drb_holds \<circ> ds_prod st"
      "(drb_pcs st)(Inl t := drb_ppc (DCall msg)) = drb_pcs st" using i by (auto simp: fun_eq_iff)
    then show "drb_slots_inv (n \<le> 1) (ds_mem st) (ds_sent st @ []) ((drb_holds \<circ> ds_prod st)(t := drb_holds (DCall msg)))"
      "drb_lock_inv (n \<le> 1) ((drb_pcs st)(Inl t := drb_ppc (DCall msg))) (ds_mem st)"
      using d(5,6) by (simp_all del: One_nat_def)
  qed (use a DPush drb_sys_invD[OF inv] in \<open>simp_all del: One_nat_def\<close>)
  then show ?thesis using DPush inv by simp
next
  case (DProduce t)
  then show ?thesis using drb_produce_ok[OF inv _ cap call] a by simp
next
  case (DGet r pos)
  have "drb_sys_inv n N (st\<lparr>ds_mem := ds_mem st, ds_read := (ds_read st)(r := RCall pos), ds_got := ds_got st @ []\<rparr>)"
    if "ds_read st r = RIdle"
    by (rule drb_read_quiet[OF inv]) (use that a DGet in simp_all)
  then show ?thesis using DGet inv by simp
next
  case (DRead r)
  then show ?thesis using drb_read_ok_step[OF inv cap] by simp
qed

lemma drb_reach_inv:
  assumes "drb_reach n (drb_sys_new zero bits N) st" "0 < N" "n \<le> 1 \<or> int (length (ds_sent st)) \<le> N * 2 ^ bits"
  shows "drb_sys_inv n N st \<and> dc_page_msg_bits (ds_mem st) = bits"
  using assms(1,3)
proof (induction rule: drb_reach.induct)
  case start
  then show ?case using drb_sys_inv_new[OF assms(2)] by (simp add: drb_sys_new_def drb_shared_new_def)
next
  case (act st a st')
  obtain new where new: "ds_sent st' = ds_sent st @ new"
    "\<And>t msg. a = DProduce t \<Longrightarrow> ds_prod st t = DCall msg \<Longrightarrow> new = [msg]"
    using drb_act_frame(2)[OF act.hyps(3)] by blast
  then have IH: "drb_sys_inv n N st" "dc_page_msg_bits (ds_mem st) = bits" using act.IH act.prems by auto
  have post: "dc_post_index (ds_mem st) = int (length (ds_sent st))"
    by (rule drb_slots_invD(1)[OF drb_sys_invD(5)[OF IH(1)]])
  have "\<exists>st''. drb_act a st = Inr st'' \<and> drb_sys_inv n N st''"
    by (rule drb_act_inv[OF IH(1) act.hyps(2)]) (use act.prems new post IH(2) in auto)
  then show ?case using act.hyps(3) drb_act_frame(1)[OF act.hyps(3)] IH(2) by simp
qed

lemma drb_reach_run:
  "drb_run as st = Inr st' \<Longrightarrow> drb_reach n st0 st \<Longrightarrow> \<forall>a\<in>set as. drb_act_ok n a \<Longrightarrow> drb_reach n st0 st'"
proof (induction "as" arbitrary: st)
  case (Cons a "as")
  then show ?case by (auto simp: obind_eq_Inr intro: drb_reach.act)
qed simp

section \<open>What holds in every interleaving\<close>


text \<open>One producer pushes three messages, for the third of which the table grows, while a reader asks for them.\<close>

definition drb_demo :: "nat drb_action list" where
  "drb_demo =
    concat (map (\<lambda>x. DPush 0 x # replicate 9 (DProduce 0)) [10, 11]) @ [DGet 0 1, DRead 0, DRead 0]
    @ DPush 0 12 # concat (replicate 12 [DProduce 0, DRead 0]) @ DGet 0 2 # replicate 8 (DRead 0) @ DProduce 0 # DGet 0 2 # replicate 12 (DRead 0)"

lemma drb_demo_run:
  "case drb_run drb_demo (drb_sys_new 0 1 1) of
     Inl e \<Rightarrow> False
   | Inr st \<Rightarrow> ds_sent st = [10, 11, 12] \<and> ds_got st = [(1, 2, Some 11), (2, 2, None), (2, 3, Some 12)]
       \<and> dc_page_index_count (ds_mem st) = 2"
  by code_simp

lemma drb_demo_reach:
  obtains st where "drb_reach 1 (drb_sys_new (0::nat) 1 1) st" "ds_sent st = [10, 11, 12]"
    "ds_got st = [(1, 2, Some 11), (2, 2, None), (2, 3, Some 12)]"
proof -
  obtain st where run: "drb_run drb_demo (drb_sys_new 0 1 1) = Inr st"
    and st: "ds_sent st = [10, 11, 12]" "ds_got st = [(1, 2, Some 11), (2, 2, None), (2, 3, Some 12)]"
    using drb_demo_run by (auto split: sum.splits)
  have "drb_reach 1 (drb_sys_new 0 1 1) st"
    by (rule drb_reach_run[OF run drb_reach.start]) code_simp
  then show thesis using st by (rule that)
qed




section \<open>Two producers\<close>

text \<open>
  Producer 0 extends the table and has stored the new size; producer 1 has read this size and now
  reads the pointer, which is still that of the old table.
\<close>

definition drb_overrun :: "nat drb_action list" where
  "drb_overrun =
    concat (map (\<lambda>x. DPush 0 x # replicate 9 (DProduce 0)) [10, 11])
    @ [DPush 0 12, DPush 1 13] @ replicate 5 (DProduce 0) @ replicate 3 (DProduce 1)"

lemma drb_overrun_run:
  "case drb_run drb_overrun (drb_sys_new 0 1 1) of
     Inl e \<Rightarrow> False
   | Inr st \<Rightarrow> (case drb_act (DProduce 1) st of Inl e \<Rightarrow> e = OutOfBounds | Inr st' \<Rightarrow> False)"
  by code_simp

lemma drb_overrun_acts: "\<forall>a\<in>set drb_overrun. drb_act_ok 2 a"
  by code_simp


text \<open>
  A later producer can be done first: then \<open>write_index_\<close>, which is \<open>size\<close>, is 1, and \<open>get\<close> of
  position 0 returns false, since the first producer has not stored its message yet.
\<close>

definition drb_hole :: "nat drb_action list" where
  "drb_hole = DPush 0 10 # DProduce 0 # DPush 1 11 # replicate 9 (DProduce 1) @ DGet 0 0 # replicate 9 (DRead 0)"

lemma drb_hole_run:
  "case drb_run drb_hole (drb_sys_new 0 1 1) of
     Inl e \<Rightarrow> False
   | Inr st \<Rightarrow> ds_sent st = [10, 11] \<and> dc_write_index (ds_mem st) = 1 \<and> ds_got st = [(0, 1, None)]"
  by code_simp

end
