(* ===== verification/Base_Util.thy ===== *)
theory Base_Util
  imports Prelude
begin

text \<open>
  The small shared pieces of base/src: the error codes of \<open>base_error.h\<close>, and from \<open>base.h\<close> the
  integer types and limits, \<open>string_hash\<close> and \<open>string_compare\<close> (the hash-table helpers for C strings),
  the comparison macros on integers and the atomic operations.
\<close>

section \<open>Error codes\<close>

datatype BASE_ERROR =
    NAUT_AT_S_OK | NAUT_AT_E_TCP_SERVER_PORT | NAUT_AT_E_TCP_SERVER_SOCKET | NAUT_AT_E_TCP_SERVER_BIND
  | NAUT_AT_E_TCP_SERVER_LISTEN | NAUT_AT_E_TCP_SERVER_EPOLL_CREATE | NAUT_AT_E_TCP_SERVER_BIND_CPU
  | NAUT_AT_E_TCP_SERVER_CLIENT_CLOSED | NAUT_AT_E_TCP_SERVER_PUSH_CACHE_FAILED
  | NAUT_AT_E_TCP_SERVER_SEND_CACHE_FULL | NAUT_AT_E_TCP_CLIENT_SEND

fun error_code :: "BASE_ERROR \<Rightarrow> int" where
  "error_code NAUT_AT_S_OK = 0"
| "error_code NAUT_AT_E_TCP_SERVER_PORT = 101001"
| "error_code NAUT_AT_E_TCP_SERVER_SOCKET = 101101"
| "error_code NAUT_AT_E_TCP_SERVER_BIND = 101102"
| "error_code NAUT_AT_E_TCP_SERVER_LISTEN = 101103"
| "error_code NAUT_AT_E_TCP_SERVER_EPOLL_CREATE = 101104"
| "error_code NAUT_AT_E_TCP_SERVER_BIND_CPU = 101105"
| "error_code NAUT_AT_E_TCP_SERVER_CLIENT_CLOSED = 101201"
| "error_code NAUT_AT_E_TCP_SERVER_PUSH_CACHE_FAILED = 101202"
| "error_code NAUT_AT_E_TCP_SERVER_SEND_CACHE_FULL = 101203"
| "error_code NAUT_AT_E_TCP_CLIENT_SEND = 102001"

text \<open>The enumeration is ordered by its codes, and no two errors share one.\<close>

lemma error_code_inj: "error_code e = error_code e' \<Longrightarrow> e = e'"
  by (cases e; cases e') simp_all

instantiation BASE_ERROR :: linorder
begin

definition less_eq_BASE_ERROR :: "BASE_ERROR \<Rightarrow> BASE_ERROR \<Rightarrow> bool" where
  "less_eq_BASE_ERROR a b \<longleftrightarrow> error_code a \<le> error_code b"

definition less_BASE_ERROR :: "BASE_ERROR \<Rightarrow> BASE_ERROR \<Rightarrow> bool" where
  "less_BASE_ERROR a b \<longleftrightarrow> error_code a < error_code b"

instance
  by standard (auto simp: less_eq_BASE_ERROR_def less_BASE_ERROR_def dest: error_code_inj)

end

section \<open>C strings as keys\<close>

text \<open>
  A C string is the list of its characters up to the terminator, so no character is zero.
  \<open>char\<close> is signed on the targets: \<open>*str++\<close> is sign-extended to \<open>size_t\<close>.
\<close>

type_synonym cstring = "8 word list"

fun string_hash_loop :: "64 word \<Rightarrow> cstring \<Rightarrow> 64 word" where
  "string_hash_loop hash [] = hash"
| "string_hash_loop hash (c # str) =
    string_hash_loop (hash XOR (push_bit 5 hash + scast c + drop_bit 2 hash)) str"

definition string_hash :: "cstring \<Rightarrow> 64 word" where
  "string_hash str = string_hash_loop 1315423911 str AND 0x7FFFFFFF"

text \<open>\<open>strcmp\<close>, on the characters read as unsigned: the sign of the first difference.\<close>

fun strcmp :: "cstring \<Rightarrow> cstring \<Rightarrow> int" where
  "strcmp [] [] = 0"
| "strcmp [] (b # bs) = - 1"
| "strcmp (a # as) [] = 1"
| "strcmp (a # as) (b # bs) = (if a < b then - 1 else if b < a then 1 else strcmp as bs)"

definition string_compare :: "cstring \<Rightarrow> cstring \<Rightarrow> bool" where
  "string_compare a b \<longleftrightarrow> strcmp a b = 0"

lemma strcmp_eq_0: "strcmp a b = 0 \<longleftrightarrow> a = b"
  by (induction a b rule: strcmp.induct) auto

lemma string_hash_31_bits: "string_hash s < 2 ^ 31"
proof -
  have "string_hash s = take_bit 31 (string_hash_loop 1315423911 s)"
    by (simp add: string_hash_def take_bit_eq_mask mask_eq_exp_minus_1)
  then have "uint (string_hash s) = take_bit 31 (uint (string_hash_loop 1315423911 s))"
    by (simp only: unsigned_take_bit_eq)
  also have "\<dots> < 2 ^ 31" by (rule take_bit_int_less_exp)
  finally have "uint (string_hash s) < 2 ^ 31" .
  moreover have "uint (2 ^ 31 :: 64 word) = 2 ^ 31" by simp
  ultimately show ?thesis by (simp only: word_less_def)
qed

section \<open>Integer limits and comparison macros\<close>

definition kMinInt8 :: int where "kMinInt8 = - 128"
definition kMaxInt8 :: int where "kMaxInt8 = 127"
definition kMaxUInt8 :: int where "kMaxUInt8 = 255"
definition kMinInt16 :: int where "kMinInt16 = - 32768"
definition kMaxInt16 :: int where "kMaxInt16 = 32767"
definition kMaxUInt16 :: int where "kMaxUInt16 = 65535"
definition kMinInt32 :: int where "kMinInt32 = - 2147483647 - 1"
definition kMaxInt32 :: int where "kMaxInt32 = 2147483647"
definition kMaxUInt32 :: int where "kMaxUInt32 = 4294967295"
definition kMinInt64 :: int where "kMinInt64 = - 9223372036854775807 - 1"
definition kMaxInt64 :: int where "kMaxInt64 = 9223372036854775807"
definition kMaxUInt64 :: int where "kMaxUInt64 = 18446744073709551615"

definition BMAX :: "int \<Rightarrow> int \<Rightarrow> int" where "BMAX a b = (if a > b then a else b)"
definition BMIN :: "int \<Rightarrow> int \<Rightarrow> int" where "BMIN a b = (if a < b then a else b)"
definition BABS :: "int \<Rightarrow> int" where "BABS a = (if a > 0 then a else - a)"
definition COMPARE_VALUE :: "int \<Rightarrow> int \<Rightarrow> int" where
  "COMPARE_VALUE a b = (if a > b then 1 else if a = b then 0 else - 1)"

lemma macros: "BMAX a b = max a b" "BMIN a b = min a b" "BABS a = \<bar>a\<bar>" "COMPARE_VALUE a b = sgn (a - b)"
  by (auto simp: BMAX_def BMIN_def BABS_def COMPARE_VALUE_def max_def min_def sgn_if)

text \<open>The limits are the ends of the ranges of the types they are named after.\<close>

lemma limits:
  "kMinInt8 = - (2 ^ 7)" "kMaxInt8 = 2 ^ 7 - 1" "kMaxUInt8 = 2 ^ 8 - 1"
  "kMinInt16 = - (2 ^ 15)" "kMaxInt16 = 2 ^ 15 - 1" "kMaxUInt16 = 2 ^ 16 - 1"
  "kMinInt32 = - (2 ^ 31)" "kMaxInt32 = 2 ^ 31 - 1" "kMaxUInt32 = 2 ^ 32 - 1"
  "kMinInt64 = - (2 ^ 63)" "kMaxInt64 = 2 ^ 63 - 1" "kMaxUInt64 = 2 ^ 64 - 1"
  by (simp_all add: kMinInt8_def kMaxInt8_def kMaxUInt8_def kMinInt16_def kMaxInt16_def kMaxUInt16_def
      kMinInt32_def kMaxInt32_def kMaxUInt32_def kMinInt64_def kMaxInt64_def kMaxUInt64_def)

section \<open>Integer types\<close>

text \<open>The types base.h names, as the Linux build on a 64-bit machine defines them.\<close>

type_synonym bint64 = "64 word"
type_synonym int8 = "8 word"
type_synonym int16 = "16 word"
type_synonym int32 = "32 word"
type_synonym int64 = "64 word"
type_synonym date = "64 word"
type_synonym uint8 = "8 word"
type_synonym uint16 = "16 word"
type_synonym uint32 = "32 word"
type_synonym uint64 = "64 word"
type_synonym size8 = "8 word"
type_synonym size16 = "16 word"
type_synonym size32 = "32 word"
type_synonym size64 = "64 word"
type_synonym offset8 = int8
type_synonym offset16 = int16
type_synonym offset32 = int32
type_synonym offset64 = int64
type_synonym offset = offset64

text \<open>A value of such a type, read with its sign or without, lies between the limits of its name.\<close>

lemma signed_limits:
  "kMinInt8 \<le> sint (a :: int8) \<and> sint a \<le> kMaxInt8"
  "kMinInt16 \<le> sint (b :: int16) \<and> sint b \<le> kMaxInt16"
  "kMinInt32 \<le> sint (c :: int32) \<and> sint c \<le> kMaxInt32"
  "kMinInt64 \<le> sint (d :: int64) \<and> sint d \<le> kMaxInt64"
  using sint_greater_eq[of a] sint_less[of a] sint_greater_eq[of b] sint_less[of b]
    sint_greater_eq[of c] sint_less[of c] sint_greater_eq[of d] sint_less[of d]
  by (simp_all add: limits)

lemma unsigned_limits:
  "uint (a :: uint8) \<le> kMaxUInt8" "uint (b :: uint16) \<le> kMaxUInt16"
  "uint (c :: uint32) \<le> kMaxUInt32" "uint (d :: uint64) \<le> kMaxUInt64"
  using uint_bounded[of a] uint_bounded[of b] uint_bounded[of c] uint_bounded[of d]
  by (simp_all add: limits)

section \<open>Atomic operations\<close>

text \<open>
  The macros stand for one indivisible access to the variable behind the pointer: from its value to
  the value of the expression and the new value of the variable.
\<close>

definition base_fetch_and_add :: "'n::len word \<Rightarrow> 'n word \<Rightarrow> 'n word \<times> 'n word" where
  "base_fetch_and_add x c = (x, x + c)"

definition base_fetch_and_sub :: "'n::len word \<Rightarrow> 'n word \<Rightarrow> 'n word \<times> 'n word" where
  "base_fetch_and_sub x c = (x, x - c)"

definition base_fetch_and_inc :: "'n::len word \<Rightarrow> 'n word \<times> 'n word" where
  "base_fetch_and_inc x = base_fetch_and_add x 1"

definition base_fetch_and_dec :: "'n::len word \<Rightarrow> 'n word \<times> 'n word" where
  "base_fetch_and_dec x = base_fetch_and_sub x 1"

definition base_compare_and_exchange :: "'n::len word \<Rightarrow> 'n word \<Rightarrow> 'n word \<Rightarrow> 'n word \<times> 'n word" where
  "base_compare_and_exchange des cmp exch = (des, if des = cmp then exch else des)"

definition base_exchange :: "'n::len word \<Rightarrow> 'n word \<Rightarrow> 'n word \<times> 'n word" where
  "base_exchange des exch = (des, exch)"

text \<open>The values that calls one after the other return.\<close>

fun fetched :: "nat \<Rightarrow> 'n::len word \<Rightarrow> 'n word list" where
  "fetched 0 x = []"
| "fetched (Suc k) x = (let (old, x') = base_fetch_and_inc x in old # fetched k x')"

lemma fetched_nth: "j < k \<Longrightarrow> fetched k x ! j = x + of_nat j"
  by (induction k x arbitrary: j rule: fetched.induct)
    (auto simp: base_fetch_and_inc_def base_fetch_and_add_def nth_Cons algebra_simps split: nat.split)

text \<open>A ticket drawn with \<open>base_fetch_and_inc\<close> is drawn once, until the counter has gone through all its values.\<close>

lemma fetched_distinct:
  fixes x :: "'n::len word"
  assumes "k \<le> 2 ^ LENGTH('n)"
  shows "distinct (fetched k x)"
proof -
  have len: "length (fetched k x) = k" for k and x :: "'n word"
    by (induction k x rule: fetched.induct) (auto simp: base_fetch_and_inc_def base_fetch_and_add_def)
  show ?thesis unfolding distinct_conv_nth len
  proof (intro allI impI)
    fix i j assume ij: "i < k" "j < k" "i \<noteq> j"
    have "unat (of_nat m :: 'n word) = m" if "m < k" for m
      using that assms by (simp add: unsigned_of_nat take_bit_nat_eq_self)
    then have "(of_nat i :: 'n word) \<noteq> of_nat j" using ij by metis
    then show "fetched k x ! i \<noteq> fetched k x ! j" using ij by (simp add: fetched_nth)
  qed
qed

text \<open>An exchange that depends on a comparison reports the old value, from which the caller sees what happened.\<close>

lemma compare_and_exchange_outcome:
  assumes "base_compare_and_exchange des cmp exch = (old, new)"
  shows "old = cmp \<Longrightarrow> new = exch" "old \<noteq> cmp \<Longrightarrow> new = des"
  using assms by (auto simp: base_compare_and_exchange_def)

section \<open>Hash tables\<close>

text \<open>
  The pair of function objects given to the hash tables fits together: \<open>string_compare\<close>
  calls two strings equal exactly when they are, so equal keys hash alike, and the hash
  always fits 31 bits.
\<close>

lemma string_hash_table_keys:
  "(string_compare a b \<longleftrightarrow> a = b) \<and> unat (string_hash a) < 2 ^ 31"
proof -
  have "unat (string_hash a) < unat (2 ^ 31 :: 64 word)"
    using string_hash_31_bits[of a] by (simp only: word_less_nat_alt)
  then show ?thesis by (auto simp: string_compare_def strcmp_eq_0)
qed

end
