(* ===== verification/Client_Cell.thy ===== *)
theory Client_Cell
  imports Prelude
begin

text \<open>
  \<open>clientCell\<close> (base/src/tcp_server/client_cell.h, .cpp): the server's side of one connection.
  It has a receive buffer with a read and a write position, and a ring of pointers to the
  messages still to be sent.  The messages, of type \<open>sendCell\<close>, live in a heap of their own
  (addresses are natural numbers), because they pass from the task queue to the ring and are
  freed by whoever handles them last: a double free or a use after free is a fault.  The
  member \<open>enableRead\<close> of \<open>sendCell\<close> is never used.
\<close>

definition CLIENTCELLRECVBUF :: nat where
  "CLIENTCELLRECVBUF = 1024 * 1024"

definition CLIENTCELLSENDBUF :: nat where
  "CLIENTCELLSENDBUF = 1024 * 1024"

definition SYSSENDBUF :: nat where
  "SYSSENDBUF = 1024 * 1024"

record sendCell =
  sc_ptr :: "byte list option" \<comment> \<open>the array, \<open>None\<close> for \<open>nullptr\<close>\<close>
  sc_size :: int
  sc_sendPos :: int

type_synonym send_heap = "nat \<Rightarrow> sendCell option"

record clientCell =
  ce_ClientFd :: int
  ce_RecvBuf :: "byte arr"
  ce_SendBuf :: "nat option arr"
  ce_RecvReadPos :: "32 word"
  ce_RecvWritePos :: "32 word"
  ce_SendReadPos :: "32 word"
  ce_SendWritePos :: "32 word"
  ce_Events :: "32 word"
  ce_Ip :: string
  ce_Port :: "16 word"

text \<open>
  The constructor leaves the arrays, \<open>m_Events\<close> and the peer's address as the allocation has
  them; \<open>HandleAccept\<close> assigns the address afterwards.
\<close>

definition clientCell_new :: "int \<Rightarrow> byte arr \<Rightarrow> nat option arr \<Rightarrow> 32 word \<Rightarrow> string \<Rightarrow> 16 word \<Rightarrow> clientCell" where
  "clientCell_new listenfd recvbuf sendbuf events ip port =
    \<lparr>ce_ClientFd = listenfd, ce_RecvBuf = recvbuf, ce_SendBuf = sendbuf, ce_RecvReadPos = 0,
     ce_RecvWritePos = 0, ce_SendReadPos = 0, ce_SendWritePos = 0, ce_Events = events, ce_Ip = ip, ce_Port = port\<rparr>"

text \<open>\<open>delete [](p->ptr); p->ptr = nullptr; delete p\<close>.\<close>

definition free_sendCell :: "nat option \<Rightarrow> send_heap \<Rightarrow> send_heap outcome" where
  "free_sendCell p h =
    (case p of
       None \<Rightarrow> Inl NullDeref
     | Some a \<Rightarrow> (case h a of None \<Rightarrow> Inl UseAfterFree | Some sc \<Rightarrow> Inr (h(a := None))))"

text \<open>The slot a ring position names; a position outside the array is a fault.\<close>

definition send_slot :: "clientCell \<Rightarrow> 32 word \<Rightarrow> nat option outcome" where
  "send_slot c pos = obind (oassert OutOfBounds (unat pos < CLIENTCELLSENDBUF)) (\<lambda>_. Inr (ce_SendBuf c (unat pos)))"

text \<open>
  The loop of the destructor over the ring.  It steps the read position modulo the size of the
  array until it meets the write position; a write position outside the array is never met,
  and then the loop meets a slot it has already cleared.
\<close>

definition send_next :: "32 word \<Rightarrow> 32 word" where
  "send_next pos = (pos + 1) mod of_nat SYSSENDBUF"

function clientCell_free_loop :: "nat \<Rightarrow> clientCell \<Rightarrow> send_heap \<Rightarrow> (clientCell \<times> send_heap) outcome" where
  "clientCell_free_loop n c h =
    (if ce_SendReadPos c = ce_SendWritePos c then Inr (c, h)
     else if n = 0 then Inl Diverges
     else obind (send_slot c (ce_SendReadPos c)) (\<lambda>p.
          obind (free_sendCell p h) (\<lambda>h'.
            clientCell_free_loop (n - 1) (c\<lparr>ce_SendBuf := (ce_SendBuf c)(unat (ce_SendReadPos c) := None),
              ce_SendReadPos := send_next (ce_SendReadPos c)\<rparr>) h')))"
  by pat_completeness auto
termination by (relation "measure (\<lambda>(n, c, h). n)") auto

declare clientCell_free_loop.simps [simp del]

text \<open>
  \<open>~clientCell\<close>: as many rounds as the ring has slots are enough, since after them every slot
  is null.
\<close>

definition clientCell_delete :: "clientCell \<Rightarrow> send_heap \<Rightarrow> send_heap outcome" where
  "clientCell_delete c h =
    obind (clientCell_free_loop (Suc CLIENTCELLSENDBUF) c h) (\<lambda>(c', h'). Inr h')"

section \<open>The ring of messages to send\<close>

definition ce_pending :: "clientCell \<Rightarrow> nat option list" where
  "ce_pending c = ring_list (ce_SendBuf c) SYSSENDBUF (unat (ce_SendReadPos c)) (unat (ce_SendWritePos c))"

definition ce_inv :: "clientCell \<Rightarrow> bool" where
  "ce_inv c \<longleftrightarrow> unat (ce_SendReadPos c) < SYSSENDBUF \<and> unat (ce_SendWritePos c) < SYSSENDBUF
     \<and> unat (ce_RecvReadPos c) \<le> unat (ce_RecvWritePos c) \<and> unat (ce_RecvWritePos c) \<le> CLIENTCELLRECVBUF
     \<and> unat (ce_RecvReadPos c) < CLIENTCELLRECVBUF div 2"

lemma ce_inv_new: "ce_inv (clientCell_new fd rb sb ev ip port)" "ce_pending (clientCell_new fd rb sb ev ip port) = []"
  by (simp_all add: ce_inv_def clientCell_new_def SYSSENDBUF_def CLIENTCELLRECVBUF_def ce_pending_def ring_list_def ring_len_def)

lemma send_next_unat:
  assumes "unat pos < SYSSENDBUF"
  shows "unat (send_next pos) = (unat pos + 1) mod SYSSENDBUF" "unat (send_next pos) < SYSSENDBUF"
proof -
  have b: "unat pos < 1048576" using assms by (simp add: SYSSENDBUF_def)
  then have "unat (pos + 1) = unat pos + 1" by (subst unat_add_small) simp_all
  moreover have "unat (of_nat SYSSENDBUF :: 32 word) = SYSSENDBUF" by (simp add: SYSSENDBUF_def)
  ultimately show "unat (send_next pos) = (unat pos + 1) mod SYSSENDBUF"
    by (simp only: send_next_def unat_mod)
  then show "unat (send_next pos) < SYSSENDBUF" by (simp add: SYSSENDBUF_def)
qed

lemma ce_pending_Nil: "ce_inv c \<Longrightarrow> ce_pending c = [] \<longleftrightarrow> ce_SendReadPos c = ce_SendWritePos c"
  unfolding ce_pending_def ce_inv_def by (simp add: ring_list_eq_Nil word_eq_unat)

text \<open>Taking the first message off the ring.\<close>

lemma ce_pending_pop:
  assumes inv: "ce_inv c" and ne: "ce_SendReadPos c \<noteq> ce_SendWritePos c"
    and c': "c' = c\<lparr>ce_SendBuf := (ce_SendBuf c)(unat (ce_SendReadPos c) := x), ce_SendReadPos := send_next (ce_SendReadPos c)\<rparr>"
  shows "ce_pending c = ce_SendBuf c (unat (ce_SendReadPos c)) # ce_pending c'" "ce_inv c'"
proof -
  have b: "unat (ce_SendReadPos c) < SYSSENDBUF" "unat (ce_SendWritePos c) < SYSSENDBUF"
    "unat (ce_SendReadPos c) \<noteq> unat (ce_SendWritePos c)"
    using inv ne by (simp_all add: ce_inv_def word_eq_unat)
  note nx = send_next_unat[OF b(1)]
  show "ce_pending c = ce_SendBuf c (unat (ce_SendReadPos c)) # ce_pending c'"
    using ring_list_pop[OF b, of "ce_SendBuf c"] ring_list_upd_released[OF b, of "ce_SendBuf c" x] nx
    by (simp add: ce_pending_def c')
  show "ce_inv c'" using inv nx by (simp add: ce_inv_def c')
qed

text \<open>Putting a message at the end.\<close>

lemma ce_pending_push:
  assumes inv: "ce_inv c" and room: "(unat (ce_SendWritePos c) + 1) mod SYSSENDBUF \<noteq> unat (ce_SendReadPos c)"
    and c': "c' = c\<lparr>ce_SendBuf := (ce_SendBuf c)(unat (ce_SendWritePos c) := x), ce_SendWritePos := send_next (ce_SendWritePos c)\<rparr>"
  shows "ce_pending c' = ce_pending c @ [x]" "ce_inv c'"
proof -
  have b: "unat (ce_SendReadPos c) < SYSSENDBUF" "unat (ce_SendWritePos c) < SYSSENDBUF"
    using inv by (simp_all add: ce_inv_def)
  note nx = send_next_unat[OF b(2)]
  show "ce_pending c' = ce_pending c @ [x]"
    using ring_list_push[OF b room] nx by (simp add: ce_pending_def c')
  show "ce_inv c'" using inv nx by (simp add: ce_inv_def c')
qed

lemma length_ce_pending: "ce_inv c \<Longrightarrow> length (ce_pending c) < SYSSENDBUF"
  by (simp add: ce_pending_def ce_inv_def ring_len_less)

text \<open>
  What the destructor does: it frees exactly the messages in the ring, provided each of them is
  live and they are distinct.
\<close>

definition free_all :: "nat list \<Rightarrow> send_heap \<Rightarrow> send_heap" where
  "free_all as h = (\<lambda>a. if a \<in> set as then None else h a)"

lemma clientCell_free_loop_ring:
  assumes "ce_inv c" "ce_pending c = map Some as" "distinct as" "\<forall>a\<in>set as. h a \<noteq> None" "length as \<le> n"
  shows "\<exists>c'. clientCell_free_loop n c h = Inr (c', free_all as h)"
  using assms
proof (induction "as" arbitrary: n c h)
  case Nil
  then have "ce_SendReadPos c = ce_SendWritePos c" using ce_pending_Nil by simp
  then show ?case by (simp add: clientCell_free_loop.simps[of n c h] free_all_def)
next
  case (Cons a "as")
  let ?c = "c\<lparr>ce_SendBuf := (ce_SendBuf c)(unat (ce_SendReadPos c) := None), ce_SendReadPos := send_next (ce_SendReadPos c)\<rparr>"
  let ?h = "h(a := None)"
  have ne: "ce_SendReadPos c \<noteq> ce_SendWritePos c" using ce_pending_Nil[OF Cons.prems(1)] Cons.prems(2) by auto
  note pop = ce_pending_pop[OF Cons.prems(1) ne refl, of None]
  have p: "ce_SendBuf c (unat (ce_SendReadPos c)) = Some a" "ce_pending ?c = map Some as"
    using pop(1) Cons.prems(2) by simp_all
  have b: "unat (ce_SendReadPos c) < CLIENTCELLSENDBUF"
    using Cons.prems(1) by (simp add: ce_inv_def SYSSENDBUF_def CLIENTCELLSENDBUF_def)
  obtain sc where sc: "h a = Some sc" using Cons.prems(4) by auto
  obtain k where n: "n = Suc k" "length as \<le> k" using Cons.prems(5) by (cases n) auto
  have "\<exists>c'. clientCell_free_loop k ?c ?h = Inr (c', free_all as ?h)"
    by (rule Cons.IH[OF pop(2) p(2)]) (use Cons.prems(3,4) n in auto)
  moreover have "free_all as ?h = free_all (a # as) h" by (simp add: free_all_def fun_eq_iff)
  ultimately show ?case
    using ne b p(1) sc n
    by (simp add: clientCell_free_loop.simps[of "Suc k" c h] send_slot_def free_sendCell_def)
qed

lemma clientCell_delete_ring:
  assumes "ce_inv c" "ce_pending c = map Some as" "distinct as" "\<forall>a\<in>set as. h a \<noteq> None"
  shows "clientCell_delete c h = Inr (free_all as h)"
proof -
  have "length as < SYSSENDBUF" using length_ce_pending[OF assms(1)] assms(2) by simp
  then have "length as \<le> Suc CLIENTCELLSENDBUF" by (simp add: SYSSENDBUF_def CLIENTCELLSENDBUF_def)
  from clientCell_free_loop_ring[OF assms this] show ?thesis by (auto simp: clientCell_delete_def)
qed

end
