(* ===== verification/Notify_Interface.thy ===== *)
theory Notify_Interface
  imports Prelude
begin

text \<open>
  The callback interface between the sockets and the users of the library:
  \<open>tNotify\<close> (base/src/tcp_server/notify.h).  An abstract class is a record of its virtual
  functions over the state \<open>'h\<close> of the object that implements them; \<open>(buf, len)\<close> arguments
  are the list of the \<open>len\<close> bytes at \<open>buf\<close>, \<open>None\<close> for a null pointer.
\<close>

record 'h tNotify =
  OnConnect :: "'h \<Rightarrow> 32 word \<Rightarrow> string \<Rightarrow> 16 word \<Rightarrow> 'h"
  OnDisconnect :: "'h \<Rightarrow> 32 word \<Rightarrow> 'h"
  OnRecvData :: "'h \<Rightarrow> 32 word \<Rightarrow> byte list option \<Rightarrow> (64 word \<times> 'h) outcome"
  OnError :: "'h \<Rightarrow> 32 word \<Rightarrow> int \<Rightarrow> 'h"

text \<open>
  What a caller that keeps unconsumed bytes and offers them again needs of a receive
  callback: on at most \<open>limit\<close> bytes it returns how many bytes it consumed, from the front,
  and what it does depends on the byte stream only, not on how the stream is cut into calls
  (\<open>absorb\<close> is its specification: the state afterwards and the bytes left over).
  \<open>ready\<close> describes the states in which the callback keeps this promise; \<open>k\<close> is the
  connection the call is about.
\<close>

locale stream_handler =
  fixes on_recv :: "'k \<Rightarrow> 'h \<Rightarrow> byte list \<Rightarrow> (64 word \<times> 'h) outcome"
    and limit :: nat
    and ready :: "'k \<Rightarrow> 'h \<Rightarrow> bool"
    and absorb :: "'k \<Rightarrow> 'h \<Rightarrow> byte list \<Rightarrow> 'h \<times> byte list"
  assumes limit_int: "limit < 2 ^ 31"
    and recv_absorb: "ready k h \<Longrightarrow> bs \<noteq> [] \<Longrightarrow> length bs \<le> limit \<Longrightarrow>
      on_recv k h bs = Inr (of_nat (length bs - length (snd (absorb k h bs))), fst (absorb k h bs))"
    and absorb_ready: "ready k h \<Longrightarrow> ready k (fst (absorb k h bs))"
    and absorb_suffix: "\<exists>used. bs = used @ snd (absorb k h bs)"
    and absorb_append: "ready k h \<Longrightarrow>
      absorb k h (a @ b) = absorb k (fst (absorb k h a)) (snd (absorb k h a) @ b)"
begin

lemma length_absorb: "length (snd (absorb k h bs)) \<le> length bs"
  using absorb_suffix[of bs k h] by (metis length_append le_add2)

lemma absorb_drop: "snd (absorb k h bs) = drop (length bs - length (snd (absorb k h bs))) bs"
  using absorb_suffix[of bs k h] by (metis append_eq_conv_conj length_append add_diff_cancel_right')

lemma absorb_idle: "ready k h \<Longrightarrow> absorb k (fst (absorb k h a)) (snd (absorb k h a)) = absorb k h a"
  using absorb_append[of k h a "[]"] by simp

text \<open>Offering the left-over bytes together with the next chunk, chunk by chunk.\<close>

lemma absorb_chunks:
  assumes "ready k h"
  shows "foldl (\<lambda>s c. absorb k (fst s) (snd s @ c)) (absorb k h u) cs = absorb k h (u @ concat cs)"
  using assms
proof (induction cs arbitrary: u)
  case Nil
  then show ?case by simp
next
  case (Cons c cs)
  show ?case
    using absorb_append[OF Cons.prems, of u c, symmetric] Cons.IH[OF Cons.prems, of "u @ c"] by simp
qed

end

end
