(* ===== verification/Sockets.thy ===== *)
theory Sockets
  imports Prelude
begin

text \<open>
  The system calls the library moves data with, as their documentation describes them on a
  stream socket.  What the kernel answers is input of the model: a script of results, consumed
  call by call.  A result carries the data that is available at that moment; \<open>read\<close> and
  \<open>recv\<close> never return more than was asked for, and what is left stays available.  Zero
  bytes means end of stream (or that zero bytes were asked for).
\<close>

datatype errno = EINTR | EAGAIN | EOTHER int

datatype read_result = ReadErr errno | ReadData "byte list"

fun sys_read :: "nat \<Rightarrow> read_result list \<Rightarrow> (read_result \<times> read_result list) option" where
  "sys_read n [] = None"
| "sys_read n (ReadErr e # s) = Some (ReadErr e, s)"
| "sys_read n (ReadData bs # s) =
     Some (ReadData (take n bs), if length bs \<le> n then s else ReadData (drop n bs) # s)"

text \<open>
  \<open>write\<close> on a stream socket accepts some prefix of the bytes: \<open>WriteOk k\<close> says the kernel
  has room for \<open>k\<close> more bytes, so it takes \<open>min k n\<close> of \<open>n\<close>.
\<close>

datatype write_result = WriteErr errno | WriteOk nat

definition sys_write :: "byte list \<Rightarrow> write_result \<Rightarrow> errno + byte list" where
  "sys_write bs w = (case w of WriteErr e \<Rightarrow> Inl e | WriteOk k \<Rightarrow> Inr (take k bs))"

fun script_bytes :: "read_result list \<Rightarrow> byte list" where
  "script_bytes [] = []"
| "script_bytes (ReadErr e # s) = script_bytes s"
| "script_bytes (ReadData bs # s) = bs @ script_bytes s"

fun script_size :: "read_result list \<Rightarrow> nat" where
  "script_size [] = 0"
| "script_size (ReadErr e # s) = Suc (script_size s)"
| "script_size (ReadData bs # s) = Suc (length bs) + script_size s"

lemma sys_read_smaller:
  "sys_read n s = Some (r, s') \<Longrightarrow> 0 < n \<Longrightarrow> script_size s' < script_size s"
  by (induction n s rule: sys_read.induct) auto

lemma sys_read_bytes:
  "sys_read n s = Some (ReadData bs, s') \<Longrightarrow> script_bytes s = bs @ script_bytes s' \<and> length bs \<le> n"
  by (induction n s rule: sys_read.induct) (auto split: if_splits)

lemma sys_read_err:
  "sys_read n s = Some (ReadErr e, s') \<Longrightarrow> s = ReadErr e # s'"
  by (induction n s rule: sys_read.induct) auto

end
