(* ===== verification/Framing.thy ===== *)
theory Framing
  imports Prelude
begin

text \<open>
  The wire format of common/src/tcp_struct.h: a message is a header of two 32-bit integers
  (type and payload size, in the byte order of the x86 targets) followed by the payload.
  This theory holds the header, the reading of a header from a byte sequence, the encoding
  the test programs build with \<open>memcpy\<close>, and the abstract specification of what a receive
  callback must do with a byte stream: cut it into the complete messages it starts with
  and leave the rest.
\<close>

section \<open>Headers\<close>

record msg_header =
  hd_type :: int
  data_size :: int

definition msg_header_new :: msg_header where
  "msg_header_new = \<lparr>hd_type = 0, data_size = 0\<rparr>"

text \<open>\<open>sizeof(common::msg_header)\<close>, the member \<open>m_msg_header_size_\<close> of both notify classes.\<close>

definition m_msg_header_size :: nat where
  "m_msg_header_size = 8"

definition int32_at :: "byte list \<Rightarrow> nat \<Rightarrow> int" where
  "int32_at bs p = sint (ucast (bs ! p) OR push_bit 8 (ucast (bs ! (p + 1)))
      OR push_bit 16 (ucast (bs ! (p + 2))) OR push_bit 24 (ucast (bs ! (p + 3))) :: 32 word)"

definition int32_bytes :: "int \<Rightarrow> byte list" where
  "int32_bytes i = (let w = word_of_int i :: 32 word in
     [ucast w, ucast (drop_bit 8 w), ucast (drop_bit 16 w), ucast (drop_bit 24 w)])"

text \<open>\<open>(common::msg_header* )(pstr + readpos)\<close>.\<close>

definition header_at :: "byte list \<Rightarrow> nat \<Rightarrow> msg_header" where
  "header_at bs p = \<lparr>hd_type = int32_at bs p, data_size = int32_at bs (p + 4)\<rparr>"

definition header_bytes :: "msg_header \<Rightarrow> byte list" where
  "header_bytes h = int32_bytes (hd_type h) @ int32_bytes (data_size h)"

lemma length_int32_bytes [simp]: "length (int32_bytes i) = 4"
  by (simp add: int32_bytes_def Let_def)

lemma length_header_bytes [simp]: "length (header_bytes h) = 8"
  by (simp add: header_bytes_def)

lemma int32_at_append [simp]: "p + 3 < length xs \<Longrightarrow> int32_at (xs @ ys) p = int32_at xs p"
  by (simp add: int32_at_def nth_append)

lemma int32_at_drop [simp]: "n + p + 3 < length xs \<Longrightarrow> int32_at (drop n xs) p = int32_at xs (n + p)"
  by (simp add: int32_at_def add.assoc)

lemma int32_at_skip: "length xs \<le> p \<Longrightarrow> int32_at (xs @ ys) p = int32_at ys (p - length xs)"
  by (auto simp: int32_at_def nth_append le_iff_add add.assoc)

lemma header_at_append [simp]: "p + 7 < length xs \<Longrightarrow> header_at (xs @ ys) p = header_at xs p"
  by (simp add: header_at_def)

lemma header_at_drop [simp]: "n + p + 7 < length xs \<Longrightarrow> header_at (drop n xs) p = header_at xs (n + p)"
  by (simp add: header_at_def add.assoc)

lemma le_bytes_word:
  "ucast (ucast w :: byte) OR push_bit 8 (ucast (ucast (drop_bit 8 w) :: byte))
    OR push_bit 16 (ucast (ucast (drop_bit 16 w) :: byte))
    OR push_bit 24 (ucast (ucast (drop_bit 24 w) :: byte)) = (w :: 32 word)"
proof (rule bit_word_eqI)
  fix n assume "n < LENGTH(32)"
  then have "n < 8 \<or> (8 \<le> n \<and> n < 16) \<or> (16 \<le> n \<and> n < 24) \<or> (24 \<le> n \<and> n < 32)" by auto
  then show "bit (ucast (ucast w :: byte) OR push_bit 8 (ucast (ucast (drop_bit 8 w) :: byte))
      OR push_bit 16 (ucast (ucast (drop_bit 16 w) :: byte))
      OR push_bit 24 (ucast (ucast (drop_bit 24 w) :: byte)) :: 32 word) n = bit w n"
    by (elim disjE) (auto simp: bit_simps)
qed

lemma int32_roundtrip:
  assumes "- (2 ^ 31) \<le> i" "i < 2 ^ 31"
  shows "int32_at (int32_bytes i @ ys) 0 = i"
proof -
  have "int32_at (int32_bytes i @ ys) 0 = sint (word_of_int i :: 32 word)"
    by (simp add: int32_at_def int32_bytes_def Let_def le_bytes_word)
  also have "\<dots> = i"
    using assms by (simp add: sint_sbintrunc' signed_take_bit_int_eq_self)
  finally show ?thesis .
qed

lemma header_at_header_bytes:
  assumes "- (2 ^ 31) \<le> hd_type h" "hd_type h < 2 ^ 31" "- (2 ^ 31) \<le> data_size h" "data_size h < 2 ^ 31"
  shows "header_at (header_bytes h @ ys) 0 = h"
proof -
  have "int32_at (header_bytes h @ ys) 0 = hd_type h"
    using int32_roundtrip[OF assms(1,2)] by (simp add: header_bytes_def)
  moreover have "int32_at (header_bytes h @ ys) 4 = data_size h"
    using int32_roundtrip[OF assms(3,4), of ys] by (simp add: header_bytes_def int32_at_skip)
  ultimately show ?thesis by (simp add: header_at_def)
qed

section \<open>Messages and streams\<close>

text \<open>A message as the receiver sees it: the header and the payload bytes.\<close>

type_synonym frame = "msg_header \<times> byte list"

text \<open>A complete message stands at the front of the bytes.\<close>

definition complete_front :: "byte list \<Rightarrow> bool" where
  "complete_front bs \<longleftrightarrow> 8 < length bs \<and> 0 < data_size (header_at bs 0)
     \<and> 8 + nat (data_size (header_at bs 0)) \<le> length bs"

definition front_len :: "byte list \<Rightarrow> nat" where
  "front_len bs = 8 + nat (data_size (header_at bs 0))"

definition front_frame :: "byte list \<Rightarrow> frame" where
  "front_frame bs = (header_at bs 0, take (nat (data_size (header_at bs 0))) (drop 8 bs))"

text \<open>
  The specification: cut off complete messages while there are any.  A header whose size is
  not positive stops the cutting for good.
\<close>

function cut_frames :: "byte list \<Rightarrow> frame list \<times> byte list" where
  "cut_frames bs =
    (if complete_front bs
     then let (ms, rest) = cut_frames (drop (front_len bs) bs) in (front_frame bs # ms, rest)
     else ([], bs))"
  by pat_completeness auto
termination
  by (relation "measure length") (auto simp: complete_front_def front_len_def)

declare cut_frames.simps [simp del]

lemma cut_frames_stop: "\<not> complete_front bs \<Longrightarrow> cut_frames bs = ([], bs)"
  by (simp add: cut_frames.simps)

lemma cut_frames_step:
  "complete_front bs \<Longrightarrow> cut_frames (drop (front_len bs) bs) = (ms, rest) \<Longrightarrow>
    cut_frames bs = (front_frame bs # ms, rest)"
  by (simp add: cut_frames.simps[of bs])

lemma complete_front_append:
  assumes "complete_front a"
  shows "complete_front (a @ b)" "front_frame (a @ b) = front_frame a" "front_len (a @ b) = front_len a"
    "front_len a \<le> length a"
  using assms by (auto simp: complete_front_def front_frame_def front_len_def)

lemma cut_frames_rest:
  "\<not> complete_front (snd (cut_frames bs))"
proof (induction bs rule: cut_frames.induct)
  case (1 bs)
  then show ?case
    by (cases "complete_front bs") (auto simp: cut_frames.simps[of bs] split: prod.splits)
qed

lemma cut_frames_suffix:
  "\<exists>used. bs = used @ snd (cut_frames bs) \<and> length (snd (cut_frames bs)) \<le> length bs"
proof (induction bs rule: cut_frames.induct)
  case (1 bs)
  show ?case
  proof (cases "complete_front bs")
    case True
    obtain ms rest where c: "cut_frames (drop (front_len bs) bs) = (ms, rest)" by fastforce
    with 1[OF True] obtain used where "drop (front_len bs) bs = used @ rest" by auto
    then have "bs = (take (front_len bs) bs @ used) @ rest"
      by (metis append.assoc append_take_drop_id)
    moreover from this have "length rest \<le> length bs" by (metis length_append le_add2)
    ultimately show ?thesis using cut_frames_step[OF True c] by (metis snd_conv)
  next
    case False
    then show ?thesis by (simp add: cut_frames_stop)
  qed
qed

lemma length_cut_rest: "length (snd (cut_frames bs)) \<le> length bs"
  using cut_frames_suffix by blast

lemma cut_rest_drop: "snd (cut_frames bs) = drop (length bs - length (snd (cut_frames bs))) bs"
  using cut_frames_suffix[of bs] by (metis append_eq_conv_conj length_append add_diff_cancel_right')

text \<open>Cutting can be done in two goes at any point of the stream.\<close>

lemma cut_frames_append:
  "cut_frames (a @ b) =
    (fst (cut_frames a) @ fst (cut_frames (snd (cut_frames a) @ b)), snd (cut_frames (snd (cut_frames a) @ b)))"
proof (induction a rule: cut_frames.induct)
  case (1 a)
  show ?case
  proof (cases "complete_front a")
    case True
    let ?a = "drop (front_len a) a"
    have d: "drop (front_len (a @ b)) (a @ b) = ?a @ b"
      using complete_front_append[OF True] by simp
    have e: "cut_frames a = (front_frame a # fst (cut_frames ?a), snd (cut_frames ?a))"
      by (rule cut_frames_step[OF True]) simp
    have "cut_frames (a @ b) =
      (front_frame a # fst (cut_frames (?a @ b)), snd (cut_frames (?a @ b)))"
      using cut_frames_step[of "a @ b"] complete_front_append[OF True] d by simp
    also have "\<dots> = (front_frame a # (fst (cut_frames ?a) @ fst (cut_frames (snd (cut_frames ?a) @ b))),
        snd (cut_frames (snd (cut_frames ?a) @ b)))"
      using 1[OF True] by simp
    finally show ?thesis by (simp add: e)
  next
    case False
    then show ?thesis by (simp add: cut_frames_stop)
  qed
qed

section \<open>Encoding\<close>

text \<open>
  What the senders of the test programs put on the wire: header, then payload
  (\<open>memcpy(ptr,&m_header,...); memcpy(ptr + sizeof(m_header),...)\<close> in
  common/test/tcpclient/tcp_client.cpp and common/test/tcpserver/main.cpp).
\<close>

definition encode_frame :: "frame \<Rightarrow> byte list" where
  "encode_frame m = header_bytes (fst m) @ snd m"

definition frame_ok :: "frame \<Rightarrow> bool" where
  "frame_ok m \<longleftrightarrow> - (2 ^ 31) \<le> hd_type (fst m) \<and> hd_type (fst m) < 2 ^ 31
     \<and> data_size (fst m) = int (length (snd m)) \<and> 0 < length (snd m) \<and> length (snd m) < 2 ^ 31"

lemma header_at_encode:
  assumes "frame_ok m"
  shows "header_at (encode_frame m @ ys) 0 = fst m"
proof -
  have "int (length (snd m)) < int (2 ^ 31)"
    using assms by (simp only: frame_ok_def of_nat_less_iff)
  then have lt: "data_size (fst m) < 2 ^ 31" "- (2 ^ 31) \<le> data_size (fst m)"
    using assms by (simp_all add: frame_ok_def)
  have "header_at (header_bytes (fst m) @ (snd m @ ys)) 0 = fst m"
    by (rule header_at_header_bytes) (use assms lt in \<open>simp_all only: frame_ok_def\<close>)
  then show ?thesis by (simp add: encode_frame_def)
qed

lemma encode_front:
  assumes "frame_ok m"
  shows "complete_front (encode_frame m @ ys)" "front_frame (encode_frame m @ ys) = m"
    "front_len (encode_frame m @ ys) = length (encode_frame m)"
  using assms header_at_encode[OF assms, of ys]
  by (auto simp: complete_front_def front_frame_def front_len_def frame_ok_def encode_frame_def)

lemma cut_frames_encode:
  assumes "\<forall>m\<in>set ms. frame_ok m" "\<not> complete_front tail"
  shows "cut_frames (concat (map encode_frame ms) @ tail) = (ms, tail)"
  using assms(1)
proof (induction ms)
  case Nil
  then show ?case using assms(2) by (simp add: cut_frames_stop)
next
  case (Cons m ms)
  then have ok: "frame_ok m" and IH: "cut_frames (concat (map encode_frame ms) @ tail) = (ms, tail)"
    by auto
  let ?t = "concat (map encode_frame ms) @ tail"
  have "drop (front_len (encode_frame m @ ?t)) (encode_frame m @ ?t) = ?t"
    using encode_front[OF ok, of ?t] by simp
  with cut_frames_step[of "encode_frame m @ ?t"] encode_front[OF ok, of ?t] IH
  show ?case by simp
qed

text \<open>A proper prefix of a message is not complete, so it stays in the rest.\<close>

lemma partial_not_complete:
  assumes "frame_ok m" "n < length (encode_frame m)"
  shows "\<not> complete_front (take n (encode_frame m))"
proof
  assume c: "complete_front (take n (encode_frame m))"
  have "front_len (encode_frame m) = front_len (take n (encode_frame m))"
    using complete_front_append(3)[OF c, of "drop n (encode_frame m)"] by simp
  moreover have "front_len (encode_frame m) = length (encode_frame m)"
    using encode_front(3)[OF assms(1), of "[]"] by (simp only: append_Nil2)
  moreover have "front_len (take n (encode_frame m)) \<le> length (take n (encode_frame m))"
    by (rule complete_front_append(4)[OF c])
  ultimately show False using assms(2) by simp
qed

text \<open>Two short messages, used as concrete input where a statement is exercised.\<close>

definition frame_a :: frame where
  "frame_a = (\<lparr>hd_type = 1, data_size = 2\<rparr>, [5, 6])"

definition frame_b :: frame where
  "frame_b = (\<lparr>hd_type = 3, data_size = 1\<rparr>, [9])"

lemma frame_ab_ok [simp]: "frame_ok frame_a" "frame_ok frame_b"
  by (simp_all add: frame_ok_def frame_a_def frame_b_def)

lemma length_frame_ab [simp]: "length (encode_frame frame_a) = 10" "length (encode_frame frame_b) = 9"
  by (simp_all add: encode_frame_def frame_a_def frame_b_def)

text \<open>The stream of both, cut in the middle of the second header.\<close>

lemma cut_frame_ab:
  "cut_frames (encode_frame frame_a @ take 5 (encode_frame frame_b)) = ([frame_a], take 5 (encode_frame frame_b))"
  "cut_frames (encode_frame frame_a @ encode_frame frame_b) = ([frame_a, frame_b], [])"
  "cut_frames (encode_frame frame_b) = ([frame_b], [])"
  "complete_front (encode_frame frame_a @ ys)" "complete_front (encode_frame frame_b)"
  using cut_frames_encode[of "[frame_a]" "take 5 (encode_frame frame_b)"] partial_not_complete[of frame_b 5]
    cut_frames_encode[of "[frame_a, frame_b]" "[]"] cut_frames_encode[of "[frame_b]" "[]"]
    encode_front(1)[of frame_a ys] encode_front(1)[of frame_b "[]"]
  by (simp_all add: complete_front_def)

section \<open>The two guards of the receive loops\<close>

lemma int32_at_range: "- (2 ^ 31) \<le> int32_at bs p" "int32_at bs p < 2 ^ 31"
  unfolding int32_at_def using sint_greater_eq[where 'a = 32] sint_less[where 'a = 32] by auto

lemma data_size_range: "- (2 ^ 31) \<le> data_size (header_at bs p)" "data_size (header_at bs p) < 2 ^ 31"
  using int32_at_range by (simp_all add: header_at_def)

text \<open>
  Whatever the length of the buffer, passing both guards means that header and payload lie
  inside the buffer; below \<open>2 ^ 31\<close> bytes the guards are exactly those two conditions.
\<close>

lemma cast_guard_header:
  assumes "0 \<le> S" "8 < size_cast S"
  shows "size_cast S \<le> S"
proof -
  obtain k where k: "S = size_cast S + 2 ^ 32 * k" using size_cast_decomp by blast
  have "0 \<le> k"
  proof (rule ccontr)
    assume "\<not> 0 \<le> k"
    then have "2 ^ 32 * k \<le> - (2 ^ 32)" by simp
    with k assms size_cast_range(2)[of S] show False by simp
  qed
  then have "0 \<le> 2 ^ 32 * k" by simp
  with k show ?thesis by linarith
qed

lemma cast_guard_payload:
  assumes "0 \<le> S" "8 < size_cast S" "0 < ds" "ds < 2 ^ 31" "0 \<le> size_cast (S - 8 - ds)"
  shows "8 + ds \<le> S"
proof -
  obtain k where k: "S = size_cast S + 2 ^ 32 * k" using size_cast_decomp by blast
  have "size_cast (S - 8 - ds) = size_cast ((size_cast S - 8 - ds) + 2 ^ 32 * k)"
    using k by (metis add_diff_eq diff_add_eq)
  also have "\<dots> = size_cast S - 8 - ds"
    unfolding size_cast_period using assms size_cast_range(2)[of S]
    by (intro size_cast_small) linarith+
  finally show ?thesis using assms(5) cast_guard_header[OF assms(1,2)] by linarith
qed

lemma cast_guards_exact:
  assumes "0 \<le> S" "S < 2 ^ 31"
  shows "8 < size_cast S \<longleftrightarrow> 8 < S"
    and "0 < ds \<Longrightarrow> ds < 2 ^ 31 \<Longrightarrow> 8 < S \<Longrightarrow> 0 \<le> size_cast (S - 8 - ds) \<longleftrightarrow> 8 + ds \<le> S"
  using assms by (auto simp: size_cast_small)

text \<open>
  The conditions under which the loops of both notify classes hand out the message at
  \<open>readpos\<close>, literally, and what a passed guard gives.
\<close>

definition loop_guards :: "byte list \<Rightarrow> nat \<Rightarrow> bool" where
  "loop_guards buf readpos \<longleftrightarrow>
     8 < size_cast (int (length buf) - int readpos) \<and> 0 < data_size (header_at buf readpos) \<and>
     0 \<le> size_cast (int (length buf) - int readpos - 8 - data_size (header_at buf readpos))"

definition frames_len :: "frame list \<Rightarrow> nat" where
  "frames_len ms = sum_list (map (\<lambda>m. 8 + length (snd m)) ms)"

lemma front_at:
  assumes "readpos \<le> length buf" "length buf < 2 ^ 31"
  shows "complete_front (drop readpos buf) \<longleftrightarrow> loop_guards buf readpos"
proof -
  let ?S = "int (length buf) - int readpos"
  let ?ds = "data_size (header_at buf readpos)"
  have S: "0 \<le> ?S" "?S < 2 ^ 31" using assms by auto
  have h: "8 < ?S \<Longrightarrow> header_at (drop readpos buf) 0 = header_at buf readpos" by simp
  have "complete_front (drop readpos buf) \<longleftrightarrow> 8 < ?S \<and> 0 < ?ds \<and> 8 + ?ds \<le> ?S"
    using h assms(1) by (auto simp: complete_front_def)
  also have "\<dots> \<longleftrightarrow> 8 < size_cast ?S \<and> 0 < ?ds \<and> 0 \<le> size_cast (?S - 8 - ?ds)"
    using cast_guards_exact(1)[OF S] cast_guards_exact(2)[OF S _ data_size_range(2)] by blast
  finally show ?thesis by (simp only: loop_guards_def)
qed

lemma front_frame_at:
  assumes "complete_front (drop readpos buf)"
  shows "front_frame (drop readpos buf) =
      (header_at buf readpos, take (nat (data_size (header_at buf readpos))) (drop (readpos + 8) buf))"
    and "front_len (drop readpos buf) = 8 + nat (data_size (header_at buf readpos))"
    and "readpos + 8 + nat (data_size (header_at buf readpos)) \<le> length buf"
    and "length (snd (front_frame (drop readpos buf))) = nat (data_size (header_at buf readpos))"
proof -
  have h: "header_at (drop readpos buf) 0 = header_at buf readpos"
    using assms by (intro header_at_drop[where p = 0, simplified]) (auto simp: complete_front_def)
  with assms show "front_frame (drop readpos buf) =
      (header_at buf readpos, take (nat (data_size (header_at buf readpos))) (drop (readpos + 8) buf))"
    and "front_len (drop readpos buf) = 8 + nat (data_size (header_at buf readpos))"
    and le: "readpos + 8 + nat (data_size (header_at buf readpos)) \<le> length buf"
    by (auto simp: complete_front_def front_frame_def front_len_def add.commute)
  with assms h show "length (snd (front_frame (drop readpos buf))) = nat (data_size (header_at buf readpos))"
    by (simp add: front_frame_def)
qed

lemma loop_guards_bounds:
  assumes "readpos \<le> length buf" "loop_guards buf readpos"
  shows "readpos + 8 + nat (data_size (header_at buf readpos)) \<le> length buf"
proof -
  let ?S = "int (length buf) - int readpos"
  have "0 \<le> ?S" using assms(1) by simp
  then have "8 + data_size (header_at buf readpos) \<le> ?S"
    using cast_guard_payload[OF _ _ _ data_size_range(2)] assms(2) unfolding loop_guards_def by blast
  moreover have "0 < data_size (header_at buf readpos)" using assms(2) by (simp only: loop_guards_def)
  ultimately show ?thesis by linarith
qed

lemma header_guard_bounds:
  assumes "readpos \<le> length buf" "8 < size_cast (int (length buf) - int readpos)"
  shows "readpos + 8 \<le> length buf"
  using cast_guard_header[of "int (length buf) - int readpos"] assms by linarith

lemma frames_len_cut: "frames_len (fst (cut_frames bs)) + length (snd (cut_frames bs)) = length bs"
proof (induction bs rule: cut_frames.induct)
  case (1 bs)
  show ?case
  proof (cases "complete_front bs")
    case True
    obtain ms rest where c: "cut_frames (drop (front_len bs) bs) = (ms, rest)" by fastforce
    have "front_len bs \<le> length bs" "length (snd (front_frame bs)) + 8 = front_len bs"
      using True by (auto simp: complete_front_def front_len_def front_frame_def)
    then show ?thesis using 1[OF True] cut_frames_step[OF True c] c by (simp add: frames_len_def)
  next
    case False
    then show ?thesis by (simp add: cut_frames_stop frames_len_def)
  qed
qed

lemma cut_frames_front_at:
  assumes "complete_front (drop readpos buf)"
  shows "cut_frames (drop readpos buf) =
    (front_frame (drop readpos buf)
       # fst (cut_frames (drop (readpos + 8 + nat (data_size (header_at buf readpos))) buf)),
     snd (cut_frames (drop (readpos + 8 + nat (data_size (header_at buf readpos))) buf)))"
proof -
  have dd: "drop (front_len (drop readpos buf)) (drop readpos buf)
      = drop (readpos + 8 + nat (data_size (header_at buf readpos))) buf"
    using front_frame_at(2)[OF assms] by (simp add: add.commute add.left_commute)
  show ?thesis by (rule cut_frames_step[OF assms]) (simp only: dd prod.collapse)
qed

end
