(* ===== verification/Server_Notify.thy ===== *)
theory Server_Notify
  imports Framing Notify_Interface
begin

text \<open>
  \<open>tcp_server_notify\<close> (common/src/tcp_server_notify.h, .cpp): the receive callback of the
  server, which cuts the bytes of a connection into messages and hands each to the
  application's \<open>tcp_server_hub\<close>.  A hub object is its virtual function \<open>on_read\<close> together
  with its state; the pointer \<open>mdpt_\<close> is an option, \<open>None\<close> before \<open>init\<close>.  Trace output is
  not part of the state.  The variant under \<open>USE_DISPATCH\<close> calls a function the hub class
  does not have, and is not modelled.
\<close>

record 'c tcp_server_hub =
  hub_on_read :: "'c \<Rightarrow> 32 word \<Rightarrow> byte list \<Rightarrow> msg_header \<Rightarrow> bool \<times> 'c"
  hub_state :: 'c

type_synonym 'c server_notify = "'c tcp_server_hub option"

definition server_notify_new :: "'c server_notify" where
  "server_notify_new = None"

definition server_notify_init :: "'c tcp_server_hub \<Rightarrow> 'c server_notify \<Rightarrow> 'c server_notify" where
  "server_notify_init mdpt n = Some mdpt"

definition hub_read :: "'c tcp_server_hub \<Rightarrow> 32 word \<Rightarrow> frame \<Rightarrow> bool \<times> 'c tcp_server_hub" where
  "hub_read hub clientid m =
    (let (ok, c) = hub_on_read hub (hub_state hub) clientid (snd m) (fst m)
     in (ok, hub\<lparr>hub_state := c\<rparr>))"

text \<open>
  The loop of \<open>OnRecvData\<close> over \<open>readpos\<close>.  \<open>size - readpos\<close> and the subtraction of the
  header's \<open>data_size\<close> are \<open>size_t\<close> arithmetic, cast to \<open>int\<close> before the comparison;
  reading a header or a payload outside the buffer is a fault.
\<close>

function server_read_loop :: "'c server_notify \<Rightarrow> 32 word \<Rightarrow> byte list \<Rightarrow> nat \<Rightarrow> (nat \<times> 'c server_notify) outcome" where
  "server_read_loop mdpt clientid buf readpos =
    (if size_cast (int (length buf) - int readpos) > int m_msg_header_size then
       (if readpos + m_msg_header_size > length buf then Inl OutOfBounds
        else let m_header = header_at buf readpos in
          if data_size m_header \<le> 0 then Inr (readpos, mdpt)
          else if size_cast (int (length buf) - int readpos - int m_msg_header_size
                    - data_size m_header) \<ge> 0 then
            (case mdpt of
               None \<Rightarrow> Inl NullDeref
             | Some hub \<Rightarrow>
                 if readpos + m_msg_header_size + nat (data_size m_header) > length buf then Inl OutOfBounds
                 else
                   (case hub_read hub clientid (m_header,
                           take (nat (data_size m_header)) (drop (readpos + m_msg_header_size) buf)) of
                      (ok, hub') \<Rightarrow>
                        if ok then server_read_loop (Some hub') clientid buf
                                     (readpos + m_msg_header_size + nat (data_size m_header))
                        else Inr (readpos, Some hub')))
          else Inr (readpos, mdpt))
     else Inr (readpos, mdpt))"
  by pat_completeness auto
termination
  by (relation "measure (\<lambda>(mdpt, clientid, buf, readpos). length buf - readpos)")
    (auto simp: m_msg_header_size_def)

declare server_read_loop.simps [simp del]

definition server_OnRecvData :: "'c server_notify \<Rightarrow> 32 word \<Rightarrow> byte list option \<Rightarrow> (64 word \<times> 'c server_notify) outcome" where
  "server_OnRecvData mdpt clientid recvbuf =
    (case recvbuf of
       None \<Rightarrow> Inr (- 1, mdpt)
     | Some buf \<Rightarrow>
         if clientid \<le> 0 \<or> length buf \<le> 0 then Inr (- 1, mdpt)
         else obind (server_read_loop mdpt clientid buf 0) (\<lambda>(readpos, mdpt').
           Inr (of_nat readpos, mdpt')))"

text \<open>The other callbacks only trace.\<close>

definition server_callbacks :: "'c server_notify tNotify" where
  "server_callbacks = \<lparr>OnConnect = (\<lambda>h _ _ _. h), OnDisconnect = (\<lambda>h _. h),
     OnRecvData = server_OnRecvData, OnError = (\<lambda>h _ _. h)\<rparr>"

section \<open>What the callback does\<close>

text \<open>
  Specification: hand the complete messages to the hub in order until it refuses one.  The
  refused message, and everything after it, stays in the buffer and is offered again.
\<close>

fun hub_feed :: "'c tcp_server_hub \<Rightarrow> 32 word \<Rightarrow> frame list \<Rightarrow> nat \<times> 'c tcp_server_hub" where
  "hub_feed hub clientid [] = (0, hub)"
| "hub_feed hub clientid (m # ms) =
    (case hub_read hub clientid m of
       (True, hub') \<Rightarrow> (case hub_feed hub' clientid ms of (n, hub'') \<Rightarrow> (Suc n, hub''))
     | (False, hub') \<Rightarrow> (0, hub'))"

lemma server_read_loop_stop:
  assumes "readpos \<le> length buf" "\<not> loop_guards buf readpos"
  shows "server_read_loop mdpt clientid buf readpos = Inr (readpos, mdpt)"
  using assms header_guard_bounds[OF assms(1)]
  by (auto simp: server_read_loop.simps[of mdpt clientid buf readpos] loop_guards_def m_msg_header_size_def Let_def)

text \<open>One round of the loop, on a buffer of any length.\<close>

definition payload_at :: "byte list \<Rightarrow> nat \<Rightarrow> byte list" where
  "payload_at buf readpos = take (nat (data_size (header_at buf readpos))) (drop (readpos + 8) buf)"

lemma server_read_loop_round:
  assumes "readpos \<le> length buf" "loop_guards buf readpos"
    and "hub_read hub clientid (header_at buf readpos, payload_at buf readpos) = (ok, hub')"
  shows "server_read_loop (Some hub) clientid buf readpos =
    (if ok then server_read_loop (Some hub') clientid buf (readpos + 8 + nat (data_size (header_at buf readpos)))
     else Inr (readpos, Some hub'))"
  using assms loop_guards_bounds[OF assms(1,2)]
  by (simp add: server_read_loop.simps[of "Some hub" clientid buf readpos] loop_guards_def
      m_msg_header_size_def Let_def payload_at_def)

lemma server_read_loop_feed:
  assumes "readpos \<le> length buf" "length buf < 2 ^ 31"
    and "hub_feed hub clientid (fst (cut_frames (drop readpos buf))) = (n, hub')"
  shows "server_read_loop (Some hub) clientid buf readpos =
    Inr (readpos + frames_len (take n (fst (cut_frames (drop readpos buf)))), Some hub')"
  using assms
proof (induction "length buf - readpos" arbitrary: readpos hub n rule: less_induct)
  case less
  let ?bs = "drop readpos buf"
  show ?case
  proof (cases "complete_front ?bs")
    case False
    then show ?thesis
      using less.prems server_read_loop_stop front_at[OF less.prems(1,2)]
      by (simp add: cut_frames_stop frames_len_def)
  next
    case True
    note f = front_frame_at[OF True]
    let ?rp = "readpos + 8 + nat (data_size (header_at buf readpos))"
    have cut: "cut_frames ?bs = (front_frame ?bs # fst (cut_frames (drop ?rp buf)), snd (cut_frames (drop ?rp buf)))"
      by (rule cut_frames_front_at[OF True])
    obtain ok h1 where hr: "hub_read hub clientid (front_frame ?bs) = (ok, h1)" by fastforce
    have round: "server_read_loop (Some hub) clientid buf readpos =
        (if ok then server_read_loop (Some h1) clientid buf ?rp else Inr (readpos, Some h1))"
      by (rule server_read_loop_round)
        (use less.prems True front_at hr f(1) in \<open>simp_all add: payload_at_def\<close>)
    show ?thesis
    proof (cases ok)
      case False
      then show ?thesis using less.prems(3) hr cut round by (auto simp: frames_len_def)
    next
      case ok: True
      obtain k where k: "hub_feed h1 clientid (fst (cut_frames (drop ?rp buf))) = (k, hub')" "n = Suc k"
        using less.prems(3) cut hr ok by (auto split: prod.splits)
      have "length buf - ?rp < length buf - readpos" using f(3) by linarith
      from less.hyps[OF this f(3) less.prems(2) k(1)] show ?thesis
        using ok round cut k(2) f(4) by (simp add: frames_len_def)
    qed
  qed
qed

text \<open>No buffer makes the loop read outside it, whatever its length and content.\<close>

lemma server_read_loop_safe:
  assumes "readpos \<le> length buf"
  shows "\<exists>r. server_read_loop (Some hub) clientid buf readpos = Inr r \<and> readpos \<le> fst r \<and> fst r \<le> length buf
    \<and> snd r \<noteq> None"
  using assms
proof (induction "length buf - readpos" arbitrary: readpos hub rule: less_induct)
  case less
  show ?case
  proof (cases "loop_guards buf readpos")
    case False
    then show ?thesis using server_read_loop_stop[OF less.prems, of "Some hub" clientid] less.prems by simp
  next
    case True
    let ?rp = "readpos + 8 + nat (data_size (header_at buf readpos))"
    have le: "?rp \<le> length buf" by (rule loop_guards_bounds[OF less.prems True])
    obtain ok h1 where "hub_read hub clientid (header_at buf readpos, payload_at buf readpos) = (ok, h1)"
      by fastforce
    note round = server_read_loop_round[OF less.prems True this]
    have "length buf - ?rp < length buf - readpos" using le by linarith
    from less.hyps[OF this le, of h1] round less.prems show ?thesis by (cases ok) (auto intro: order_trans)
  qed
qed

section \<open>The callback as a stream handler\<close>

definition hub_accepts :: "'c tcp_server_hub \<Rightarrow> bool" where
  "hub_accepts hub \<longleftrightarrow> (\<forall>c clientid payload hdr. fst (hub_on_read hub c clientid payload hdr))"

definition server_ready :: "32 word \<Rightarrow> 'c server_notify \<Rightarrow> bool" where
  "server_ready clientid mdpt \<longleftrightarrow> clientid \<noteq> 0 \<and> (\<exists>hub. mdpt = Some hub \<and> hub_accepts hub)"

definition server_absorb :: "32 word \<Rightarrow> 'c server_notify \<Rightarrow> byte list \<Rightarrow> 'c server_notify \<times> byte list" where
  "server_absorb clientid mdpt bs =
    (case mdpt of
       None \<Rightarrow> (None, bs)
     | Some hub \<Rightarrow> (Some (snd (hub_feed hub clientid (fst (cut_frames bs)))), snd (cut_frames bs)))"

lemma hub_read_accepts:
  assumes "hub_accepts hub"
  shows "fst (hub_read hub clientid m)" "hub_accepts (snd (hub_read hub clientid m))"
  using assms by (simp_all add: hub_read_def hub_accepts_def Let_def case_prod_beta)

lemma hub_feed_accepts:
  assumes "hub_accepts hub"
  shows "fst (hub_feed hub clientid ms) = length ms \<and> hub_accepts (snd (hub_feed hub clientid ms))"
  using assms
proof (induction ms arbitrary: hub)
  case Nil
  then show ?case by simp
next
  case (Cons m ms)
  obtain hub' where "hub_read hub clientid m = (True, hub')" "hub_accepts hub'"
    using hub_read_accepts[OF Cons.prems, of clientid m] by (metis prod.collapse)
  with Cons.IH[of hub'] show ?case by (auto split: prod.splits)
qed

lemma hub_feed_keeps_accepting: "hub_accepts hub \<Longrightarrow> hub_accepts (snd (hub_feed hub clientid ms))"
  using hub_feed_accepts by blast

lemma hub_feed_append:
  assumes "hub_accepts hub"
  shows "snd (hub_feed hub clientid (xs @ ys)) = snd (hub_feed (snd (hub_feed hub clientid xs)) clientid ys)"
  using assms
proof (induction xs arbitrary: hub)
  case Nil
  then show ?case by simp
next
  case (Cons m xs)
  obtain hub' where "hub_read hub clientid m = (True, hub')" "hub_accepts hub'"
    using hub_read_accepts[OF Cons.prems, of clientid m] by (metis prod.collapse)
  with Cons.IH[of hub'] show ?case by (auto split: prod.splits)
qed

lemma server_OnRecvData_feed:
  assumes "clientid \<noteq> 0" "bs \<noteq> []" "length bs < 2 ^ 31"
    and "hub_feed hub clientid (fst (cut_frames bs)) = (n, hub')"
  shows "server_OnRecvData (Some hub) clientid (Some bs) =
    Inr (of_nat (frames_len (take n (fst (cut_frames bs)))), Some hub')"
  using server_read_loop_feed[of 0 bs hub clientid n hub'] assms
  by (simp add: server_OnRecvData_def word_le_0_iff)

text \<open>\<open>SYSRECVBUF\<close> of base/src/tcp_common/common.h: the size of a connection's receive buffer.\<close>

definition SYSRECVBUF :: nat where
  "SYSRECVBUF = 1024 * 1024"

interpretation sn: stream_handler
  "\<lambda>clientid mdpt bs. server_OnRecvData mdpt clientid (Some bs)" SYSRECVBUF server_ready server_absorb
proof unfold_locales
  show "SYSRECVBUF < 2 ^ 31" by (simp add: SYSRECVBUF_def)
next
  fix k :: "32 word" and h :: "'a server_notify" and bs :: "byte list"
  assume r: "server_ready k h" and ne: "bs \<noteq> []" and le: "length bs \<le> SYSRECVBUF"
  obtain hub where hub: "h = Some hub" "hub_accepts hub" and k: "k \<noteq> 0"
    using r by (auto simp: server_ready_def)
  have lt: "length bs < 2 ^ 31" using le by (simp add: SYSRECVBUF_def)
  have "hub_feed hub k (fst (cut_frames bs)) =
      (length (fst (cut_frames bs)), snd (hub_feed hub k (fst (cut_frames bs))))"
    using hub_feed_accepts[OF hub(2)] by (metis prod.collapse)
  from server_OnRecvData_feed[OF k ne lt this] frames_len_cut[of bs]
  show "server_OnRecvData h k (Some bs) =
      Inr (of_nat (length bs - length (snd (server_absorb k h bs))), fst (server_absorb k h bs))"
    by (simp add: hub server_absorb_def) (metis add_diff_cancel_right' of_nat_add)
next
  fix k :: "32 word" and h :: "'a server_notify" and bs :: "byte list"
  assume "server_ready k h"
  then show "server_ready k (fst (server_absorb k h bs))"
    by (auto simp: server_ready_def server_absorb_def hub_feed_keeps_accepting)
next
  fix k :: "32 word" and h :: "'a server_notify" and bs :: "byte list"
  show "\<exists>used. bs = used @ snd (server_absorb k h bs)"
    using cut_frames_suffix[of bs] by (auto simp: server_absorb_def split: option.split)
next
  fix k :: "32 word" and h :: "'a server_notify" and a b :: "byte list"
  assume "server_ready k h"
  then obtain hub where hub: "h = Some hub" "hub_accepts hub" by (auto simp: server_ready_def)
  show "server_absorb k h (a @ b) =
      server_absorb k (fst (server_absorb k h a)) (snd (server_absorb k h a) @ b)"
    using cut_frames_append[of a b] hub_feed_append[OF hub(2)] by (simp add: hub(1) server_absorb_def)
qed

end
