(* ===== verification/Cell_Manager.thy ===== *)
theory Cell_Manager
  imports Srt_Queue Client_Cell Notify_Interface Sockets Base_Util Server_Notify
begin

text \<open>
  \<open>cellManager\<close> (base/src/tcp_server/cell_manager.h, .cpp): one event loop of the server.  The
  map \<open>m_Cell\<close> of its connections, the queue \<open>m_cellTask\<close> through which other threads reach it,
  the kernel's interest list behind its epoll descriptor, and the callback object.  What the
  kernel answers to \<open>read\<close>, \<open>write\<close> and \<open>epoll_wait\<close> is an argument.  The methods are atomic
  here; the queue's own concurrency is the subject of theory \<open>Srt_Concurrent\<close>.

  Three members of the state record do not stand for members of the class: \<open>cm_epoll\<close> (the kernel's
  interest list), \<open>cm_heap\<close> and \<open>cm_next\<close> (the heap of \<open>sendCell\<close> objects), and two are logs of
  output: the descriptors closed and the bytes written per descriptor.
\<close>

section \<open>State\<close>

record cellTask =
  ct_event :: char
  ct_clientid :: int
  ct_sC :: "nat option"

record 'h cellManager =
  cm_Cell :: "int \<Rightarrow> clientCell option"
  cm_ListenFd :: int
  cm_BindCpu :: int
  cm_cellTask :: "cellTask srt_queue"
  cm_TNotify :: 'h
  cm_epoll :: "int \<Rightarrow> 32 word option"
  cm_heap :: send_heap
  cm_next :: nat
  cm_closed :: "int list"
  cm_wire :: "int \<Rightarrow> byte list"

text \<open>\<open>new cellTask()\<close> zeroes the members.\<close>

definition cellTask_new :: cellTask where
  "cellTask_new = \<lparr>ct_event = CHR 0x00, ct_clientid = 0, ct_sC = None\<rparr>"

definition cellManager_new :: "int \<Rightarrow> 'h \<Rightarrow> int \<Rightarrow> 'h cellManager" where
  "cellManager_new epfd tN cpuN =
    \<lparr>cm_Cell = (\<lambda>_. None), cm_ListenFd = epfd, cm_BindCpu = cpuN,
     cm_cellTask = snd (srt_init (srt_new cellTask_new kDefaultPageMsgCountBits kDefaultPageIndexBits)),
     cm_TNotify = tN, cm_epoll = (\<lambda>_. None), cm_heap = (\<lambda>_. None), cm_next = 0,
     cm_closed = [], cm_wire = (\<lambda>_. [])\<rparr>"

section \<open>Posting tasks\<close>

definition cm_push :: "cellTask \<Rightarrow> 'h cellManager \<Rightarrow> (bool \<times> 'h cellManager) outcome" where
  "cm_push ct s = obind (srt_push ct (cm_cellTask s)) (\<lambda>(ok, q). Inr (ok, s\<lparr>cm_cellTask := q\<rparr>))"

definition addTask :: "clientCell \<Rightarrow> 'h cellManager \<Rightarrow> 'h cellManager outcome" where
  "addTask cell s =
    (let ct = cellTask_new\<lparr>ct_event := CHR ''A'', ct_clientid := ce_ClientFd cell\<rparr>;
         s1 = s\<lparr>cm_Cell := (cm_Cell s)(ce_ClientFd cell \<mapsto> cell)\<rparr>
     in obind (cm_push ct s1) (\<lambda>(ok, s2). Inr s2))"

definition delTask :: "int \<Rightarrow> 'h cellManager \<Rightarrow> 'h cellManager outcome" where
  "delTask clientid s =
    (let ct = cellTask_new\<lparr>ct_event := CHR ''D'', ct_clientid := clientid\<rparr>
     in obind (cm_push ct s) (\<lambda>(ok, s2). Inr s2))"

text \<open>
  \<open>sendTask\<close>: \<open>p\<close> is the memory readable at the pointer, \<open>len\<close> the \<open>int\<close> argument.  The array of
  \<open>size + 1\<close> bytes is zeroed and the first \<open>size\<close> bytes are copied; \<open>memcpy\<close> takes the size as a
  \<open>size_t\<close>, so a negative one reads past any buffer.
\<close>

definition sendCell_make :: "byte list \<Rightarrow> int \<Rightarrow> sendCell outcome" where
  "sendCell_make p len =
    obind (oassert BadAlloc (0 \<le> len + 1 \<and> len + 1 < 2 ^ 31)) (\<lambda>_.
    obind (oassert OutOfBounds (0 \<le> len \<and> nat len \<le> length p)) (\<lambda>_.
      Inr \<lparr>sc_ptr = Some (take (nat len) p @ [0]), sc_size = len, sc_sendPos = 0\<rparr>))"

definition sendTask :: "int \<Rightarrow> byte list \<Rightarrow> int \<Rightarrow> 'h cellManager \<Rightarrow> (int \<times> 'h cellManager) outcome" where
  "sendTask clientid p len s =
    (if cm_Cell s clientid = None then Inr (error_code NAUT_AT_E_TCP_SERVER_CLIENT_CLOSED, s)
     else obind (sendCell_make p len) (\<lambda>sc.
       let a = cm_next s;
           s1 = s\<lparr>cm_heap := (cm_heap s)(a \<mapsto> sc), cm_next := Suc a\<rparr>;
           ct = cellTask_new\<lparr>ct_event := CHR ''S'', ct_clientid := clientid, ct_sC := Some a\<rparr>
       in obind (cm_push ct s1) (\<lambda>(flag, s2).
         if \<not> flag then Inr (error_code NAUT_AT_E_TCP_SERVER_PUSH_CACHE_FAILED, s2)
         else Inr (error_code NAUT_AT_S_OK, s2))))"

text \<open>
  \<open>directSend\<close> is a bare \<open>write\<close>, past the queue and the ring; nothing in the library calls it.  A
  negative size, converted to \<open>size_t\<close>, is beyond any buffer.
\<close>

definition directSend :: "int \<Rightarrow> byte list \<Rightarrow> int \<Rightarrow> write_result \<Rightarrow> 'h cellManager \<Rightarrow> (int \<times> 'h cellManager) outcome" where
  "directSend clientid ptr sz w s =
    obind (oassert OutOfBounds (0 \<le> sz \<and> nat sz \<le> length ptr)) (\<lambda>_.
      case sys_write (take (nat sz) ptr) w of
        Inl e \<Rightarrow> Inr (- 1, s)
      | Inr sent \<Rightarrow>
          Inr (int (length sent), s\<lparr>cm_wire := (cm_wire s)(clientid := cm_wire s clientid @ sent)\<rparr>))"

section \<open>Handling tasks\<close>

text \<open>The bits of \<open>epoll_event.events\<close>.\<close>

definition EPOLLIN :: "32 word" where "EPOLLIN = 0x001"
definition EPOLLPRI :: "32 word" where "EPOLLPRI = 0x002"
definition EPOLLOUT :: "32 word" where "EPOLLOUT = 0x004"
definition EPOLLERR :: "32 word" where "EPOLLERR = 0x008"
definition EPOLLHUP :: "32 word" where "EPOLLHUP = 0x010"
definition EPOLLRDHUP :: "32 word" where "EPOLLRDHUP = 0x2000"
definition EPOLLET :: "32 word" where "EPOLLET = 0x80000000"

text \<open>
  \<open>epoll_ctl\<close> on the interest list: adding a descriptor that is present fails, as does modifying
  or deleting one that is not; closing a descriptor removes it.
\<close>

definition epoll_add :: "int \<Rightarrow> 32 word \<Rightarrow> (int \<Rightarrow> 32 word option) \<Rightarrow> (int \<Rightarrow> 32 word option)" where
  "epoll_add fd ev ep = (if ep fd = None then ep(fd \<mapsto> ev) else ep)"

definition epoll_mod :: "int \<Rightarrow> 32 word \<Rightarrow> (int \<Rightarrow> 32 word option) \<Rightarrow> (int \<Rightarrow> 32 word option)" where
  "epoll_mod fd ev ep = (if ep fd = None then ep else ep(fd \<mapsto> ev))"

definition epoll_del :: "int \<Rightarrow> (int \<Rightarrow> 32 word option) \<Rightarrow> (int \<Rightarrow> 32 word option)" where
  "epoll_del fd ep = ep(fd := None)"

definition handleAdd :: "'h tNotify \<Rightarrow> cellTask \<Rightarrow> 'h cellManager \<Rightarrow> 'h cellManager outcome" where
  "handleAdd n ct s =
    (case cm_Cell s (ct_clientid ct) of
       None \<Rightarrow> delTask (ct_clientid ct) s
     | Some cell \<Rightarrow>
         let cell' = cell\<lparr>ce_Events := EPOLLET OR EPOLLIN OR EPOLLPRI OR EPOLLRDHUP OR EPOLLERR\<rparr>
         in Inr (s\<lparr>cm_Cell := (cm_Cell s)(ct_clientid ct \<mapsto> cell'),
                   cm_epoll := epoll_add (ce_ClientFd cell') (ce_Events cell') (cm_epoll s),
                   cm_TNotify := OnConnect n (cm_TNotify s) (word_of_int (ce_ClientFd cell')) (ce_Ip cell') (ce_Port cell')\<rparr>))"

text \<open>
  \<open>handleSend\<close>: a full ring returns early, as does a connection that is gone; what follows the
  early return in the branch for a full ring is dead code.
\<close>

definition send_full :: "clientCell \<Rightarrow> bool" where
  "send_full cell \<longleftrightarrow> int (unat (ce_SendWritePos cell + 1)) mod int SYSSENDBUF = int (unat (ce_SendReadPos cell))"

definition handleSend :: "cellTask \<Rightarrow> 'h cellManager \<Rightarrow> 'h cellManager outcome" where
  "handleSend ct s =
    (case cm_Cell s (ct_clientid ct) of
       None \<Rightarrow> Inr s
     | Some cell \<Rightarrow>
         if send_full cell then Inr s
         else obind (oassert OutOfBounds (unat (ce_SendWritePos cell) < CLIENTCELLSENDBUF)) (\<lambda>_.
           let cell' = cell\<lparr>ce_SendBuf := (ce_SendBuf cell)(unat (ce_SendWritePos cell) := ct_sC ct),
                            ce_SendWritePos := send_next (ce_SendWritePos cell)\<rparr>
           in Inr (s\<lparr>cm_Cell := (cm_Cell s)(ct_clientid ct \<mapsto> cell')\<rparr>)))"

definition delClientCell :: "clientCell \<Rightarrow> 'h cellManager \<Rightarrow> 'h cellManager outcome" where
  "delClientCell cell s =
    obind (clientCell_delete cell (cm_heap s)) (\<lambda>h.
      Inr (s\<lparr>cm_epoll := epoll_del (ce_ClientFd cell) (cm_epoll s),
             cm_closed := ce_ClientFd cell # cm_closed s, cm_heap := h\<rparr>))"

definition handleDel :: "'h tNotify \<Rightarrow> cellTask \<Rightarrow> 'h cellManager \<Rightarrow> 'h cellManager outcome" where
  "handleDel n ct s =
    (case cm_Cell s (ct_clientid ct) of
       None \<Rightarrow> Inr s
     | Some cell \<Rightarrow>
         obind (delClientCell cell s) (\<lambda>s1.
           Inr (s1\<lparr>cm_Cell := (cm_Cell s1)(ct_clientid ct := None),
                   cm_TNotify := OnDisconnect n (cm_TNotify s1) (word_of_int (ct_clientid ct))\<rparr>)))"

definition handleOne :: "'h tNotify \<Rightarrow> cellTask \<Rightarrow> 'h cellManager \<Rightarrow> 'h cellManager outcome" where
  "handleOne n cT s =
    (if ct_event cT = CHR ''S'' then handleSend cT s
     else if ct_event cT = CHR ''D'' then handleDel n cT s
     else if ct_event cT = CHR ''A'' then handleAdd n cT s
     else Inr s)"

text \<open>
  The loop \<open>while (m_cellTask->pop(cT))\<close>.  A handler may post a task itself, so that the loop
  ends is a theorem below; \<open>None\<close> would be a loop that does not.
\<close>

partial_function (option) handleTask :: "'h tNotify \<Rightarrow> 'h cellManager \<Rightarrow> 'h cellManager outcome option" where
  "handleTask n s =
    (case srt_pop (cm_cellTask s) of
       Inl e \<Rightarrow> Some (Inl e)
     | Inr (None, q) \<Rightarrow> Some (Inr (s\<lparr>cm_cellTask := q\<rparr>))
     | Inr (Some cT, q) \<Rightarrow>
         (case handleOne n cT (s\<lparr>cm_cellTask := q\<rparr>) of
            Inl e \<Rightarrow> Some (Inl e)
          | Inr s' \<Rightarrow> handleTask n s'))"

section \<open>Write interest\<close>

text \<open>One entry of the map: \<open>EPOLLOUT\<close> is asked for exactly while there is something to send.\<close>

definition checkWrite_cell :: "int \<Rightarrow> 'h cellManager \<Rightarrow> 'h cellManager" where
  "checkWrite_cell fd s =
    (case cm_Cell s fd of
       None \<Rightarrow> s
     | Some cell \<Rightarrow>
         if ce_SendWritePos cell \<noteq> ce_SendReadPos cell then
           let cell' = cell\<lparr>ce_Events := ce_Events cell OR EPOLLOUT\<rparr>
           in s\<lparr>cm_Cell := (cm_Cell s)(fd \<mapsto> cell'),
                cm_epoll := epoll_mod (ce_ClientFd cell') (ce_Events cell') (cm_epoll s)\<rparr>
         else if ce_Events cell AND EPOLLOUT \<noteq> 0 then
           let cell' = cell\<lparr>ce_Events := ce_Events cell AND NOT EPOLLOUT\<rparr>
           in s\<lparr>cm_Cell := (cm_Cell s)(fd \<mapsto> cell'),
                cm_epoll := epoll_mod (ce_ClientFd cell') (ce_Events cell') (cm_epoll s)\<rparr>
         else s)"

text \<open>\<open>keys\<close> is the order in which the iteration over \<open>m_Cell\<close> visits its keys.\<close>

definition checkWrite :: "int list \<Rightarrow> 'h cellManager \<Rightarrow> 'h cellManager" where
  "checkWrite keys s = foldl (\<lambda>s fd. checkWrite_cell fd s) s keys"

section \<open>Receiving\<close>

text \<open>
  How the loop of \<open>doRecv\<close> ends: with the value of \<open>err\<close>, or not within the given answers of
  \<open>read\<close>.
\<close>

datatype recv_exit = RecvDone int | RecvLooping

text \<open>
  One round after a \<open>read\<close> that returned the bytes \<open>bs\<close>, at least one: store them, offer
  everything unread to the callback, move the positions.  \<open>retSize\<close> is a \<open>size_t\<close>, of which the
  32-bit position keeps the low half.
\<close>

definition recv_round :: "'h tNotify \<Rightarrow> byte list \<Rightarrow> clientCell \<Rightarrow> 'h \<Rightarrow> (clientCell \<times> 'h) outcome" where
  "recv_round n bs cell h =
    obind (oassert OutOfBounds (unat (ce_RecvWritePos cell) + length bs \<le> CLIENTCELLRECVBUF)) (\<lambda>_.
    let cell1 = cell\<lparr>ce_RecvBuf := mem_write (ce_RecvBuf cell) (unat (ce_RecvWritePos cell)) bs,
                     ce_RecvWritePos := ce_RecvWritePos cell + of_nat (length bs)\<rparr>;
        len = unat (ce_RecvWritePos cell1 - ce_RecvReadPos cell1)
    in obind (oassert OutOfBounds (unat (ce_RecvReadPos cell1) + len \<le> CLIENTCELLRECVBUF)) (\<lambda>_.
    obind (OnRecvData n h (word_of_int (ce_ClientFd cell1))
             (Some (mem_read (ce_RecvBuf cell1) (unat (ce_RecvReadPos cell1)) len))) (\<lambda>(retSize, h').
    let cell2 = cell1\<lparr>ce_RecvReadPos := ce_RecvReadPos cell1 + ucast retSize\<rparr>
    in if ce_RecvReadPos cell2 \<ge> ce_RecvWritePos cell2 then
         Inr (cell2\<lparr>ce_RecvReadPos := 0, ce_RecvWritePos := 0\<rparr>, h')
       else if unat (ce_RecvReadPos cell2) \<ge> SYSRECVBUF div 2 then
         let k = unat (ce_RecvWritePos cell2 - ce_RecvReadPos cell2) in
         obind (oassert OutOfBounds (unat (ce_RecvReadPos cell2) + k \<le> CLIENTCELLRECVBUF)) (\<lambda>_.
         obind (oassert MemcpyOverlap (memcpy_ok 0 (unat (ce_RecvReadPos cell2)) k)) (\<lambda>_.
           Inr (cell2\<lparr>ce_RecvBuf := mem_copy (ce_RecvBuf cell2) 0 (unat (ce_RecvReadPos cell2)) k,
                      ce_RecvWritePos := ce_RecvWritePos cell2 - ce_RecvReadPos cell2,
                      ce_RecvReadPos := 0\<rparr>, h')))
       else Inr (cell2, h'))))"

function recv_loop :: "'h tNotify \<Rightarrow> clientCell \<Rightarrow> 'h \<Rightarrow> read_result list \<Rightarrow>
    (recv_exit \<times> clientCell \<times> 'h \<times> read_result list) outcome" where
  "recv_loop n cell h script =
    (if \<not> unat (ce_RecvWritePos cell) < SYSRECVBUF then Inr (RecvDone 0, cell, h, script)
     else let room = SYSRECVBUF - unat (ce_RecvWritePos cell) in
       (case sys_read room script of
          None \<Rightarrow> Inr (RecvLooping, cell, h, script)
        | Some (ReadErr e, script') \<Rightarrow>
            if e = EINTR \<or> e = EAGAIN then recv_loop n cell h script'
            else Inr (RecvDone (- 1), cell, h, script')
        | Some (ReadData bs, script') \<Rightarrow>
            if bs = [] then Inr (RecvDone (- 1), cell, h, script')
            else (case recv_round n bs cell h of
                Inl f \<Rightarrow> Inl f
              | Inr (cell', h') \<Rightarrow>
                  if unat (ce_RecvWritePos cell') \<ge> SYSRECVBUF then
                    Inr (RecvDone (- 2), cell', OnError n h' (word_of_int (ce_ClientFd cell')) (- 2), script')
                  else if length bs < room then Inr (RecvDone 0, cell', h', script')
                  else recv_loop n cell' h' script')))"
  by pat_completeness auto
termination
  by (relation "measure (\<lambda>(n, cell, h, script). script_size script)") (auto dest: sys_read_smaller)

declare recv_loop.simps [simp del]

definition doRecv :: "'h tNotify \<Rightarrow> int \<Rightarrow> read_result list \<Rightarrow> 'h cellManager \<Rightarrow>
    (recv_exit \<times> 'h cellManager \<times> read_result list) outcome" where
  "doRecv n clientid script s =
    (case cm_Cell s clientid of
       None \<Rightarrow> Inr (RecvDone 0, s, script)
     | Some cell \<Rightarrow>
         obind (recv_loop n cell (cm_TNotify s) script) (\<lambda>(ex, cell', h', script').
           let s1 = s\<lparr>cm_Cell := (cm_Cell s)(clientid \<mapsto> cell'), cm_TNotify := h'\<rparr>
           in if ex = RecvDone (- 1)
              then obind (delTask (ce_ClientFd cell') s1) (\<lambda>s2. Inr (ex, s2, script'))
              else Inr (ex, s1, script')))"

section \<open>Sending\<close>

definition serverMaxSendTimes :: nat where
  "serverMaxSendTimes = 1000"

text \<open>
  The \<open>for\<close> loop of \<open>doSend\<close>; \<open>ws i\<close> is the kernel's answer to a \<open>write\<close> in round \<open>i\<close>, \<open>out\<close> the
  bytes the kernel has taken.  A round with nothing to send does nothing.
\<close>

fun send_loop :: "nat \<Rightarrow> (nat \<Rightarrow> write_result) \<Rightarrow> clientCell \<Rightarrow> send_heap \<Rightarrow> byte list \<Rightarrow>
    (clientCell \<times> send_heap \<times> byte list) outcome" where
  "send_loop 0 ws cell h out = Inr (cell, h, out)"
| "send_loop (Suc n) ws cell h out =
    (if ce_SendWritePos cell = ce_SendReadPos cell then send_loop n (\<lambda>i. ws (Suc i)) cell h out
     else obind (send_slot cell (ce_SendReadPos cell)) (\<lambda>p.
       case p of
         None \<Rightarrow> Inl NullDeref
       | Some a \<Rightarrow>
           (case h a of
              None \<Rightarrow> Inl UseAfterFree
            | Some sc \<Rightarrow>
                (case sc_ptr sc of
                   None \<Rightarrow> Inl NullDeref
                 | Some mem \<Rightarrow>
                     obind (oassert OutOfBounds (0 \<le> sc_sendPos sc \<and> sc_sendPos sc \<le> sc_size sc
                              \<and> nat (sc_size sc) \<le> length mem)) (\<lambda>_.
                     (case sys_write (take (nat (sc_size sc - sc_sendPos sc)) (drop (nat (sc_sendPos sc)) mem)) (ws 0) of
                        Inl e \<Rightarrow>
                          if e = EINTR \<or> e = EAGAIN then send_loop n (\<lambda>i. ws (Suc i)) cell h out
                          else Inr (cell, h, out)
                      | Inr sent \<Rightarrow>
                          if sent = [] then Inr (cell, h, out)
                          else if int (length sent) < sc_size sc - sc_sendPos sc then
                            Inr (cell, h(a \<mapsto> sc\<lparr>sc_sendPos := sc_sendPos sc + int (length sent)\<rparr>), out @ sent)
                          else
                            send_loop n (\<lambda>i. ws (Suc i))
                              (cell\<lparr>ce_SendBuf := (ce_SendBuf cell)(unat (ce_SendReadPos cell) := None),
                                    ce_SendReadPos := send_next (ce_SendReadPos cell)\<rparr>)
                              (h(a := None)) (out @ sent)))))))"

definition doSend :: "int \<Rightarrow> (nat \<Rightarrow> write_result) \<Rightarrow> 'h cellManager \<Rightarrow> 'h cellManager outcome" where
  "doSend clientid ws s =
    (case cm_Cell s clientid of
       None \<Rightarrow> Inr s
     | Some cell \<Rightarrow>
         obind (send_loop serverMaxSendTimes ws cell (cm_heap s) []) (\<lambda>(cell', h, out).
           Inr (s\<lparr>cm_Cell := (cm_Cell s)(clientid \<mapsto> cell'), cm_heap := h,
                  cm_wire := (cm_wire s)(ce_ClientFd cell := cm_wire s (ce_ClientFd cell) @ out)\<rparr>)))"

section \<open>Events and the loop\<close>

text \<open>An event with the answers the kernel gives to the reads and writes made for it.\<close>

record io_event =
  ev_fd :: int
  ev_events :: "32 word"
  ev_reads :: "read_result list"
  ev_writes :: "nat \<Rightarrow> write_result"

definition doEvent :: "'h tNotify \<Rightarrow> io_event \<Rightarrow> 'h cellManager \<Rightarrow> (recv_exit \<times> 'h cellManager) outcome" where
  "doEvent n event s =
    (if ev_events event AND (EPOLLHUP OR EPOLLERR OR EPOLLRDHUP) \<noteq> 0
     then obind (delTask (ev_fd event) s) (\<lambda>s1. Inr (RecvDone 0, s1))
     else
       obind (if ev_events event AND EPOLLIN \<noteq> 0
              then obind (doRecv n (ev_fd event) (ev_reads event) s) (\<lambda>(ex, s1, script). Inr (ex, s1))
              else Inr (RecvDone 0, s)) (\<lambda>(ex, s1).
         if ex \<noteq> RecvLooping \<and> ev_events event AND EPOLLOUT \<noteq> 0
         then obind (doSend (ev_fd event) (ev_writes event) s1) (\<lambda>s2. Inr (ex, s2))
         else Inr (ex, s1)))"

text \<open>The events of one \<open>epoll_wait\<close>, until one of them does not return.\<close>

fun doEvents :: "'h tNotify \<Rightarrow> io_event list \<Rightarrow> 'h cellManager \<Rightarrow> (bool \<times> 'h cellManager) outcome" where
  "doEvents n [] s = Inr (True, s)"
| "doEvents n (e # es) s =
    obind (doEvent n e s) (\<lambda>(ex, s').
      if ex = RecvLooping then Inr (False, s') else doEvents n es s')"

text \<open>
  One pass of the loop of \<open>run\<close>: \<open>wait\<close> is what \<open>epoll_wait\<close> returns, \<open>None\<close> for an error.  The
  inner results: \<open>None\<close> if \<open>handleTask\<close> did not return; \<open>False\<close> if the thread is caught in \<open>doRecv\<close>.
\<close>

definition run_pass :: "'h tNotify \<Rightarrow> int list \<Rightarrow> io_event list option \<Rightarrow> 'h cellManager \<Rightarrow>
    (bool \<times> 'h cellManager) outcome option" where
  "run_pass n keys wait s =
    (case handleTask n s of
       None \<Rightarrow> None
     | Some (Inl e) \<Rightarrow> Some (Inl e)
     | Some (Inr s1) \<Rightarrow>
         Some (let s2 = checkWrite keys s1
               in case wait of None \<Rightarrow> Inr (True, s2) | Some events \<Rightarrow> doEvents n events s2))"

section \<open>Destruction\<close>

text \<open>
  \<open>~cellManager\<close> after \<open>stop\<close>: every connection in the order \<open>keys\<close>, then the tasks left in the
  queue.  A task \<open>'S'\<close> frees its message.
\<close>

fun destroy_cells :: "int list \<Rightarrow> 'h cellManager \<Rightarrow> 'h cellManager outcome" where
  "destroy_cells [] s = Inr (s\<lparr>cm_Cell := (\<lambda>_. None)\<rparr>)"
| "destroy_cells (fd # fds) s =
    (case cm_Cell s fd of
       None \<Rightarrow> destroy_cells fds s
     | Some cell \<Rightarrow> obind (delClientCell cell s) (\<lambda>s'. destroy_cells fds s'))"

partial_function (option) destroy_tasks :: "cellTask srt_queue \<Rightarrow> send_heap \<Rightarrow> (cellTask srt_queue \<times> send_heap) outcome option" where
  "destroy_tasks q h =
    (case srt_pop q of
       Inl e \<Rightarrow> Some (Inl e)
     | Inr (None, q') \<Rightarrow> Some (Inr (q', h))
     | Inr (Some cT, q') \<Rightarrow>
         if ct_event cT = CHR ''S'' then
           (case free_sendCell (ct_sC cT) h of
              Inl e \<Rightarrow> Some (Inl e)
            | Inr h' \<Rightarrow> destroy_tasks q' h')
         else destroy_tasks q' h)"

definition cellManager_delete :: "int list \<Rightarrow> 'h cellManager \<Rightarrow> 'h cellManager outcome option" where
  "cellManager_delete keys s =
    (case destroy_cells keys s of
       Inl e \<Rightarrow> Some (Inl e)
     | Inr s1 \<Rightarrow>
         (case destroy_tasks (cm_cellTask s1) (cm_heap s1) of
            None \<Rightarrow> None
          | Some (Inl e) \<Rightarrow> Some (Inl e)
          | Some (Inr (q, h)) \<Rightarrow> Some (Inr (s1\<lparr>cm_cellTask := q, cm_heap := h\<rparr>))))"

end
