(* ===== verification/Cell_Manager_Safety.thy ===== *)
theory Cell_Manager_Safety
  imports Cell_Manager
begin

text \<open>
  The event loop of \<open>cellManager\<close> never faults: every message waiting to be sent has exactly one
  owner (a task in the queue or the ring of one connection) and is live, all positions stay in
  their buffers, and \<open>handleTask\<close> returns.  The callbacks enter through a locale that says they
  do not fault; the library's own \<open>tcp_server_notify\<close> is shown to be such a class.
\<close>

section \<open>Ownership of messages\<close>

datatype owner = InQueue | InCell int

definition sc_ok :: "sendCell \<Rightarrow> bool" where
  "sc_ok sc \<longleftrightarrow> (\<exists>mem. sc_ptr sc = Some mem \<and> 0 \<le> sc_sendPos sc \<and> sc_sendPos sc \<le> sc_size sc
     \<and> nat (sc_size sc) \<le> length mem)"

definition owned :: "(owner \<Rightarrow> nat list) \<Rightarrow> send_heap \<Rightarrow> bool" where
  "owned refs h \<longleftrightarrow> (\<forall>x. distinct (refs x)) \<and> (\<forall>a x y. a \<in> set (refs x) \<and> a \<in> set (refs y) \<longrightarrow> x = y)
     \<and> (\<forall>x. \<forall>a\<in>set (refs x). \<exists>sc. h a = Some sc \<and> sc_ok sc)"

lemma ownedD:
  assumes "owned refs h"
  shows "distinct (refs x)" "a \<in> set (refs x) \<Longrightarrow> a \<in> set (refs y) \<Longrightarrow> x = y"
    "a \<in> set (refs x) \<Longrightarrow> \<exists>sc. h a = Some sc \<and> sc_ok sc"
  using assms unfolding owned_def by blast+

lemma ownedI:
  assumes "\<And>x. distinct (refs x)" "\<And>a x y. a \<in> set (refs x) \<Longrightarrow> a \<in> set (refs y) \<Longrightarrow> x = y"
    "\<And>a x. a \<in> set (refs x) \<Longrightarrow> \<exists>sc. h a = Some sc \<and> sc_ok sc"
  shows "owned refs h"
  using assms unfolding owned_def by blast

text \<open>A new message, a message given up, one handed from one owner to another, one rewritten in place.\<close>

lemma owned_new:
  assumes o: "owned refs h" and new: "\<forall>x. a \<notin> set (refs x)" and sc: "sc_ok sc"
  shows "owned (refs(x := refs x @ [a])) (h(a \<mapsto> sc))" "owned refs (h(a \<mapsto> sc))"
proof -
  show "owned (refs(x := refs x @ [a])) (h(a \<mapsto> sc))"
    by (rule ownedI) (use ownedD[OF o] new sc in \<open>auto split: if_splits\<close>)
  show "owned refs (h(a \<mapsto> sc))"
    by (rule ownedI) (use ownedD[OF o] new sc in \<open>auto split: if_splits\<close>)
qed

lemma owned_fewer:
  assumes "owned refs h" "\<And>x. set (refs' x) \<subseteq> set (refs x)" "\<And>x. distinct (refs' x)"
    "\<And>a x. a \<in> set (refs' x) \<Longrightarrow> h' a = h a"
  shows "owned refs' h'"
proof (rule ownedI)
  show "distinct (refs' x)" for x by (rule assms(3))
  show "a \<in> set (refs' x) \<Longrightarrow> a \<in> set (refs' y) \<Longrightarrow> x = y" for a x y
    using ownedD(2)[OF assms(1)] assms(2) by blast
  show "a \<in> set (refs' x) \<Longrightarrow> \<exists>sc. h' a = Some sc \<and> sc_ok sc" for a x
    using ownedD(3)[OF assms(1), of a x] assms(2)[of x] assms(4)[of a x] by auto
qed

lemma owned_move:
  assumes o: "owned refs h" and x: "refs x = a # as" and ne: "x \<noteq> y"
  shows "owned (refs(x := as, y := refs y @ [a])) h"
proof (rule ownedI)
  have d: "a \<notin> set as" "distinct as" "a \<notin> set (refs y)" "distinct (refs y)"
    using ownedD(1)[OF o, of x] ownedD(1)[OF o, of y] ownedD(2)[OF o, of a x y] x ne by auto
  show "distinct ((refs(x := as, y := refs y @ [a])) z)" for z
    using d ownedD(1)[OF o] by simp
  have sub: "b \<in> set ((refs(x := as, y := refs y @ [a])) z) \<Longrightarrow>
      (b \<noteq> a \<and> b \<in> set (refs z)) \<or> (b = a \<and> z = y)" for b z
    using d x ownedD(2)[OF o, of a x z] ne by (auto split: if_splits)
  then show "b \<in> set ((refs(x := as, y := refs y @ [a])) z) \<Longrightarrow> b \<in> set ((refs(x := as, y := refs y @ [a])) z') \<Longrightarrow> z = z'"
    for b z z' using ownedD(2)[OF o] by blast
  show "b \<in> set ((refs(x := as, y := refs y @ [a])) z) \<Longrightarrow> \<exists>sc. h b = Some sc \<and> sc_ok sc" for b z
    using sub[of b z] ownedD(3)[OF o, of b z] ownedD(3)[OF o, of a x] x by auto
qed

lemma owned_rewrite: "owned refs h \<Longrightarrow> sc_ok sc \<Longrightarrow> owned refs (h(a \<mapsto> sc))"
  unfolding owned_def by simp

lemma owned_free_first:
  assumes o: "owned refs h" and x: "refs x = a # as"
  shows "owned (refs(x := as)) (h(a := None))"
proof (rule owned_fewer[OF o])
  show "set ((refs(x := as)) z) \<subseteq> set (refs z)" for z using x by auto
  show "distinct ((refs(x := as)) z)" for z using ownedD(1)[OF o, of z] ownedD(1)[OF o, of x] x by auto
  fix b z assume b: "b \<in> set ((refs(x := as)) z)"
  have "b \<noteq> a"
  proof
    assume "b = a"
    with b x ownedD(2)[OF o, of a z x] ownedD(1)[OF o, of x] show False by (auto split: if_splits)
  qed
  then show "(h(a := None)) b = h b" by simp
qed

lemma owned_free_owner:
  assumes o: "owned refs h"
  shows "owned (refs(x := [])) (free_all (refs x) h)"
proof (rule owned_fewer[OF o])
  show "set ((refs(x := [])) z) \<subseteq> set (refs z)" for z by simp
  show "distinct ((refs(x := [])) z)" for z using ownedD(1)[OF o, of z] by simp
  show "b \<in> set ((refs(x := [])) z) \<Longrightarrow> free_all (refs x) h b = h b" for b z
    using ownedD(2)[OF o, of b z x] by (auto simp: free_all_def split: if_splits)
qed

section \<open>The invariant\<close>

definition cm_tasks :: "'h cellManager \<Rightarrow> cellTask list" where
  "cm_tasks s = srt_contents (cm_cellTask s)"

definition task_addrs :: "cellTask list \<Rightarrow> nat list" where
  "task_addrs ts = map (\<lambda>ct. the (ct_sC ct)) (filter (\<lambda>ct. ct_event ct = CHR ''S'') ts)"

definition cell_addrs :: "clientCell \<Rightarrow> nat list" where
  "cell_addrs c = map the (ce_pending c)"

definition cm_refs :: "'h cellManager \<Rightarrow> owner \<Rightarrow> nat list" where
  "cm_refs s x = (case x of
     InQueue \<Rightarrow> task_addrs (cm_tasks s)
   | InCell fd \<Rightarrow> (case cm_Cell s fd of None \<Rightarrow> [] | Some c \<Rightarrow> cell_addrs c))"

definition task_ok :: "cellTask \<Rightarrow> bool" where
  "task_ok ct \<longleftrightarrow> (ct_event ct = CHR ''S'' \<longrightarrow> ct_sC ct \<noteq> None)"

definition cell_ok :: "int \<Rightarrow> clientCell \<Rightarrow> bool" where
  "cell_ok fd c \<longleftrightarrow> ce_ClientFd c = fd \<and> ce_inv c \<and> None \<notin> set (ce_pending c)"

definition cm_inv :: "'h cellManager \<Rightarrow> bool" where
  "cm_inv s \<longleftrightarrow> srt_inv (cm_cellTask s) \<and> (\<forall>ct\<in>set (cm_tasks s). task_ok ct)
     \<and> (\<forall>fd c. cm_Cell s fd = Some c \<longrightarrow> cell_ok fd c)
     \<and> owned (cm_refs s) (cm_heap s) \<and> (\<forall>a. cm_heap s a \<noteq> None \<longrightarrow> a < cm_next s)"

lemma cm_invD:
  assumes "cm_inv s"
  shows "srt_inv (cm_cellTask s)" "\<And>ct. ct \<in> set (cm_tasks s) \<Longrightarrow> task_ok ct"
    "\<And>fd c. cm_Cell s fd = Some c \<Longrightarrow> cell_ok fd c" "owned (cm_refs s) (cm_heap s)"
    "\<And>a sc. cm_heap s a = Some sc \<Longrightarrow> a < cm_next s"
  using assms by (auto simp: cm_inv_def)

lemma cm_invI:
  assumes "srt_inv (cm_cellTask s)" "\<And>ct. ct \<in> set (cm_tasks s) \<Longrightarrow> task_ok ct"
    "\<And>fd c. cm_Cell s fd = Some c \<Longrightarrow> cell_ok fd c" "owned (cm_refs s) (cm_heap s)"
    "\<And>a sc. cm_heap s a = Some sc \<Longrightarrow> a < cm_next s"
  shows "cm_inv s"
  using assms by (auto simp: cm_inv_def)

lemma cm_refs_simps:
  "cm_refs s InQueue = task_addrs (cm_tasks s)"
  "cm_refs s (InCell fd) = (case cm_Cell s fd of None \<Rightarrow> [] | Some c \<Rightarrow> cell_addrs c)"
  by (simp_all add: cm_refs_def)

lemma cm_refs_eqI:
  "task_addrs (cm_tasks s) = r InQueue \<Longrightarrow>
    (\<And>fd. (case cm_Cell s fd of None \<Rightarrow> [] | Some c \<Rightarrow> cell_addrs c) = r (InCell fd)) \<Longrightarrow> cm_refs s = r"
  by (rule ext) (simp add: cm_refs_def split: owner.split)

lemma task_addrs_append: "task_addrs (xs @ ys) = task_addrs xs @ task_addrs ys"
  by (simp add: task_addrs_def)

lemma cm_inv_new: "cm_inv (cellManager_new epfd tN cpuN)" "cm_tasks (cellManager_new epfd tN cpuN) = []"
  "cm_Cell (cellManager_new epfd tN cpuN) = (\<lambda>_. None)"
proof -
  let ?s = "cellManager_new epfd tN cpuN"
  have q: "srt_inv (cm_cellTask ?s)" "srt_contents (cm_cellTask ?s) = []"
    by (simp_all only: cellManager_new_def cellManager.select_convs srt_inv_init)
  then show t: "cm_tasks ?s = []" by (simp add: cm_tasks_def)
  show c: "cm_Cell ?s = (\<lambda>_. None)" by (simp add: cellManager_new_def)
  have h: "cm_heap ?s = (\<lambda>_. None)" by (simp add: cellManager_new_def)
  show "cm_inv ?s"
    by (rule cm_invI) (use q t c h in \<open>auto simp: owned_def cm_refs_def task_addrs_def split: owner.splits\<close>)
qed

text \<open>Updates of the components that carry no messages.\<close>

lemma cm_inv_other [simp]:
  "cm_inv (s\<lparr>cm_TNotify := h\<rparr>) = cm_inv s" "cm_inv (s\<lparr>cm_epoll := ep\<rparr>) = cm_inv s"
  "cm_inv (s\<lparr>cm_closed := cl\<rparr>) = cm_inv s" "cm_inv (s\<lparr>cm_wire := w\<rparr>) = cm_inv s"
  by (simp_all add: cm_inv_def cm_refs_def[abs_def] cm_tasks_def)

text \<open>A connection replaced by one with the same messages.\<close>

lemma cm_inv_cell:
  assumes inv: "cm_inv s" and c: "cm_Cell s fd = Some c" and ok: "cell_ok fd c'" and same: "cell_addrs c' = cell_addrs c"
  shows "cm_inv (s\<lparr>cm_Cell := (cm_Cell s)(fd \<mapsto> c')\<rparr>)"
proof -
  have refs: "cm_refs (s\<lparr>cm_Cell := (cm_Cell s)(fd \<mapsto> c')\<rparr>) = cm_refs s"
    by (rule cm_refs_eqI) (auto simp: cm_refs_simps cm_tasks_def c same)
  show ?thesis
    by (rule cm_invI) (use cm_invD[OF inv] ok refs in \<open>auto simp: cm_tasks_def split: if_splits\<close>)
qed

section \<open>Posting and handling tasks\<close>

lemma cm_push_ok:
  assumes inv: "cm_inv s" and ct: "task_ok ct" and S: "ct_event ct \<noteq> CHR ''S''"
  shows "\<exists>ok s'. cm_push ct s = Inr (ok, s') \<and> cm_inv s' \<and> cm_tasks s' = cm_tasks s @ (if ok then [ct] else [])
    \<and> cm_Cell s' = cm_Cell s \<and> cm_TNotify s' = cm_TNotify s \<and> srt_cap (cm_cellTask s') = srt_cap (cm_cellTask s)
    \<and> ok = srt_room (cm_cellTask s)"
proof -
  obtain ok q' where q': "srt_push ct (cm_cellTask s) = Inr (ok, q')" "srt_inv q'" "ok = srt_room (cm_cellTask s)"
    "srt_contents q' = cm_tasks s @ (if ok then [ct] else [])"
    using sq.push_total[OF cm_invD(1)[OF inv], of ct] by (auto simp: cm_tasks_def)
  let ?s = "s\<lparr>cm_cellTask := q'\<rparr>"
  have t: "cm_tasks ?s = cm_tasks s @ (if ok then [ct] else [])" using q'(4) by (simp add: cm_tasks_def)
  have "task_addrs (cm_tasks ?s) = task_addrs (cm_tasks s)"
    using S t by (simp add: task_addrs_def)
  then have refs: "cm_refs ?s = cm_refs s" by (intro cm_refs_eqI) (simp_all add: cm_refs_simps)
  have "cm_inv ?s"
    by (rule cm_invI) (use cm_invD[OF inv] q'(2) t ct refs in \<open>auto split: if_splits\<close>)
  then show ?thesis using q'(1,3) t srt_push_cap[OF q'(1)] by (simp add: cm_push_def)
qed

lemma addTask_ok:
  assumes inv: "cm_inv s" and fresh: "cm_Cell s (ce_ClientFd cell) = None" and c: "cell_ok (ce_ClientFd cell) cell"
    and empty: "ce_pending cell = []"
  shows "\<exists>s'. addTask cell s = Inr s' \<and> cm_inv s' \<and> cm_Cell s' = (cm_Cell s)(ce_ClientFd cell \<mapsto> cell)
    \<and> cm_TNotify s' = cm_TNotify s \<and> srt_cap (cm_cellTask s') = srt_cap (cm_cellTask s)
    \<and> cm_tasks s' = cm_tasks s @ (if srt_room (cm_cellTask s)
        then [cellTask_new\<lparr>ct_event := CHR ''A'', ct_clientid := ce_ClientFd cell\<rparr>] else [])"
proof -
  let ?s = "s\<lparr>cm_Cell := (cm_Cell s)(ce_ClientFd cell \<mapsto> cell)\<rparr>"
  have t: "cm_tasks ?s = cm_tasks s" by (simp add: cm_tasks_def)
  have "cm_refs ?s = cm_refs s"
    by (rule cm_refs_eqI) (auto simp: cm_refs_simps cm_tasks_def fresh cell_addrs_def empty)
  then have "cm_inv ?s"
    by (intro cm_invI) (use cm_invD[OF inv] c in \<open>auto simp: cm_tasks_def split: if_splits\<close>)
  from cm_push_ok[OF this, of "cellTask_new\<lparr>ct_event := CHR ''A'', ct_clientid := ce_ClientFd cell\<rparr>"]
  obtain s' where s': "cm_push (cellTask_new\<lparr>ct_event := CHR ''A'', ct_clientid := ce_ClientFd cell\<rparr>) ?s = Inr (srt_room (cm_cellTask ?s), s')"
    "cm_inv s'" "cm_tasks s' = cm_tasks ?s @ (if srt_room (cm_cellTask ?s)
        then [cellTask_new\<lparr>ct_event := CHR ''A'', ct_clientid := ce_ClientFd cell\<rparr>] else [])"
    "cm_Cell s' = cm_Cell ?s" "cm_TNotify s' = cm_TNotify ?s" "srt_cap (cm_cellTask s') = srt_cap (cm_cellTask ?s)"
    by (auto simp: task_ok_def)
  then show ?thesis using t by (intro exI[of _ s']) (simp add: addTask_def)
qed

lemma delTask_ok:
  assumes "cm_inv s"
  shows "\<exists>ok s'. delTask fd s = Inr s' \<and> cm_inv s'
    \<and> cm_tasks s' = cm_tasks s @ (if ok then [cellTask_new\<lparr>ct_event := CHR ''D'', ct_clientid := fd\<rparr>] else [])
    \<and> cm_Cell s' = cm_Cell s \<and> cm_TNotify s' = cm_TNotify s \<and> srt_cap (cm_cellTask s') = srt_cap (cm_cellTask s)
    \<and> ok = srt_room (cm_cellTask s)"
  using cm_push_ok[OF assms, of "cellTask_new\<lparr>ct_event := CHR ''D'', ct_clientid := fd\<rparr>"]
  by (auto simp: delTask_def task_ok_def)

lemma sendCell_make_ok:
  assumes "0 \<le> len" "len + 1 < 2 ^ 31" "nat len \<le> length p"
  shows "\<exists>sc. sendCell_make p len = Inr sc \<and> sc_ok sc \<and> sc_ptr sc = Some (take (nat len) p @ [0])
    \<and> sc_size sc = len \<and> sc_sendPos sc = 0"
  using assms by (simp add: sendCell_make_def sc_ok_def)

lemma sendTask_ok:
  assumes inv: "cm_inv s" and len: "0 \<le> len" "len + 1 < 2 ^ 31" "nat len \<le> length p"
  shows "\<exists>ret s'. sendTask fd p len s = Inr (ret, s') \<and> cm_inv s' \<and> cm_Cell s' = cm_Cell s
    \<and> cm_TNotify s' = cm_TNotify s"
proof (cases "cm_Cell s fd")
  case None
  then show ?thesis using inv by (simp add: sendTask_def)
next
  case (Some cell)
  obtain sc where sc: "sendCell_make p len = Inr sc" "sc_ok sc" using sendCell_make_ok[OF len] by blast
  let ?a = "cm_next s"
  let ?ct = "cellTask_new\<lparr>ct_event := CHR ''S'', ct_clientid := fd, ct_sC := Some ?a\<rparr>"
  let ?s1 = "s\<lparr>cm_heap := (cm_heap s)(?a \<mapsto> sc), cm_next := Suc ?a\<rparr>"
  have new: "\<forall>x. ?a \<notin> set (cm_refs s x)"
    using ownedD(3)[OF cm_invD(4)[OF inv]] cm_invD(5)[OF inv] by (metis less_irrefl)
  obtain ok q' where q': "srt_push ?ct (cm_cellTask s) = Inr (ok, q')" "srt_inv q'"
    "srt_contents q' = cm_tasks s @ (if ok then [?ct] else [])"
    using sq.push_total[OF cm_invD(1)[OF inv], of ?ct] by (auto simp: cm_tasks_def)
  let ?s2 = "?s1\<lparr>cm_cellTask := q'\<rparr>"
  have t: "cm_tasks ?s2 = cm_tasks s @ (if ok then [?ct] else [])" using q'(3) by (simp add: cm_tasks_def)
  have refs: "cm_refs ?s2 = (if ok then (cm_refs s)(InQueue := cm_refs s InQueue @ [?a]) else cm_refs s)"
    by (rule cm_refs_eqI) (auto simp: cm_refs_simps t task_addrs_append task_addrs_def)
  have "cm_inv ?s2"
  proof (rule cm_invI)
    show "srt_inv (cm_cellTask ?s2)" using q'(2) by simp
    show "ct \<in> set (cm_tasks ?s2) \<Longrightarrow> task_ok ct" for ct
      using cm_invD(2)[OF inv] t by (auto simp: task_ok_def split: if_splits)
    show "cm_Cell ?s2 fd' = Some c \<Longrightarrow> cell_ok fd' c" for fd' c using cm_invD(3)[OF inv] by simp
    show "owned (cm_refs ?s2) (cm_heap ?s2)"
      unfolding refs using owned_new[OF cm_invD(4)[OF inv] new sc(2)] by simp
    show "cm_heap ?s2 a = Some sc' \<Longrightarrow> a < cm_next ?s2" for a sc'
      using cm_invD(5)[OF inv, of a] by (auto split: if_splits intro: less_SucI)
  qed
  then show ?thesis using Some sc(1) q'(1) by (simp add: sendTask_def cm_push_def Let_def)
qed

lemma cell_pending_Some: "cell_ok fd c \<Longrightarrow> ce_pending c = map Some (cell_addrs c)"
  by (auto simp: cell_ok_def cell_addrs_def comp_def intro!: map_idI[symmetric]) (metis option.collapse)

text \<open>Taking a task off the queue leaves its message, if any, without an owner.\<close>

lemma cm_pop_ok:
  assumes inv: "cm_inv s" and t: "cm_tasks s = ct # ts"
  shows "\<exists>q. srt_pop (cm_cellTask s) = Inr (Some ct, q) \<and> cm_inv (s\<lparr>cm_cellTask := q\<rparr>)
    \<and> cm_tasks (s\<lparr>cm_cellTask := q\<rparr>) = ts \<and> srt_cap q = srt_cap (cm_cellTask s)
    \<and> (ct_event ct = CHR ''S'' \<longrightarrow> (\<exists>sc. cm_heap s (the (ct_sC ct)) = Some sc \<and> sc_ok sc)
        \<and> (\<forall>x. the (ct_sC ct) \<notin> set (cm_refs (s\<lparr>cm_cellTask := q\<rparr>) x)))"
proof -
  obtain q where q: "srt_pop (cm_cellTask s) = Inr (Some ct, q)" "srt_inv q" "srt_contents q = ts"
    using sq.pop_head[OF cm_invD(1)[OF inv]] t by (auto simp: cm_tasks_def)
  let ?s = "s\<lparr>cm_cellTask := q\<rparr>"
  have ts: "cm_tasks ?s = ts" using q(3) by (simp add: cm_tasks_def)
  have refs: "cm_refs ?s = (cm_refs s)(InQueue := task_addrs ts)"
    by (rule cm_refs_eqI) (simp_all add: cm_refs_simps ts)
  have all: "cm_refs s InQueue = task_addrs [ct] @ task_addrs ts"
    by (simp add: cm_refs_simps t task_addrs_def)
  have "owned (cm_refs ?s) (cm_heap ?s)"
    unfolding refs
  proof (rule owned_fewer[OF cm_invD(4)[OF inv]])
    show "set (((cm_refs s)(InQueue := task_addrs ts)) x) \<subseteq> set (cm_refs s x)" for x using all by auto
    show "distinct (((cm_refs s)(InQueue := task_addrs ts)) x)" for x
      using ownedD(1)[OF cm_invD(4)[OF inv], of x] all by (auto split: if_splits)
  qed simp
  then have inv': "cm_inv ?s"
    by (intro cm_invI) (use cm_invD[OF inv] q(2) ts t in auto)
  moreover have "(\<exists>sc. cm_heap s (the (ct_sC ct)) = Some sc \<and> sc_ok sc)
      \<and> (\<forall>x. the (ct_sC ct) \<notin> set (cm_refs ?s x))" if "ct_event ct = CHR ''S''"
  proof -
    have a: "cm_refs s InQueue = the (ct_sC ct) # task_addrs ts"
      using all that by (simp add: task_addrs_def)
    have "the (ct_sC ct) \<notin> set (cm_refs ?s x)" for x
      using ownedD(2)[OF cm_invD(4)[OF inv], of "the (ct_sC ct)" InQueue x] ownedD(1)[OF cm_invD(4)[OF inv], of InQueue]
      by (auto simp: refs a)
    with ownedD(3)[OF cm_invD(4)[OF inv], of "the (ct_sC ct)" InQueue] a show ?thesis by simp
  qed
  ultimately show ?thesis using q(1) ts srt_pop_cap[OF q(1)] by blast
qed

lemma send_full_iff:
  assumes "ce_inv c"
  shows "send_full c \<longleftrightarrow> (unat (ce_SendWritePos c) + 1) mod SYSSENDBUF = unat (ce_SendReadPos c)"
proof -
  have "unat (ce_SendWritePos c + 1) = unat (ce_SendWritePos c) + 1"
    using assms by (subst unat_add_small) (simp_all add: ce_inv_def SYSSENDBUF_def)
  then show ?thesis unfolding send_full_def by (simp only: zmod_int[symmetric] of_nat_eq_iff)
qed

lemma handleSend_ok:
  assumes inv: "cm_inv s" and a: "ct_sC ct = Some a" "cm_heap s a = Some sc" "sc_ok sc" "\<forall>x. a \<notin> set (cm_refs s x)"
  shows "\<exists>s'. handleSend ct s = Inr s' \<and> cm_inv s' \<and> cm_cellTask s' = cm_cellTask s \<and> cm_TNotify s' = cm_TNotify s"
proof (cases "cm_Cell s (ct_clientid ct)")
  case None
  then show ?thesis using inv by (simp add: handleSend_def)
next
  case (Some cell)
  let ?fd = "ct_clientid ct"
  have ok: "cell_ok ?fd cell" using cm_invD(3)[OF inv Some] .
  then have ci: "ce_inv cell" by (simp add: cell_ok_def)
  show ?thesis
  proof (cases "send_full cell")
    case True
    then show ?thesis using Some inv by (simp add: handleSend_def)
  next
    case False
    let ?c = "cell\<lparr>ce_SendBuf := (ce_SendBuf cell)(unat (ce_SendWritePos cell) := ct_sC ct),
                   ce_SendWritePos := send_next (ce_SendWritePos cell)\<rparr>"
    let ?s = "s\<lparr>cm_Cell := (cm_Cell s)(?fd \<mapsto> ?c)\<rparr>"
    note push = ce_pending_push[OF ci _ refl, of "ct_sC ct"]
    have p: "ce_pending ?c = ce_pending cell @ [Some a]" "ce_inv ?c"
      using push False send_full_iff[OF ci] a(1) by simp_all
    have b: "unat (ce_SendWritePos cell) < CLIENTCELLSENDBUF"
      using ci by (simp add: ce_inv_def SYSSENDBUF_def CLIENTCELLSENDBUF_def)
    have refs: "cm_refs ?s = (cm_refs s)(InCell ?fd := cm_refs s (InCell ?fd) @ [a])"
      by (rule cm_refs_eqI) (auto simp: cm_refs_simps cm_tasks_def Some p cell_addrs_def)
    have "owned (cm_refs ?s) (cm_heap ?s)"
      using owned_new(1)[OF cm_invD(4)[OF inv] a(4,3), of "InCell ?fd"] a(2) refs by (simp add: fun_upd_idem)
    then have "cm_inv ?s"
      by (intro cm_invI) (use cm_invD[OF inv] ok p in \<open>auto simp: cm_tasks_def cell_ok_def split: if_splits\<close>)
    then show ?thesis using Some False b by (simp add: handleSend_def Let_def)
  qed
qed

lemma delClientCell_ok:
  assumes inv: "cm_inv s" and c: "cm_Cell s fd = Some cell"
  shows "\<exists>s'. delClientCell cell s = Inr s' \<and> cm_inv (s'\<lparr>cm_Cell := (cm_Cell s')(fd := None)\<rparr>)
    \<and> cm_Cell s' = cm_Cell s \<and> cm_cellTask s' = cm_cellTask s \<and> cm_TNotify s' = cm_TNotify s
    \<and> cm_closed s' = fd # cm_closed s \<and> cm_epoll s' = epoll_del fd (cm_epoll s)
    \<and> cm_heap s' = free_all (cell_addrs cell) (cm_heap s) \<and> cm_next s' = cm_next s"
proof -
  have ok: "cell_ok fd cell" by (rule cm_invD(3)[OF inv c])
  have r: "cm_refs s (InCell fd) = cell_addrs cell" by (simp add: cm_refs_simps c)
  note o = cm_invD(4)[OF inv]
  have del: "clientCell_delete cell (cm_heap s) = Inr (free_all (cell_addrs cell) (cm_heap s))"
  proof (rule clientCell_delete_ring)
    show "ce_inv cell" "ce_pending cell = map Some (cell_addrs cell)"
      using ok cell_pending_Some[OF ok] by (simp_all add: cell_ok_def)
    show "distinct (cell_addrs cell)" using ownedD(1)[OF o, of "InCell fd"] r by simp
    show "\<forall>a\<in>set (cell_addrs cell). cm_heap s a \<noteq> None" using ownedD(3)[OF o, of _ "InCell fd"] r by fastforce
  qed
  let ?s = "s\<lparr>cm_epoll := epoll_del fd (cm_epoll s), cm_closed := fd # cm_closed s,
              cm_heap := free_all (cell_addrs cell) (cm_heap s)\<rparr>"
  let ?s' = "?s\<lparr>cm_Cell := (cm_Cell s)(fd := None)\<rparr>"
  have refs: "cm_refs ?s' = (cm_refs s)(InCell fd := [])"
    by (rule cm_refs_eqI) (auto simp: cm_refs_simps cm_tasks_def)
  have "cm_inv ?s'"
  proof (rule cm_invI)
    show "owned (cm_refs ?s') (cm_heap ?s')"
      using owned_free_owner[OF o, of "InCell fd"] r refs by simp
    show "cm_heap ?s' a = Some sc \<Longrightarrow> a < cm_next ?s'" for a sc
      using cm_invD(5)[OF inv, of a sc] by (auto simp: free_all_def split: if_splits)
  qed (use cm_invD[OF inv] in \<open>auto simp: cm_tasks_def split: if_splits\<close>)
  then show ?thesis using del ok by (simp add: delClientCell_def cell_ok_def)
qed

section \<open>Callbacks that do not fault\<close>

locale safe_handler =
  fixes n :: "'h tNotify" and ok :: "'h \<Rightarrow> bool"
  assumes recv_safe: "ok h \<Longrightarrow> length bs \<le> SYSRECVBUF \<Longrightarrow>
      \<exists>r h'. OnRecvData n h fd (Some bs) = Inr (r, h') \<and> ok h'"
    and connect_safe: "ok h \<Longrightarrow> ok (OnConnect n h fd ip port)"
    and disconnect_safe: "ok h \<Longrightarrow> ok (OnDisconnect n h fd)"
    and error_safe: "ok h \<Longrightarrow> ok (OnError n h fd e)"
begin

lemma handleDel_ok:
  assumes inv: "cm_inv s" and h: "ok (cm_TNotify s)"
  shows "\<exists>s'. handleDel n ct s = Inr s' \<and> cm_inv s' \<and> cm_cellTask s' = cm_cellTask s \<and> ok (cm_TNotify s')"
proof (cases "cm_Cell s (ct_clientid ct)")
  case None
  then show ?thesis using inv h by (simp add: handleDel_def)
next
  case (Some cell)
  from delClientCell_ok[OF inv Some] obtain s1 where s1: "delClientCell cell s = Inr s1"
    "cm_inv (s1\<lparr>cm_Cell := (cm_Cell s1)(ct_clientid ct := None)\<rparr>)" "cm_cellTask s1 = cm_cellTask s"
    "cm_TNotify s1 = cm_TNotify s"
    by blast
  then show ?thesis using Some h disconnect_safe by (simp add: handleDel_def)
qed

lemma handleAdd_ok:
  assumes inv: "cm_inv s" and h: "ok (cm_TNotify s)"
  shows "\<exists>s' ts. handleAdd n ct s = Inr s' \<and> cm_inv s' \<and> ok (cm_TNotify s') \<and> cm_tasks s' = cm_tasks s @ ts
    \<and> length ts \<le> 1 \<and> (\<forall>t\<in>set ts. ct_event t = CHR ''D'')"
proof (cases "cm_Cell s (ct_clientid ct)")
  case None
  obtain k s' where s': "delTask (ct_clientid ct) s = Inr s'" "cm_inv s'" "cm_TNotify s' = cm_TNotify s"
    "cm_tasks s' = cm_tasks s @ (if k then [cellTask_new\<lparr>ct_event := CHR ''D'', ct_clientid := ct_clientid ct\<rparr>] else [])"
    using delTask_ok[OF inv, of "ct_clientid ct"] by blast
  then show ?thesis using None h by (auto simp: handleAdd_def)
next
  case (Some cell)
  let ?c = "cell\<lparr>ce_Events := EPOLLET OR EPOLLIN OR EPOLLPRI OR EPOLLRDHUP OR EPOLLERR\<rparr>"
  have "cell_ok (ct_clientid ct) ?c" "cell_addrs ?c = cell_addrs cell"
    using cm_invD(3)[OF inv Some] by (simp_all add: cell_ok_def ce_inv_def ce_pending_def cell_addrs_def)
  from cm_inv_cell[OF inv Some this] show ?thesis
    using Some h connect_safe by (simp add: handleAdd_def Let_def cm_tasks_def)
qed

lemma handleOne_ok:
  assumes inv: "cm_inv s" and h: "ok (cm_TNotify s)" and ct: "task_ok ct"
    and S: "ct_event ct = CHR ''S'' \<longrightarrow> (\<exists>sc. cm_heap s (the (ct_sC ct)) = Some sc \<and> sc_ok sc)
        \<and> (\<forall>x. the (ct_sC ct) \<notin> set (cm_refs s x))"
  shows "\<exists>s' ts. handleOne n ct s = Inr s' \<and> cm_inv s' \<and> ok (cm_TNotify s') \<and> cm_tasks s' = cm_tasks s @ ts
    \<and> length ts \<le> (if ct_event ct = CHR ''A'' then 1 else 0) \<and> (\<forall>t\<in>set ts. ct_event t = CHR ''D'')"
proof -
  consider "ct_event ct = CHR ''S''" | "ct_event ct = CHR ''D''" | "ct_event ct = CHR ''A''"
    | "ct_event ct \<noteq> CHR ''S''" "ct_event ct \<noteq> CHR ''D''" "ct_event ct \<noteq> CHR ''A''" by blast
  then show ?thesis
  proof cases
    case 1
    obtain a where a: "ct_sC ct = Some a" using ct 1 by (auto simp: task_ok_def)
    with S 1 obtain sc where "cm_heap s a = Some sc" "sc_ok sc" "\<forall>x. a \<notin> set (cm_refs s x)" by auto
    from handleSend_ok[OF inv a this] 1 h show ?thesis by (auto simp: handleOne_def cm_tasks_def)
  next
    case 2
    from handleDel_ok[OF inv h, of ct] 2 show ?thesis by (auto simp: handleOne_def cm_tasks_def)
  next
    case 3
    from handleAdd_ok[OF inv h, of ct] 3 show ?thesis by (auto simp: handleOne_def)
  next
    case 4
    then show ?thesis using inv h by (simp add: handleOne_def)
  qed
qed

text \<open>An \<open>'A'\<close> task can leave one other task behind, every other task leaves none.\<close>

definition task_weight :: "cellTask \<Rightarrow> nat" where
  "task_weight ct = (if ct_event ct = CHR ''A'' then 2 else 1)"

text \<open>
  Induction along the loop of \<open>handleTask\<close>: what every handled task keeps holds when the queue is
  empty, and the loop ends, since each step takes a task off and only \<open>'A'\<close> posts one.
\<close>

lemma handleTask_induct:
  assumes "cm_inv s" "ok (cm_TNotify s)" "P s"
    and step: "\<And>s ct ts q s1. cm_inv s \<Longrightarrow> P s \<Longrightarrow> cm_tasks s = ct # ts \<Longrightarrow>
      cm_inv (s\<lparr>cm_cellTask := q\<rparr>) \<Longrightarrow> cm_tasks (s\<lparr>cm_cellTask := q\<rparr>) = ts \<Longrightarrow>
      (ct_event ct = CHR ''S'' \<longrightarrow> (\<exists>a sc. ct_sC ct = Some a \<and> cm_heap s a = Some sc \<and> sc_ok sc
        \<and> (\<forall>x. a \<notin> set (cm_refs (s\<lparr>cm_cellTask := q\<rparr>) x)))) \<Longrightarrow>
      handleOne n ct (s\<lparr>cm_cellTask := q\<rparr>) = Inr s1 \<Longrightarrow> cm_inv s1 \<Longrightarrow> P s1"
  shows "\<exists>s'. handleTask n s = Some (Inr s') \<and> cm_inv s' \<and> ok (cm_TNotify s') \<and> cm_tasks s' = [] \<and> P s'"
  using assms(1-3)
proof (induction "sum_list (map task_weight (cm_tasks s))" arbitrary: s rule: less_induct)
  case less
  show ?case
  proof (cases "cm_tasks s")
    case Nil
    then have "srt_pop (cm_cellTask s) = Inr (None, cm_cellTask s)"
      using sq.pop_empty[OF cm_invD(1)[OF less.prems(1)]] by (simp add: cm_tasks_def)
    then show ?thesis using less.prems Nil by (simp add: handleTask.simps[of n s])
  next
    case (Cons ct ts)
    obtain q where q: "srt_pop (cm_cellTask s) = Inr (Some ct, q)" "cm_inv (s\<lparr>cm_cellTask := q\<rparr>)"
      "cm_tasks (s\<lparr>cm_cellTask := q\<rparr>) = ts"
      "ct_event ct = CHR ''S'' \<longrightarrow> (\<exists>sc. cm_heap s (the (ct_sC ct)) = Some sc \<and> sc_ok sc)
        \<and> (\<forall>x. the (ct_sC ct) \<notin> set (cm_refs (s\<lparr>cm_cellTask := q\<rparr>) x))"
      using cm_pop_ok[OF less.prems(1) Cons] by auto
    have ct: "task_ok ct" using cm_invD(2)[OF less.prems(1)] Cons by simp
    then obtain s1 new where s1: "handleOne n ct (s\<lparr>cm_cellTask := q\<rparr>) = Inr s1" "cm_inv s1" "ok (cm_TNotify s1)"
      "cm_tasks s1 = ts @ new" "length new \<le> (if ct_event ct = CHR ''A'' then 1 else 0)"
      "\<forall>t\<in>set new. ct_event t = CHR ''D''"
      using handleOne_ok[OF q(2), of ct] less.prems(2) q(3,4) by auto
    have S: "ct_event ct = CHR ''S'' \<longrightarrow> (\<exists>a sc. ct_sC ct = Some a \<and> cm_heap s a = Some sc \<and> sc_ok sc
        \<and> (\<forall>x. a \<notin> set (cm_refs (s\<lparr>cm_cellTask := q\<rparr>) x)))"
      using q(4) ct by (auto simp: task_ok_def)
    have "sum_list (map task_weight new) = length new"
      using s1(6) by (induction new) (auto simp: task_weight_def)
    then have "sum_list (map task_weight (cm_tasks s1)) < sum_list (map task_weight (cm_tasks s))"
      using s1(4,5) Cons by (auto simp: task_weight_def split: if_splits)
    from less.hyps[OF this s1(2,3) step[OF less.prems(1,3) Cons q(2,3) S s1(1,2)]] q(1) s1(1)
    show ?thesis by (simp add: handleTask.simps[of n s])
  qed
qed

lemma handleTask_ok:
  assumes "cm_inv s" "ok (cm_TNotify s)"
  shows "\<exists>s'. handleTask n s = Some (Inr s') \<and> cm_inv s' \<and> ok (cm_TNotify s') \<and> cm_tasks s' = []"
  using handleTask_induct[OF assms, of "\<lambda>_. True"] by blast

end

section \<open>The write interest\<close>

lemma checkWrite_cell_ok:
  assumes "cm_inv s"
  shows "cm_inv (checkWrite_cell fd s)" "cm_TNotify (checkWrite_cell fd s) = cm_TNotify s"
    "cm_cellTask (checkWrite_cell fd s) = cm_cellTask s"
proof -
  show "cm_TNotify (checkWrite_cell fd s) = cm_TNotify s" "cm_cellTask (checkWrite_cell fd s) = cm_cellTask s"
    by (simp_all add: checkWrite_cell_def Let_def split: option.split)
  show "cm_inv (checkWrite_cell fd s)"
  proof (cases "cm_Cell s fd")
    case None
    then show ?thesis using assms by (simp add: checkWrite_cell_def)
  next
    case (Some cell)
    have "cell_ok fd (cell\<lparr>ce_Events := e\<rparr>)" "cell_addrs (cell\<lparr>ce_Events := e\<rparr>) = cell_addrs cell" for e
      using cm_invD(3)[OF assms Some] by (simp_all add: cell_ok_def ce_inv_def ce_pending_def cell_addrs_def)
    from cm_inv_cell[OF assms Some this] show ?thesis
      using Some assms by (simp add: checkWrite_cell_def Let_def)
  qed
qed

lemma checkWrite_ok:
  "cm_inv s \<Longrightarrow> cm_inv (checkWrite keys s) \<and> cm_TNotify (checkWrite keys s) = cm_TNotify s
    \<and> cm_cellTask (checkWrite keys s) = cm_cellTask s"
  by (induction keys arbitrary: s) (simp_all add: checkWrite_def checkWrite_cell_ok)

section \<open>Receiving\<close>

text \<open>The positions after the callback, whatever it returns.\<close>

lemma recv_positions:
  assumes "unat R \<le> unat W" "unat W \<le> CLIENTCELLRECVBUF" "unat W + k \<le> CLIENTCELLRECVBUF"
  shows "unat (W + of_nat k :: 32 word) = unat W + k"
    "unat (W + of_nat k - R) = unat W + k - unat R"
proof -
  have b: "unat R \<le> unat W" "unat W + k \<le> 1048576" using assms by (simp_all add: CLIENTCELLRECVBUF_def)
  show W: "unat (W + of_nat k :: 32 word) = unat W + k"
    using b by (subst unat_add_small) (simp_all add: unat_of_nat take_bit_nat_eq_self)
  show "unat (W + of_nat k - R) = unat W + k - unat R"
    using W b by (subst unat_sub) (simp_all add: word_le_nat_alt)
qed

context safe_handler
begin

lemma recv_round_ok:
  assumes ci: "ce_inv c" and h: "ok h" and bs: "unat (ce_RecvWritePos c) + length bs \<le> CLIENTCELLRECVBUF"
  shows "\<exists>c' h'. recv_round n bs c h = Inr (c', h') \<and> ce_inv c' \<and> ok h' \<and> ce_ClientFd c' = ce_ClientFd c
    \<and> ce_pending c' = ce_pending c"
proof -
  let ?R = "ce_RecvReadPos c" and ?W = "ce_RecvWritePos c"
  define W1 where "W1 = ?W + of_nat (length bs)"
  define m1 where "m1 = mem_write (ce_RecvBuf c) (unat ?W) bs"
  have b: "unat ?R \<le> unat ?W" "unat ?W \<le> CLIENTCELLRECVBUF" using ci by (simp_all add: ce_inv_def)
  note pos = recv_positions[OF b bs, folded W1_def]
  have len: "unat ?R + unat (W1 - ?R) \<le> CLIENTCELLRECVBUF" "unat (W1 - ?R) \<le> SYSRECVBUF"
    using pos b bs by (simp_all add: SYSRECVBUF_def CLIENTCELLRECVBUF_def)
  obtain r h' where r: "OnRecvData n h (word_of_int (ce_ClientFd c)) (Some (mem_read m1 (unat ?R) (unat (W1 - ?R)))) = Inr (r, h')"
    "ok h'"
    using recv_safe[OF h, of "mem_read m1 (unat ?R) (unat (W1 - ?R))" "word_of_int (ce_ClientFd c)"] len(2) by auto
  define R1 where "R1 = ?R + (ucast r :: 32 word)"
  have W1: "unat W1 \<le> CLIENTCELLRECVBUF" using pos(1) bs by simp
  have le: "unat R1 < unat W1" if "\<not> W1 \<le> R1" using that by (simp add: word_le_nat_alt)
  have d: "unat (W1 - R1) = unat W1 - unat R1" if "\<not> W1 \<le> R1"
    using le[OF that] by (subst unat_sub) (simp_all add: word_le_nat_alt)
  have sum: "unat R1 + (unat W1 - unat R1) \<le> CLIENTCELLRECVBUF" if "\<not> W1 \<le> R1"
    using le[OF that] W1 by simp
  have mc: "memcpy_ok 0 (unat R1) (unat W1 - unat R1)" if "SYSRECVBUF div 2 \<le> unat R1"
    using that W1 by (simp add: memcpy_ok_def SYSRECVBUF_def CLIENTCELLRECVBUF_def) linarith
  let ?c2 = "c\<lparr>ce_RecvBuf := m1, ce_RecvWritePos := W1, ce_RecvReadPos := R1\<rparr>"
  let ?c' = "if W1 \<le> R1 then ?c2\<lparr>ce_RecvReadPos := 0, ce_RecvWritePos := 0\<rparr>
    else if SYSRECVBUF div 2 \<le> unat R1 then
      ?c2\<lparr>ce_RecvBuf := mem_copy m1 0 (unat R1) (unat (W1 - R1)), ce_RecvWritePos := W1 - R1, ce_RecvReadPos := 0\<rparr>
    else ?c2"
  have "recv_round n bs c h = Inr (?c', h')"
    using bs len(1) r(1) mc d sum
    by (simp add: recv_round_def Let_def W1_def[symmetric] m1_def[symmetric] R1_def[symmetric])
  moreover have "ce_inv ?c'"
    using ci le d W1 by (auto simp: ce_inv_def SYSRECVBUF_def CLIENTCELLRECVBUF_def)
  moreover have "ce_pending ?c' = ce_pending c" "ce_ClientFd ?c' = ce_ClientFd c" by (simp_all add: ce_pending_def)
  ultimately show ?thesis using r(2) by blast
qed

lemma recv_loop_ok:
  assumes "ce_inv c" "ok h"
  shows "\<exists>ex c' h' script'. recv_loop n c h script = Inr (ex, c', h', script') \<and> ce_inv c' \<and> ok h'
    \<and> ce_ClientFd c' = ce_ClientFd c \<and> ce_pending c' = ce_pending c"
  using assms
proof (induction "script_size script" arbitrary: script c h rule: less_induct)
  case less
  let ?room = "SYSRECVBUF - unat (ce_RecvWritePos c)"
  show ?case
  proof (cases "unat (ce_RecvWritePos c) < SYSRECVBUF")
    case False
    then show ?thesis using less.prems by (simp add: recv_loop.simps[of n c h script])
  next
    case room: True
    show ?thesis
    proof (cases "sys_read ?room script")
      case None
      then show ?thesis using room less.prems by (simp add: recv_loop.simps[of n c h script])
    next
      case (Some rs)
      obtain r script' where rs: "rs = (r, script')" by (cases rs)
      have smaller: "script_size script' < script_size script"
        using sys_read_smaller[of ?room script r script'] Some rs room by simp
      show ?thesis
      proof (cases r)
        case (ReadErr e)
        then show ?thesis
          using less.hyps[OF smaller less.prems] room Some rs less.prems
          by (auto simp: recv_loop.simps[of n c h script])
      next
        case (ReadData bs)
        have len: "length bs \<le> ?room" using sys_read_bytes[of ?room script bs script'] Some rs ReadData by simp
        show ?thesis
        proof (cases "bs = []")
          case True
          then show ?thesis using room Some rs ReadData less.prems by (simp add: recv_loop.simps[of n c h script])
        next
          case False
          have "unat (ce_RecvWritePos c) + length bs \<le> CLIENTCELLRECVBUF"
            using len room by (simp add: SYSRECVBUF_def CLIENTCELLRECVBUF_def)
          from recv_round_ok[OF less.prems this] obtain c' h' where
            r: "recv_round n bs c h = Inr (c', h')" "ce_inv c'" "ok h'" "ce_ClientFd c' = ce_ClientFd c"
              "ce_pending c' = ce_pending c"
            by blast
          show ?thesis
            using room Some rs ReadData False r less.hyps[OF smaller r(2,3)] error_safe[OF r(3)]
            by (simp add: recv_loop.simps[of n c h script])
        qed
      qed
    qed
  qed
qed

lemma doRecv_ok:
  assumes inv: "cm_inv s" and h: "ok (cm_TNotify s)"
  shows "\<exists>ex s' script'. doRecv n fd script s = Inr (ex, s', script') \<and> cm_inv s' \<and> ok (cm_TNotify s')"
proof (cases "cm_Cell s fd")
  case None
  then show ?thesis using inv h by (simp add: doRecv_def)
next
  case (Some cell)
  have ok': "cell_ok fd cell" by (rule cm_invD(3)[OF inv Some])
  obtain ex c' h' script' where r: "recv_loop n cell (cm_TNotify s) script = Inr (ex, c', h', script')"
    "ce_inv c'" "ok h'" "ce_ClientFd c' = ce_ClientFd cell" "ce_pending c' = ce_pending cell"
    using recv_loop_ok[OF _ h, of cell script] ok' by (auto simp: cell_ok_def)
  have "cell_ok fd c'" "cell_addrs c' = cell_addrs cell" using r ok' by (simp_all add: cell_ok_def cell_addrs_def)
  from cm_inv_cell[OF inv Some this] have inv1: "cm_inv (s\<lparr>cm_Cell := (cm_Cell s)(fd \<mapsto> c'), cm_TNotify := h'\<rparr>)"
    by simp
  obtain s2 where s2: "delTask (ce_ClientFd c') (s\<lparr>cm_Cell := (cm_Cell s)(fd \<mapsto> c'), cm_TNotify := h'\<rparr>) = Inr s2"
    "cm_inv s2" "cm_TNotify s2 = h'"
    using delTask_ok[OF inv1, of "ce_ClientFd c'"] by auto
  show ?thesis
    using Some r(1,3) inv1 s2 by (cases "ex = RecvDone (- 1)") (simp_all add: doRecv_def Let_def)
qed

end

section \<open>Sending\<close>

text \<open>
  The send loop works on the ring of one connection: what is in flight is \<open>as\<close>, the other owners
  keep their messages.
\<close>

lemma send_loop_ok:
  assumes "ce_inv c" "ce_pending c = map Some as" "owned refs h" "refs x = as"
  shows "\<exists>c' h' out' as'. send_loop k ws c h out = Inr (c', h', out') \<and> ce_inv c' \<and> ce_pending c' = map Some as'
    \<and> owned (refs(x := as')) h' \<and> ce_ClientFd c' = ce_ClientFd c \<and> (\<forall>a. h a = None \<longrightarrow> h' a = None)"
  using assms
proof (induction k arbitrary: ws c h out "as" refs)
  case 0
  then have "refs(x := as) = refs" by auto
  with 0 have "owned (refs(x := as)) h" by simp
  with 0 show ?case unfolding send_loop.simps by blast
next
  case (Suc k)
  have stay: "\<exists>c' h' out' as'. Inr (c, h2, out2) = Inr (c', h', out') \<and> ce_inv c' \<and> ce_pending c' = map Some as'
      \<and> owned (refs(x := as')) h' \<and> ce_ClientFd c' = ce_ClientFd c \<and> (\<forall>a. h a = None \<longrightarrow> h' a = None)"
    if "owned refs h2" "\<forall>a. h a = None \<longrightarrow> h2 a = None" for h2 out2
  proof -
    have "refs(x := as) = refs" using Suc.prems(4) by auto
    then have "owned (refs(x := as)) h2" using that(1) by (simp only:)
    then show ?thesis using Suc.prems(1,2) that(2) by blast
  qed
  have "\<forall>a. h a = None \<longrightarrow> h a = None" by simp
  note unchanged = stay[OF Suc.prems(3) this, of out]
  show ?case
  proof (cases "ce_SendWritePos c = ce_SendReadPos c")
    case True
    then show ?thesis using Suc.IH[OF Suc.prems] by simp
  next
    case ne: False
    then have ne': "ce_SendReadPos c \<noteq> ce_SendWritePos c" by simp
    let ?c = "c\<lparr>ce_SendBuf := (ce_SendBuf c)(unat (ce_SendReadPos c) := None), ce_SendReadPos := send_next (ce_SendReadPos c)\<rparr>"
    note pop = ce_pending_pop[OF Suc.prems(1) ne' refl, of None]
    obtain a as' where a: "as = a # as'" "ce_SendBuf c (unat (ce_SendReadPos c)) = Some a" "ce_pending ?c = map Some as'"
      using pop(1) Suc.prems(2) by (cases "as") auto
    obtain sc where sc: "h a = Some sc" "sc_ok sc" using ownedD(3)[OF Suc.prems(3), of a x] Suc.prems(4) a(1) by auto
    obtain mem where mem: "sc_ptr sc = Some mem" "0 \<le> sc_sendPos sc" "sc_sendPos sc \<le> sc_size sc"
      "nat (sc_size sc) \<le> length mem"
      using sc(2) by (auto simp: sc_ok_def)
    have b: "unat (ce_SendReadPos c) < CLIENTCELLSENDBUF"
      using Suc.prems(1) by (simp add: ce_inv_def SYSSENDBUF_def CLIENTCELLSENDBUF_def)
    let ?bytes = "take (nat (sc_size sc - sc_sendPos sc)) (drop (nat (sc_sendPos sc)) mem)"
    show ?thesis
    proof (cases "sys_write ?bytes (ws 0)")
      case (Inl e)
      then have step: "send_loop (Suc k) ws c h out =
          (if e = EINTR \<or> e = EAGAIN then send_loop k (\<lambda>i. ws (Suc i)) c h out else Inr (c, h, out))"
        using ne b a(2) sc(1) mem by (simp add: send_slot_def)
      show ?thesis
      proof (cases "e = EINTR \<or> e = EAGAIN")
        case True
        then show ?thesis unfolding step using Suc.IH[OF Suc.prems, of "\<lambda>i. ws (Suc i)" out] by (simp only: if_True)
      next
        case False
        then show ?thesis unfolding step using unchanged by (simp only: if_False)
      qed
    next
      case (Inr sent)
      have lin: "length sent \<le> length ?bytes" using Inr by (auto simp: sys_write_def split: write_result.splits)
      consider (zero) "sent = []" | (part) "sent \<noteq> []" "int (length sent) < sc_size sc - sc_sendPos sc"
        | (all) "sent \<noteq> []" "\<not> int (length sent) < sc_size sc - sc_sendPos sc" by blast
      then show ?thesis
      proof cases
        case zero
        then have "send_loop (Suc k) ws c h out = Inr (c, h, out)"
          using ne b a(2) sc(1) mem Inr by (simp add: send_slot_def)
        then show ?thesis using unchanged by (simp only:)
      next
        case part
        let ?sc = "sc\<lparr>sc_sendPos := sc_sendPos sc + int (length sent)\<rparr>"
        have "sc_ok ?sc" using mem part by (simp add: sc_ok_def)
        from stay[OF owned_rewrite[OF Suc.prems(3) this, of a], of "out @ sent"] sc(1)
        have "\<exists>c' h' out' as'. Inr (c, h(a \<mapsto> ?sc), out @ sent) = Inr (c', h', out') \<and> ce_inv c'
          \<and> ce_pending c' = map Some as' \<and> owned (refs(x := as')) h' \<and> ce_ClientFd c' = ce_ClientFd c
          \<and> (\<forall>a. h a = None \<longrightarrow> h' a = None)"
          by fastforce
        moreover have "send_loop (Suc k) ws c h out = Inr (c, h(a \<mapsto> ?sc), out @ sent)"
          using ne b a(2) sc(1) mem Inr part by (simp add: send_slot_def)
        ultimately show ?thesis by (simp only:)
      next
        case all
        have "owned (refs(x := as')) (h(a := None))"
          by (rule owned_free_first[OF Suc.prems(3)]) (simp add: Suc.prems(4) a(1))
        from Suc.IH[OF pop(2) a(3) this fun_upd_same, unfolded fun_upd_upd, of "\<lambda>i. ws (Suc i)" "out @ sent"]
        obtain c' h' out' as'' where c': "send_loop k (\<lambda>i. ws (Suc i)) ?c (h(a := None)) (out @ sent) = Inr (c', h', out')"
          "ce_inv c'" "ce_pending c' = map Some as''" "owned (refs(x := as'')) h'" "ce_ClientFd c' = ce_ClientFd ?c"
          "\<forall>b. (h(a := None)) b = None \<longrightarrow> h' b = None"
          by blast
        have "send_loop (Suc k) ws c h out = Inr (c', h', out')"
          using ne b a(2) sc(1) mem Inr all c'(1) by (simp add: send_slot_def)
        moreover have "\<forall>b. h b = None \<longrightarrow> h' b = None" using c'(6) by simp
        moreover have "ce_ClientFd c' = ce_ClientFd c" using c'(5) by simp
        ultimately show ?thesis using c'(2-4) by blast
      qed
    qed
  qed
qed

lemma doSend_ok:
  assumes inv: "cm_inv s"
  shows "\<exists>s'. doSend fd ws s = Inr s' \<and> cm_inv s' \<and> cm_TNotify s' = cm_TNotify s \<and> cm_cellTask s' = cm_cellTask s"
proof (cases "cm_Cell s fd")
  case None
  then show ?thesis using inv by (simp add: doSend_def)
next
  case (Some cell)
  have ok: "cell_ok fd cell" by (rule cm_invD(3)[OF inv Some])
  have r: "cm_refs s (InCell fd) = cell_addrs cell" by (simp add: cm_refs_simps Some)
  from send_loop_ok[OF _ cell_pending_Some[OF ok] cm_invD(4)[OF inv] r, of serverMaxSendTimes ws "[]"] ok
  obtain c' h' out' as' where c': "send_loop serverMaxSendTimes ws cell (cm_heap s) [] = Inr (c', h', out')"
    "ce_inv c'" "ce_pending c' = map Some as'" "owned ((cm_refs s)(InCell fd := as')) h'"
    "ce_ClientFd c' = ce_ClientFd cell" "\<forall>a. cm_heap s a = None \<longrightarrow> h' a = None"
    by (auto simp: cell_ok_def)
  let ?s = "s\<lparr>cm_Cell := (cm_Cell s)(fd \<mapsto> c'), cm_heap := h'\<rparr>"
  have refs: "cm_refs ?s = (cm_refs s)(InCell fd := as')"
    by (rule cm_refs_eqI) (auto simp: cm_refs_simps cm_tasks_def cell_addrs_def c'(3) comp_def)
  have "cm_inv ?s"
  proof (rule cm_invI)
    show "owned (cm_refs ?s) (cm_heap ?s)" using c'(4) refs by simp
    show "cm_heap ?s a = Some sc \<Longrightarrow> a < cm_next ?s" for a sc
      using c'(6) cm_invD(5)[OF inv, of a] by (cases "cm_heap s a") auto
    show "cm_Cell ?s fd' = Some c \<Longrightarrow> cell_ok fd' c" for fd' c
      using cm_invD(3)[OF inv, of fd' c] c'(2,3,5) ok by (auto simp: cell_ok_def split: if_splits)
  qed (use cm_invD[OF inv] in \<open>simp_all add: cm_tasks_def\<close>)
  then show ?thesis using Some c'(1) by (simp add: doSend_def)
qed

section \<open>Events and passes of the loop\<close>

context safe_handler
begin

lemma doEvent_ok:
  assumes inv: "cm_inv s" and h: "ok (cm_TNotify s)"
  shows "\<exists>ex s'. doEvent n e s = Inr (ex, s') \<and> cm_inv s' \<and> ok (cm_TNotify s')"
proof (cases "ev_events e AND (EPOLLHUP OR EPOLLERR OR EPOLLRDHUP) = 0")
  case False
  obtain s' where "delTask (ev_fd e) s = Inr s'" "cm_inv s'" "cm_TNotify s' = cm_TNotify s"
    using delTask_ok[OF inv, of "ev_fd e"] by blast
  then show ?thesis using False h by (simp add: doEvent_def)
next
  case live: True
  obtain ex s1 script where r: "doRecv n (ev_fd e) (ev_reads e) s = Inr (ex, s1, script)" "cm_inv s1" "ok (cm_TNotify s1)"
    using doRecv_ok[OF inv h] by blast
  let ?r = "if ev_events e AND EPOLLIN \<noteq> 0
              then obind (doRecv n (ev_fd e) (ev_reads e) s) (\<lambda>(ex, s1, script). Inr (ex, s1))
              else Inr (RecvDone 0, s)"
  obtain ex2 s2 where s2: "?r = Inr (ex2, s2)" "cm_inv s2" "ok (cm_TNotify s2)"
    using r inv h by (cases "ev_events e AND EPOLLIN = 0") auto
  obtain s3 where s3: "doSend (ev_fd e) (ev_writes e) s2 = Inr s3" "cm_inv s3" "cm_TNotify s3 = cm_TNotify s2"
    using doSend_ok[OF s2(2), of "ev_fd e" "ev_writes e"] by blast
  have "doEvent n e s = obind ?r (\<lambda>(ex, s1).
         if ex \<noteq> RecvLooping \<and> ev_events e AND EPOLLOUT \<noteq> 0
         then obind (doSend (ev_fd e) (ev_writes e) s1) (\<lambda>s2. Inr (ex, s2))
         else Inr (ex, s1))"
    using live by (simp only: doEvent_def simp_thms if_False)
  then show ?thesis using s2 s3 by (simp only: s2(1) obind.simps prod.case) auto
qed

lemma doEvents_ok:
  "cm_inv s \<Longrightarrow> ok (cm_TNotify s) \<Longrightarrow> \<exists>b s'. doEvents n es s = Inr (b, s') \<and> cm_inv s' \<and> ok (cm_TNotify s')"
proof (induction es arbitrary: s)
  case Nil
  then show ?case by (intro exI[of _ True] exI[of _ s]) simp
next
  case (Cons e es)
  obtain ex s1 where s1: "doEvent n e s = Inr (ex, s1)" "cm_inv s1" "ok (cm_TNotify s1)"
    using doEvent_ok[OF Cons.prems] by blast
  then show ?case using Cons.IH[OF s1(2,3)] by (cases ex) auto
qed

lemma run_pass_ok:
  assumes "cm_inv s" "ok (cm_TNotify s)"
  shows "\<exists>b s'. run_pass n keys wait s = Some (Inr (b, s')) \<and> cm_inv s' \<and> ok (cm_TNotify s')"
proof -
  obtain s1 where s1: "handleTask n s = Some (Inr s1)" "cm_inv s1" "ok (cm_TNotify s1)"
    using handleTask_ok[OF assms] by blast
  have s2: "cm_inv (checkWrite keys s1)" "ok (cm_TNotify (checkWrite keys s1))"
    using checkWrite_ok[OF s1(2), of keys] s1(3) by simp_all
  show ?thesis
  proof (cases wait)
    case None
    then show ?thesis using s1 s2 by (intro exI[of _ True] exI[of _ "checkWrite keys s1"]) (simp add: run_pass_def)
  next
    case (Some es)
    then show ?thesis using s1 doEvents_ok[OF s2, of es] by (auto simp: run_pass_def)
  qed
qed

end

section \<open>Everything other threads and the loop do\<close>

text \<open>
  The operations on a \<open>cellManager\<close>: the listener hands over an accepted connection, a user
  thread sends or asks for a disconnect, the loop makes a pass.
\<close>

datatype cm_op =
    OpAccept int "byte arr" "nat option arr" "32 word" string "16 word"
  | OpSend int "byte list" int
  | OpDisconnect int
  | OpPass "int list" "io_event list option"

fun cm_exec :: "'h tNotify \<Rightarrow> cm_op \<Rightarrow> 'h cellManager \<Rightarrow> 'h cellManager outcome option" where
  "cm_exec n (OpAccept fd rb sb ev ip port) s = Some (addTask (clientCell_new fd rb sb ev ip port) s)"
| "cm_exec n (OpSend fd p len) s = Some (obind (sendTask fd p len s) (\<lambda>(ret, s'). Inr s'))"
| "cm_exec n (OpDisconnect fd) s = Some (delTask fd s)"
| "cm_exec n (OpPass keys wait) s =
     map_option (\<lambda>r. obind r (\<lambda>(b, s'). Inr s')) (run_pass n keys wait s)"

text \<open>
  The kernel does not hand out a descriptor that is still open, and a user passes a buffer of
  at least the size it gives.
\<close>

fun cm_op_ok :: "'h cellManager \<Rightarrow> cm_op \<Rightarrow> bool" where
  "cm_op_ok s (OpAccept fd rb sb ev ip port) \<longleftrightarrow> cm_Cell s fd = None"
| "cm_op_ok s (OpSend fd p len) \<longleftrightarrow> 0 \<le> len \<and> len + 1 < 2 ^ 31 \<and> nat len \<le> length p"
| "cm_op_ok s (OpDisconnect fd) \<longleftrightarrow> True"
| "cm_op_ok s (OpPass keys wait) \<longleftrightarrow> True"

inductive cm_reach :: "'h tNotify \<Rightarrow> 'h cellManager \<Rightarrow> 'h cellManager \<Rightarrow> bool" for n s0 where
  start: "cm_reach n s0 s0"
| step: "cm_reach n s0 s \<Longrightarrow> cm_op_ok s op \<Longrightarrow> cm_exec n op s = Some (Inr s') \<Longrightarrow> cm_reach n s0 s'"

context safe_handler
begin

lemma cm_exec_ok:
  assumes inv: "cm_inv s" and h: "ok (cm_TNotify s)" and op: "cm_op_ok s op"
  shows "\<exists>s'. cm_exec n op s = Some (Inr s') \<and> cm_inv s' \<and> ok (cm_TNotify s')"
proof (cases op)
  case (OpAccept fd rb sb ev ip port)
  have c: "ce_ClientFd (clientCell_new fd rb sb ev ip port) = fd" by (simp add: clientCell_new_def)
  have "cell_ok fd (clientCell_new fd rb sb ev ip port)" using c ce_inv_new by (simp add: cell_ok_def)
  then show ?thesis
    using addTask_ok[OF inv, of "clientCell_new fd rb sb ev ip port"] op OpAccept c h
    by (auto simp: ce_inv_new(2))
next
  case (OpSend fd p len)
  then show ?thesis using sendTask_ok[OF inv, of len p fd] op h by auto
next
  case (OpDisconnect fd)
  then show ?thesis using delTask_ok[OF inv, of fd] h by auto
next
  case (OpPass keys wait)
  then show ?thesis using run_pass_ok[OF inv h, of keys wait] by auto
qed

lemma cm_reach_inv:
  assumes "cm_reach n s0 s" "cm_inv s0" "ok (cm_TNotify s0)"
  shows "cm_inv s \<and> ok (cm_TNotify s)"
  using assms
proof (induction rule: cm_reach.induct)
  case start
  then show ?case by simp
next
  case (step s op s')
  then show ?case using cm_exec_ok[of s op] by auto
qed

end

section \<open>Destruction\<close>

text \<open>
  The connections in the order of \<open>keys\<close>, where the map does not lose an entry until the end:
  each key may come once.
\<close>

definition cm_drop :: "int \<Rightarrow> 'h cellManager \<Rightarrow> 'h cellManager" where
  "cm_drop fd s = s\<lparr>cm_Cell := (cm_Cell s)(fd := None)\<rparr>"

lemma destroy_cells_drop:
  "fd \<notin> set keys \<Longrightarrow> destroy_cells keys (cm_drop fd s) = destroy_cells keys s"
proof (induction keys arbitrary: s)
  case Nil
  then show ?case by (simp add: cm_drop_def)
next
  case (Cons k keys)
  have k: "cm_Cell (cm_drop fd s) k = cm_Cell s k" using Cons.prems by (simp add: cm_drop_def)
  have del: "delClientCell c (cm_drop fd s) = obind (delClientCell c s) (\<lambda>s'. Inr (cm_drop fd s'))" for c
    by (cases s) (simp add: delClientCell_def cm_drop_def obind_assoc)
  show ?case
  proof (cases "cm_Cell s k")
    case None
    then show ?thesis using Cons k by simp
  next
    case (Some c)
    have IH: "destroy_cells keys (cm_drop fd s') = destroy_cells keys s'" for s' :: "'a cellManager"
      using Cons by simp
    show ?thesis using Some k by (simp add: del obind_assoc IH)
  qed
qed

lemma destroy_cells_ok:
  assumes "cm_inv s" "distinct keys" "set keys = {fd. cm_Cell s fd \<noteq> None}"
  shows "\<exists>s'. destroy_cells keys s = Inr s' \<and> cm_inv s' \<and> cm_Cell s' = (\<lambda>_. None) \<and> cm_cellTask s' = cm_cellTask s
    \<and> set (cm_closed s') = set keys \<union> set (cm_closed s) \<and> length (cm_closed s') = length keys + length (cm_closed s)
    \<and> (\<forall>x a. a \<in> set (cm_refs s (InCell x)) \<longrightarrow> cm_heap s' a = None) \<and> (\<forall>a. cm_heap s a = None \<longrightarrow> cm_heap s' a = None)"
  using assms
proof (induction keys arbitrary: s)
  case Nil
  then have c: "cm_Cell s = (\<lambda>_. None)" by auto
  then have e: "s\<lparr>cm_Cell := (\<lambda>_. None)\<rparr> = s" by (cases s) simp
  show ?case using Nil.prems(1) c by (simp add: cm_refs_simps e)
next
  case (Cons fd keys)
  from Cons.prems(3) have "fd \<in> {fd. cm_Cell s fd \<noteq> None}" by (metis list.set_intros(1))
  then obtain cell where c: "cm_Cell s fd = Some cell" by auto
  obtain s1 where s1: "delClientCell cell s = Inr s1" "cm_inv (cm_drop fd s1)" "cm_Cell s1 = cm_Cell s"
    "cm_cellTask s1 = cm_cellTask s" "cm_closed s1 = fd # cm_closed s"
    "cm_heap s1 = free_all (cell_addrs cell) (cm_heap s)"
    using delClientCell_ok[OF Cons.prems(1) c] unfolding cm_drop_def by blast
  let ?s = "cm_drop fd s1"
  have keys: "distinct keys" "fd \<notin> set keys" "set keys = {fd'. cm_Cell ?s fd' \<noteq> None}"
    using Cons.prems(2,3) s1(3) by (auto simp: cm_drop_def)
  from Cons.IH[OF s1(2) keys(1,3)] obtain s' where
    s': "destroy_cells keys ?s = Inr s'" "cm_inv s'" "cm_Cell s' = (\<lambda>_. None)" "cm_cellTask s' = cm_cellTask ?s"
      "set (cm_closed s') = set keys \<union> set (cm_closed ?s)" "length (cm_closed s') = length keys + length (cm_closed ?s)"
      "\<forall>x a. a \<in> set (cm_refs ?s (InCell x)) \<longrightarrow> cm_heap s' a = None" "\<forall>a. cm_heap ?s a = None \<longrightarrow> cm_heap s' a = None"
    by blast
  have "destroy_cells (fd # keys) s = Inr s'"
    using c s1(1) s'(1) destroy_cells_drop[OF keys(2), of s1] by simp
  moreover have "cm_heap s' a = None" if a: "a \<in> set (cm_refs s (InCell x))" for x a
  proof (cases "x = fd")
    case True
    then have "cm_heap ?s a = None" using a c s1(6) by (simp add: cm_refs_simps cm_drop_def free_all_def)
    then show ?thesis using s'(8) by blast
  next
    case False
    then have "a \<in> set (cm_refs ?s (InCell x))" using a s1(3) by (simp add: cm_refs_simps cm_drop_def)
    then show ?thesis using s'(7) by blast
  qed
  moreover have "cm_heap s' a = None" if "cm_heap s a = None" for a
    using that s'(8) s1(6) by (simp add: cm_drop_def free_all_def)
  ultimately show ?case
    using s'(2-6) s1(4,5) by (auto simp: cm_drop_def)
qed

lemma destroy_tasks_ok:
  assumes "srt_inv q" "\<forall>ct\<in>set (srt_contents q). task_ok ct" "distinct (task_addrs (srt_contents q))"
    "\<forall>a\<in>set (task_addrs (srt_contents q)). h a \<noteq> None"
  shows "\<exists>q'. destroy_tasks q h = Some (Inr (q', free_all (task_addrs (srt_contents q)) h)) \<and> srt_contents q' = []"
  using assms
proof (induction "srt_contents q" arbitrary: q h)
  case Nil
  then have "srt_pop q = Inr (None, q)" using sq.pop_empty[OF Nil.prems(1)] by simp
  then show ?case using Nil by (simp add: destroy_tasks.simps[of q h] task_addrs_def free_all_def Nil.hyps[symmetric])
next
  case (Cons ct ts)
  obtain q' where q': "srt_pop q = Inr (Some ct, q')" "srt_inv q'" "srt_contents q' = ts"
    using sq.pop_head[OF Cons.prems(1) Cons.hyps(2)[symmetric]] by blast
  note t = Cons.hyps(2)[symmetric]
  show ?case
  proof (cases "ct_event ct = CHR ''S''")
    case True
    obtain a where a: "ct_sC ct = Some a" using Cons.prems(2) t True by (auto simp: task_ok_def)
    have addrs: "task_addrs (ct # ts) = a # task_addrs ts" using True a by (simp add: task_addrs_def)
    have d: "distinct (task_addrs ts)" "a \<notin> set (task_addrs ts)" "h a \<noteq> None"
      using Cons.prems(3,4) t addrs by simp_all
    have "\<exists>q''. destroy_tasks q' (h(a := None)) = Some (Inr (q'', free_all (task_addrs (srt_contents q')) (h(a := None))))
        \<and> srt_contents q'' = []"
      by (rule Cons.hyps(1)) (use q' Cons.prems t d addrs in auto)
    moreover have "free_all (task_addrs ts) (h(a := None)) = free_all (task_addrs (ct # ts)) h"
      by (simp add: free_all_def addrs fun_eq_iff)
    ultimately show ?thesis
      using q' True a d(3) t by (auto simp: destroy_tasks.simps[of q h] free_sendCell_def)
  next
    case False
    have addrs: "task_addrs (ct # ts) = task_addrs ts" using False by (simp add: task_addrs_def)
    have "\<exists>q''. destroy_tasks q' h = Some (Inr (q'', free_all (task_addrs (srt_contents q')) h)) \<and> srt_contents q'' = []"
      by (rule Cons.hyps(1)) (use q' Cons.prems t addrs in auto)
    then show ?thesis using q' False t addrs by (auto simp: destroy_tasks.simps[of q h])
  qed
qed

lemma cellManager_delete_ok:
  assumes inv: "cm_inv s" and keys: "distinct keys" "set keys = {fd. cm_Cell s fd \<noteq> None}"
  shows "\<exists>s'. cellManager_delete keys s = Some (Inr s') \<and> cm_Cell s' = (\<lambda>_. None) \<and> cm_tasks s' = []
    \<and> length (cm_closed s') = length keys + length (cm_closed s) \<and> set keys \<subseteq> set (cm_closed s')
    \<and> (\<forall>x a. a \<in> set (cm_refs s x) \<longrightarrow> cm_heap s' a = None) \<and> (\<forall>a. cm_heap s a = None \<longrightarrow> cm_heap s' a = None)"
proof -
  obtain s1 where s1: "destroy_cells keys s = Inr s1" "cm_inv s1" "cm_Cell s1 = (\<lambda>_. None)"
    "cm_cellTask s1 = cm_cellTask s" "set (cm_closed s1) = set keys \<union> set (cm_closed s)"
    "length (cm_closed s1) = length keys + length (cm_closed s)"
    "\<And>x a. a \<in> set (cm_refs s (InCell x)) \<Longrightarrow> cm_heap s1 a = None" "\<And>a. cm_heap s a = None \<Longrightarrow> cm_heap s1 a = None"
    using destroy_cells_ok[OF inv keys] by blast
  let ?as = "task_addrs (cm_tasks s1)"
  have q: "srt_contents (cm_cellTask s1) = cm_tasks s1" "cm_tasks s1 = cm_tasks s"
    using s1(4) by (simp_all add: cm_tasks_def)
  have r: "cm_refs s1 InQueue = ?as" by (simp add: cm_refs_simps)
  obtain q' where q': "destroy_tasks (cm_cellTask s1) (cm_heap s1) = Some (Inr (q', free_all ?as (cm_heap s1)))"
    "srt_contents q' = []"
    using destroy_tasks_ok[OF cm_invD(1)[OF s1(2)], of "cm_heap s1", unfolded q(1)] cm_invD(2)[OF s1(2)]
      ownedD(1)[OF cm_invD(4)[OF s1(2)], of InQueue, unfolded r] ownedD(3)[OF cm_invD(4)[OF s1(2)], of _ InQueue, unfolded r]
    by fastforce
  have "free_all ?as (cm_heap s1) a = None" if "a \<in> set (cm_refs s x)" for x a
    using that s1(7)[of a] q(2) by (cases x) (auto simp: free_all_def cm_refs_simps(1))
  moreover have "free_all ?as (cm_heap s1) a = None" if "cm_heap s a = None" for a
    using that s1(8) by (simp add: free_all_def)
  ultimately show ?thesis
    using s1(1-6) q' by (auto simp: cellManager_delete_def cm_tasks_def)
qed

section \<open>The library's own callback\<close>

lemma server_OnRecvData_safe:
  assumes "mdpt \<noteq> None"
  shows "\<exists>r mdpt'. server_OnRecvData mdpt clientid (Some bs) = Inr (r, mdpt') \<and> mdpt' \<noteq> None"
proof (cases "clientid \<le> 0 \<or> length bs \<le> 0")
  case True
  then show ?thesis using assms by (auto simp: server_OnRecvData_def)
next
  case False
  obtain hub where "mdpt = Some hub" using assms by blast
  then show ?thesis
    using False server_read_loop_safe[of 0 bs hub clientid] by (auto simp: server_OnRecvData_def)
qed

interpretation sh: safe_handler server_callbacks "\<lambda>mdpt. mdpt \<noteq> None"
proof unfold_locales
  fix h :: "'a server_notify" and bs fd
  assume "h \<noteq> None"
  then show "\<exists>r h'. OnRecvData server_callbacks h fd (Some bs) = Inr (r, h') \<and> h' \<noteq> None"
    using server_OnRecvData_safe[of h fd bs] by (simp add: server_callbacks_def)
qed (simp_all add: server_callbacks_def)

abbreviation cm_started :: "'c tcp_server_hub \<Rightarrow> 'c server_notify cellManager \<Rightarrow> bool" where
  "cm_started hub s \<equiv> \<exists>epfd cpuN. cm_reach server_callbacks (cellManager_new epfd (Some hub) cpuN) s"

lemma cm_started_inv:
  assumes "cm_started hub s"
  shows "cm_inv s" "cm_TNotify s \<noteq> None"
  using assms sh.cm_reach_inv cm_inv_new(1) by (fastforce simp: cellManager_new_def)+

text \<open>
  The hub of the witnesses takes every message and counts them; the state is one in which a
  connection has been accepted and not yet been added to the interest list.
\<close>

definition count_hub :: "nat tcp_server_hub" where
  "count_hub = \<lparr>hub_on_read = (\<lambda>k _ _ _. (True, Suc k)), hub_state = 0\<rparr>"

lemma cm_cap_new: "srt_cap (cm_cellTask (cellManager_new epfd tN cpuN)) = (2 ^ 15 - 1) * 2 ^ 16"
  using srt_inv_init(3)[of cellTask_new kDefaultPageMsgCountBits kDefaultPageIndexBits]
  by (simp only: cellManager_new_def cellManager.select_convs kDefaultPageMsgCountBits_def kDefaultPageIndexBits_def)

lemma cm_demo_accept:
  "\<exists>s. cm_reach server_callbacks (cellManager_new 3 (Some count_hub) 0) s
     \<and> cm_Cell s = [5 \<mapsto> clientCell_new 5 (\<lambda>_. 0) (\<lambda>_. None) 0 ''peer'' 80] \<and> cm_TNotify s = Some count_hub
     \<and> cm_tasks s = [cellTask_new\<lparr>ct_event := CHR ''A'', ct_clientid := 5\<rparr>]
     \<and> srt_cap (cm_cellTask s) = (2 ^ 15 - 1) * 2 ^ 16 \<and> cm_wire s = (\<lambda>_. [])"
proof -
  let ?n = "server_callbacks :: nat server_notify tNotify"
  let ?s = "cellManager_new 3 (Some count_hub) 0"
  let ?c = "clientCell_new 5 (\<lambda>_. 0) (\<lambda>_. None) 0 ''peer'' 80"
  have fd: "ce_ClientFd ?c = 5" by (simp add: clientCell_new_def)
  have ok: "cell_ok (ce_ClientFd ?c) ?c" using ce_inv_new by (simp add: cell_ok_def)
  note cap = cm_cap_new[of 3 "Some count_hub" 0]
  then have room: "srt_room (cm_cellTask ?s)"
    using sq.room_iff[OF cm_invD(1)[OF cm_inv_new(1)], of 3 "Some count_hub" 0]
    by (simp add: cm_inv_new(2)[unfolded cm_tasks_def])
  obtain s1 where s1: "addTask ?c ?s = Inr s1" "cm_Cell s1 = (cm_Cell ?s)(5 \<mapsto> ?c)" "cm_TNotify s1 = cm_TNotify ?s"
    "srt_cap (cm_cellTask s1) = srt_cap (cm_cellTask ?s)"
    "cm_tasks s1 = [cellTask_new\<lparr>ct_event := CHR ''A'', ct_clientid := 5\<rparr>]"
    using addTask_ok[OF cm_inv_new(1) _ ok ce_inv_new(2), of 3 "Some count_hub" 0] room
    by (auto simp: fd cm_inv_new(2,3))
  have "cm_reach ?n ?s s1"
    by (rule cm_reach.step[OF cm_reach.start, of _ "OpAccept 5 (\<lambda>_. 0) (\<lambda>_. None) 0 ''peer'' 80"])
      (simp_all add: cm_inv_new(3) s1(1))
  moreover have "cm_TNotify ?s = Some count_hub" by (simp add: cellManager_new_def)
  moreover have "cm_wire s1 = (\<lambda>_. [])"
    using s1(1) by (auto simp: addTask_def cm_push_def Let_def obind_eq_Inr cellManager_new_def)
  ultimately show ?thesis
    by (intro exI[of _ s1] conjI) (simp_all only: s1(2-5) cm_inv_new(3) cap)
qed

text \<open>
  The event loop of the server never faults.  From any state that accepts, sends,
  disconnects and passes of the loop lead to, with the library's receive callback and any
  application hub behind it, the next of these operations returns: no read or write outside a
  buffer, no null pointer, no message used after it was freed or freed twice, no overlapping
  \<open>memcpy\<close>, and \<open>handleTask\<close> ends; the invariant that says so holds again afterwards.
\<close>

lemma cell_manager_safe:
  assumes "cm_reach server_callbacks (cellManager_new epfd (Some hub) cpuN) s" and "cm_op_ok s op"
  shows "\<exists>s'. cm_exec server_callbacks op s = Some (Inr s') \<and> cm_inv s'"
  using sh.cm_exec_ok[of s op] cm_started_inv[of hub s] assms by blast

lemma cell_manager_safe_example:
  "\<exists>s s'. cm_Cell s 5 \<noteq> None \<and> cm_exec server_callbacks
     (OpPass [5] (Some [\<lparr>ev_fd = 5, ev_events = EPOLLIN, ev_reads = [ReadData [1, 2, 3]], ev_writes = (\<lambda>_. WriteOk 1)\<rparr>])) s
       = Some (Inr (s' :: nat server_notify cellManager)) \<and> cm_inv s'"
proof -
  obtain s where s: "cm_reach server_callbacks (cellManager_new 3 (Some count_hub) 0) s"
    "cm_Cell s = [5 \<mapsto> clientCell_new 5 (\<lambda>_. 0) (\<lambda>_. None) 0 ''peer'' 80]"
    using cm_demo_accept by blast
  show ?thesis using cell_manager_safe[OF s(1), of "OpPass _ _"] s(2)
    by (metis cm_op_ok.simps(4) fun_upd_same option.distinct(1))
qed

text \<open>
  C20: \<open>handleTask\<close> ends and leaves no task behind, although the handler of \<open>'A'\<close> posts a task
  into the queue the loop empties.
\<close>

theorem handleTask_drains:
  assumes "cm_reach server_callbacks (cellManager_new epfd (Some hub) cpuN) s"
  shows "\<exists>s'. handleTask server_callbacks s = Some (Inr s') \<and> cm_tasks s' = [] \<and> cm_inv s'"
  using sh.handleTask_ok[of s] cm_started_inv[of hub s] assms by blast

theorem handleTask_drains_witness:
  "\<exists>s s'. cm_Cell s 5 \<noteq> None \<and> handleTask server_callbacks s = Some (Inr (s' :: nat server_notify cellManager))
     \<and> cm_tasks s' = [] \<and> cm_inv s'"
  using handleTask_drains cm_demo_accept by (metis fun_upd_same option.distinct(1))

text \<open>
  C22: the destructor, run on any state the loop can reach and over the connections in any
  order, returns, closes every open descriptor exactly once, and frees every message that is
  still owned by a connection or by a task in the queue.
\<close>

theorem cellManager_delete_frees:
  assumes "cm_reach server_callbacks (cellManager_new epfd (Some hub) cpuN) s"
    and "distinct keys" "set keys = {fd. cm_Cell s fd \<noteq> None}"
  shows "\<exists>s'. cellManager_delete keys s = Some (Inr s') \<and> cm_Cell s' = (\<lambda>_. None) \<and> cm_tasks s' = []
    \<and> length (cm_closed s') = length keys + length (cm_closed s) \<and> set keys \<subseteq> set (cm_closed s')
    \<and> (\<forall>x a. a \<in> set (cm_refs s x) \<longrightarrow> cm_heap s' a = None)"
  using cellManager_delete_ok[OF cm_started_inv(1)[of hub s] assms(2,3)] assms(1) by blast

theorem cellManager_delete_frees_witness:
  "\<exists>s s'. cm_Cell s 5 \<noteq> None \<and> cellManager_delete [5] s = Some (Inr (s' :: nat server_notify cellManager))
     \<and> cm_Cell s' = (\<lambda>_. None) \<and> 5 \<in> set (cm_closed s')"
proof -
  obtain s where s: "cm_reach server_callbacks (cellManager_new 3 (Some count_hub) 0) s"
    "cm_Cell s = [5 \<mapsto> clientCell_new 5 (\<lambda>_. 0) (\<lambda>_. None) 0 ''peer'' 80]"
    using cm_demo_accept by blast
  have "set [5] = {fd. cm_Cell s fd \<noteq> None}" using s(2) by auto
  then obtain s' where "cellManager_delete [5] s = Some (Inr s')" "cm_Cell s' = (\<lambda>_. None)" "5 \<in> set (cm_closed s')"
    using cellManager_delete_frees[OF s(1), of "[5]"] by auto
  then show ?thesis using s(2) by (intro exI[of _ s] exI[of _ s']) simp
qed

end
