(* ===== verification/Cell_Manager_Send.thy ===== *)
theory Cell_Manager_Send
  imports Cell_Manager_Safety
begin

text \<open>
  What \<open>doSend\<close> writes.  The ring of message objects refines a list of byte strings: the loop over
  positions, objects and \<open>sendPos\<close> does what a loop over the strings still to be sent does
  (\<open>wire_send\<close>).  From it follow that no byte is lost, repeated or reordered, from \<open>sendTask\<close>
  to the socket, and when everything reaches the socket.
\<close>

section \<open>The list of strings to send\<close>

definition sc_unsent :: "sendCell \<Rightarrow> byte list" where
  "sc_unsent sc = take (nat (sc_size sc - sc_sendPos sc)) (drop (nat (sc_sendPos sc)) (the (sc_ptr sc)))"

definition unsent :: "send_heap \<Rightarrow> nat list \<Rightarrow> byte list list" where
  "unsent h as = map (\<lambda>a. sc_unsent (the (h a))) as"

fun wire_send :: "nat \<Rightarrow> (nat \<Rightarrow> write_result) \<Rightarrow> byte list list \<Rightarrow> byte list list \<times> byte list" where
  "wire_send 0 ws ms = (ms, [])"
| "wire_send (Suc k) ws [] = ([], [])"
| "wire_send (Suc k) ws (m # ms) =
    (case ws 0 of
       WriteErr e \<Rightarrow> if e = EINTR \<or> e = EAGAIN then wire_send k (\<lambda>i. ws (Suc i)) (m # ms) else (m # ms, [])
     | WriteOk room \<Rightarrow>
         if take room m = [] then (m # ms, [])
         else if room < length m then (drop room m # ms, take room m)
         else (case wire_send k (\<lambda>i. ws (Suc i)) ms of (ms', out) \<Rightarrow> (ms', m @ out)))"

text \<open>No byte is lost, repeated or reordered.\<close>

lemma wire_send_bytes: "snd (wire_send k ws ms) @ concat (fst (wire_send k ws ms)) = concat ms"
  by (induction k ws ms rule: wire_send.induct) (auto split: write_result.splits prod.splits)

lemma wire_send_all:
  assumes "length ms \<le> k" "\<forall>i<length ms. \<exists>room. ws i = WriteOk room \<and> length (ms ! i) \<le> room" "\<forall>m\<in>set ms. m \<noteq> []"
  shows "wire_send k ws ms = ([], concat ms)"
  using assms
proof (induction k ws ms rule: wire_send.induct)
  case (3 k ws m ms)
  obtain room where room: "ws 0 = WriteOk room" "length m \<le> room" using "3.prems"(2) by fastforce
  have "wire_send k (\<lambda>i. ws (Suc i)) ms = ([], concat ms)"
    using room "3.prems" by (intro "3.IH"(2)[OF room(1)]) (auto simp: leD)
  then show ?case using room "3.prems"(3) by simp
qed simp_all

text \<open>A string without bytes at the front is never passed.\<close>

lemma wire_send_empty_front:
  "fst (wire_send k ws ([] # ms)) = [] # ms \<and> snd (wire_send k ws ([] # ms)) = []"
  by (induction k arbitrary: ws) (auto split: write_result.splits)

section \<open>The ring refines the list\<close>

lemma sc_unsent_length: "sc_ok sc \<Longrightarrow> length (sc_unsent sc) = nat (sc_size sc - sc_sendPos sc)"
  by (auto simp: sc_ok_def sc_unsent_def)

lemma sc_unsent_advance:
  assumes "sc_ok sc" "k \<le> length (sc_unsent sc)"
  shows "sc_unsent (sc\<lparr>sc_sendPos := sc_sendPos sc + int k\<rparr>) = drop k (sc_unsent sc)"
    "sc_ok (sc\<lparr>sc_sendPos := sc_sendPos sc + int k\<rparr>)"
proof -
  have "0 \<le> sc_sendPos sc" "sc_sendPos sc + int k \<le> sc_size sc"
    using assms sc_unsent_length[OF assms(1)] by (auto simp: sc_ok_def)
  then show "sc_unsent (sc\<lparr>sc_sendPos := sc_sendPos sc + int k\<rparr>) = drop k (sc_unsent sc)"
    by (simp add: sc_unsent_def nat_add_distrib drop_take nat_diff_distrib add.commute)
  show "sc_ok (sc\<lparr>sc_sendPos := sc_sendPos sc + int k\<rparr>)"
    using assms(1) \<open>sc_sendPos sc + int k \<le> sc_size sc\<close> by (auto simp: sc_ok_def)
qed

lemma send_loop_idle:
  "ce_inv c \<Longrightarrow> ce_pending c = [] \<Longrightarrow> send_loop k ws c h out = Inr (c, h, out)"
  by (induction k arbitrary: ws) (simp_all add: ce_pending_Nil)

lemma send_loop_round:
  fixes c :: clientCell
  defines "c' \<equiv> c\<lparr>ce_SendBuf := (ce_SendBuf c)(unat (ce_SendReadPos c) := None), ce_SendReadPos := send_next (ce_SendReadPos c)\<rparr>"
  assumes c: "ce_inv c" "ce_pending c = map Some (a # as)" and sc: "h a = Some sc" "sc_ok sc"
  shows "send_loop (Suc k) ws c h out =
    (case sys_write (sc_unsent sc) (ws 0) of
       Inl e \<Rightarrow> if e = EINTR \<or> e = EAGAIN then send_loop k (\<lambda>i. ws (Suc i)) c h out else Inr (c, h, out)
     | Inr sent \<Rightarrow>
         if sent = [] then Inr (c, h, out)
         else if length sent < length (sc_unsent sc)
         then Inr (c, h(a \<mapsto> sc\<lparr>sc_sendPos := sc_sendPos sc + int (length sent)\<rparr>), out @ sent)
         else send_loop k (\<lambda>i. ws (Suc i)) c' (h(a := None)) (out @ sent))"
    and "ce_inv c'" "ce_pending c' = map Some as" "ce_ClientFd c' = ce_ClientFd c"
proof -
  have ne: "ce_SendReadPos c \<noteq> ce_SendWritePos c" using ce_pending_Nil[OF c(1)] c(2) by auto
  note pop = ce_pending_pop[OF c(1) ne c'_def[THEN meta_eq_to_obj_eq]]
  then show "ce_inv c'" "ce_pending c' = map Some as" using c(2) by simp_all
  show "ce_ClientFd c' = ce_ClientFd c" by (simp add: c'_def)
  have slot: "ce_SendBuf c (unat (ce_SendReadPos c)) = Some a" using pop(1) c(2) by simp
  have b: "unat (ce_SendReadPos c) < CLIENTCELLSENDBUF"
    using c(1) by (simp add: ce_inv_def SYSSENDBUF_def CLIENTCELLSENDBUF_def)
  obtain mem where mem: "sc_ptr sc = Some mem" "0 \<le> sc_sendPos sc" "sc_sendPos sc \<le> sc_size sc"
    "nat (sc_size sc) \<le> length mem"
    using sc(2) by (auto simp: sc_ok_def)
  have un: "sc_unsent sc = take (nat (sc_size sc - sc_sendPos sc)) (drop (nat (sc_sendPos sc)) mem)"
    using mem(1) by (simp add: sc_unsent_def)
  have len: "int (length sent) < sc_size sc - sc_sendPos sc \<longleftrightarrow> length sent < length (sc_unsent sc)" for sent :: "byte list"
    using sc_unsent_length[OF sc(2)] mem(3) by auto
  show "send_loop (Suc k) ws c h out =
    (case sys_write (sc_unsent sc) (ws 0) of
       Inl e \<Rightarrow> if e = EINTR \<or> e = EAGAIN then send_loop k (\<lambda>i. ws (Suc i)) c h out else Inr (c, h, out)
     | Inr sent \<Rightarrow>
         if sent = [] then Inr (c, h, out)
         else if length sent < length (sc_unsent sc)
         then Inr (c, h(a \<mapsto> sc\<lparr>sc_sendPos := sc_sendPos sc + int (length sent)\<rparr>), out @ sent)
         else send_loop k (\<lambda>i. ws (Suc i)) c' (h(a := None)) (out @ sent))"
    using ne b slot sc(1) mem len
    by (cases "sys_write (sc_unsent sc) (ws 0)") (auto simp: send_slot_def un c'_def)
qed

lemma unsent_cong: "(\<And>a. a \<in> set as \<Longrightarrow> h' a = h a) \<Longrightarrow> unsent h' as = unsent h as"
  by (simp add: unsent_def)

lemma send_loop_refines:
  assumes "ce_inv c" "ce_pending c = map Some as" "distinct as" "\<forall>a\<in>set as. \<exists>sc. h a = Some sc \<and> sc_ok sc"
  shows "\<exists>c' h' as'. send_loop k ws c h out = Inr (c', h', out @ snd (wire_send k ws (unsent h as)))
    \<and> ce_inv c' \<and> ce_pending c' = map Some as' \<and> unsent h' as' = fst (wire_send k ws (unsent h as))
    \<and> (\<forall>b. b \<notin> set as \<longrightarrow> h' b = h b) \<and> ce_ClientFd c' = ce_ClientFd c"
    (is "\<exists>c' h' as'. ?P k ws c h out as c' h' as'")
  using assms
proof (induction k arbitrary: ws c h out "as")
  case 0
  then have "?P 0 ws c h out as c h as" by simp
  then show ?case by blast
next
  case (Suc k)
  show ?case
  proof (cases "as")
    case Nil
    then have "?P (Suc k) ws c h out as c h as"
      using Suc.prems send_loop_idle[OF Suc.prems(1), of "Suc k" ws h out] by (simp add: unsent_def)
    then show ?thesis by blast
  next
    case (Cons a as')
    obtain sc where sc: "h a = Some sc" "sc_ok sc" using Suc.prems(4) Cons by auto
    note round = send_loop_round(1)[where c = c and h = h and a = a and sc = sc and as = as' and k = k and ws = ws and out = out,
        OF Suc.prems(1) Suc.prems(2)[unfolded Cons] sc]
    note popped = send_loop_round(2-4)[where c = c and h = h and a = a and sc = sc and as = as',
        OF Suc.prems(1) Suc.prems(2)[unfolded Cons] sc]
    let ?c = "c\<lparr>ce_SendBuf := (ce_SendBuf c)(unat (ce_SendReadPos c) := None), ce_SendReadPos := send_next (ce_SendReadPos c)\<rparr>"
    have un: "unsent h as = sc_unsent sc # unsent h as'" using sc(1) by (simp add: Cons unsent_def)
    have stay: "?P (Suc k) ws c h out as c h as"
      if "send_loop (Suc k) ws c h out = Inr (c, h, out)" "wire_send (Suc k) ws (unsent h as) = (unsent h as, [])"
      using that Suc.prems by simp
    show ?thesis
    proof (cases "ws 0")
      case (WriteErr e)
      show ?thesis
      proof (cases "e = EINTR \<or> e = EAGAIN")
        case True
        then show ?thesis
          using Suc.IH[OF Suc.prems, of "\<lambda>i. ws (Suc i)" out] WriteErr round un
          by (simp add: sys_write_def del: send_loop.simps)
      next
        case False
        then have "?P (Suc k) ws c h out as c h as"
          using WriteErr round un by (intro stay) (simp_all add: sys_write_def del: send_loop.simps)
        then show ?thesis by blast
      qed
    next
      case (WriteOk room)
      consider (zero) "take room (sc_unsent sc) = []" | (part) "take room (sc_unsent sc) \<noteq> []" "room < length (sc_unsent sc)"
        | (all) "take room (sc_unsent sc) \<noteq> []" "length (sc_unsent sc) \<le> room" by linarith
      then show ?thesis
      proof cases
        case zero
        then have "?P (Suc k) ws c h out as c h as"
          using WriteOk round un by (intro stay) (simp_all add: sys_write_def del: send_loop.simps)
        then show ?thesis by blast
      next
        case part
        let ?sc = "sc\<lparr>sc_sendPos := sc_sendPos sc + int room\<rparr>"
        define h2 where "h2 = h(a \<mapsto> ?sc)"
        have "a \<notin> set as'" using Suc.prems(3) Cons by simp
        then have "unsent h2 as' = unsent h as'" by (intro unsent_cong) (auto simp: h2_def)
        then have "unsent h2 as = drop room (sc_unsent sc) # unsent h as'"
          using sc_unsent_advance(1)[OF sc(2), of room] part(2) by (simp add: Cons unsent_def h2_def)
        moreover have "send_loop (Suc k) ws c h out = Inr (c, h2, out @ take room (sc_unsent sc))"
          using WriteOk round part by (simp add: h2_def sys_write_def min_absorb2 del: send_loop.simps)
        moreover have "wire_send (Suc k) ws (unsent h as) = (drop room (sc_unsent sc) # unsent h as', take room (sc_unsent sc))"
          using un WriteOk part by simp
        moreover have "\<forall>b. b \<notin> set as \<longrightarrow> h2 b = h b" by (simp add: h2_def Cons)
        ultimately have "?P (Suc k) ws c h out as c h2 as"
          using Suc.prems(1,2) by (simp del: send_loop.simps wire_send.simps)
        then show ?thesis by blast
      next
        case all
        define h1 where "h1 = h(a := None)"
        have a: "a \<notin> set as'" "distinct as'" using Suc.prems(3) Cons by simp_all
        then have h1: "unsent h1 as' = unsent h as'" by (intro unsent_cong) (auto simp: h1_def)
        have "\<forall>b\<in>set as'. \<exists>sc. h1 b = Some sc \<and> sc_ok sc"
          using Suc.prems(4) Cons a(1) by (auto simp: h1_def)
        from Suc.IH[OF popped(1,2) a(2) this, of "\<lambda>i. ws (Suc i)" "out @ sc_unsent sc"]
        obtain c' h2 as2 where IH: "?P k (\<lambda>i. ws (Suc i)) ?c h1 (out @ sc_unsent sc) as' c' h2 as2" by blast
        have "send_loop (Suc k) ws c h out = send_loop k (\<lambda>i. ws (Suc i)) ?c h1 (out @ sc_unsent sc)"
          using WriteOk round all by (auto simp: h1_def sys_write_def simp del: send_loop.simps)
        moreover have "wire_send (Suc k) ws (unsent h as) =
            (case wire_send k (\<lambda>i. ws (Suc i)) (unsent h as') of (ms, o') \<Rightarrow> (ms, sc_unsent sc @ o'))"
          using un WriteOk all by auto
        moreover have "\<forall>b. b \<notin> set as \<longrightarrow> h2 b = h b" using IH by (simp add: h1_def Cons)
        ultimately have "?P (Suc k) ws c h out as c' h2 as2"
          using IH h1 popped(3) by (simp del: send_loop.simps wire_send.simps add: case_prod_beta)
        then show ?thesis by blast
      qed
    qed
  qed
qed

section \<open>What is on its way to a connection\<close>

text \<open>The strings in the ring of a connection, those in tasks for it, and the stream of all bytes for it.\<close>

definition conn_unsent :: "'h cellManager \<Rightarrow> int \<Rightarrow> byte list list" where
  "conn_unsent s fd = (case cm_Cell s fd of None \<Rightarrow> [] | Some c \<Rightarrow> unsent (cm_heap s) (cell_addrs c))"

definition send_tasks :: "int \<Rightarrow> cellTask list \<Rightarrow> nat list" where
  "send_tasks fd ts = map (the \<circ> ct_sC) (filter (\<lambda>t. ct_event t = CHR ''S'' \<and> ct_clientid t = fd) ts)"

definition queue_unsent :: "'h cellManager \<Rightarrow> int \<Rightarrow> byte list list" where
  "queue_unsent s fd = unsent (cm_heap s) (send_tasks fd (cm_tasks s))"

definition conn_list :: "'h cellManager \<Rightarrow> int \<Rightarrow> byte list list" where
  "conn_list s fd = conn_unsent s fd @ queue_unsent s fd"

definition conn_stream :: "'h cellManager \<Rightarrow> int \<Rightarrow> byte list" where
  "conn_stream s fd = cm_wire s fd @ concat (conn_list s fd)"

lemma conn_unsent_Some: "cm_Cell s fd = Some c \<Longrightarrow> conn_unsent s fd = unsent (cm_heap s) (cell_addrs c)"
  by (simp add: conn_unsent_def)

lemma send_tasks_subset: "set (send_tasks fd ts) \<subseteq> set (task_addrs ts)"
  by (auto simp: send_tasks_def task_addrs_def)

lemma send_tasks_simps [simp]:
  "send_tasks fd [] = []"
  "send_tasks fd (t # ts) =
    (if ct_event t = CHR ''S'' \<and> ct_clientid t = fd then the (ct_sC t) # send_tasks fd ts else send_tasks fd ts)"
  "send_tasks fd (ts @ ts') = send_tasks fd ts @ send_tasks fd ts'"
  by (simp_all add: send_tasks_def)

lemma cell_addrs_live:
  assumes "cm_inv s" "cm_Cell s fd = Some c"
  shows "ce_inv c" "ce_pending c = map Some (cell_addrs c)" "distinct (cell_addrs c)"
    "\<forall>a\<in>set (cell_addrs c). \<exists>sc. cm_heap s a = Some sc \<and> sc_ok sc" "ce_ClientFd c = fd"
proof -
  have ok: "cell_ok fd c" by (rule cm_invD(3)[OF assms])
  then show "ce_inv c" "ce_ClientFd c = fd" by (simp_all add: cell_ok_def)
  show "ce_pending c = map Some (cell_addrs c)" by (rule cell_pending_Some[OF ok])
  have r: "cm_refs s (InCell fd) = cell_addrs c" by (simp add: cm_refs_simps assms(2))
  show "distinct (cell_addrs c)" "\<forall>a\<in>set (cell_addrs c). \<exists>sc. cm_heap s a = Some sc \<and> sc_ok sc"
    using ownedD(3)[OF cm_invD(4)[OF assms(1)], of _ "InCell fd"] ownedD(1)[OF cm_invD(4)[OF assms(1)], of "InCell fd"]
    by (simp_all add: r)
qed

text \<open>The addresses of one connection are not those of another, nor of the queue.\<close>

lemma addrs_disjoint:
  assumes inv: "cm_inv s" and c: "cm_Cell s fd = Some c" and a: "a \<in> set (cell_addrs c)"
  shows "cm_Cell s fd' = Some c' \<Longrightarrow> fd' \<noteq> fd \<Longrightarrow> a \<notin> set (cell_addrs c')" "a \<notin> set (send_tasks fd' (cm_tasks s))"
proof -
  note o = ownedD(2)[OF cm_invD(4)[OF inv], of a "InCell fd"]
  have r: "a \<in> set (cm_refs s (InCell fd))" using c a by (simp add: cm_refs_simps)
  show "cm_Cell s fd' = Some c' \<Longrightarrow> fd' \<noteq> fd \<Longrightarrow> a \<notin> set (cell_addrs c')"
    using o[OF r, of "InCell fd'"] by (auto simp: cm_refs_simps)
  show "a \<notin> set (send_tasks fd' (cm_tasks s))"
    using o[OF r, of InQueue] send_tasks_subset by (auto simp: cm_refs_simps)
qed

lemma doSend_refines:
  assumes inv: "cm_inv s" and c: "cm_Cell s fd = Some c"
  shows "\<exists>s' c'. doSend fd ws s = Inr s' \<and> cm_inv s' \<and> cm_Cell s' = (cm_Cell s)(fd \<mapsto> c')
    \<and> conn_unsent s' fd = fst (wire_send serverMaxSendTimes ws (conn_unsent s fd))
    \<and> cm_wire s' = (cm_wire s)(fd := cm_wire s fd @ snd (wire_send serverMaxSendTimes ws (conn_unsent s fd)))
    \<and> cm_cellTask s' = cm_cellTask s \<and> cm_TNotify s' = cm_TNotify s
    \<and> (\<forall>b. b \<notin> set (cell_addrs c) \<longrightarrow> cm_heap s' b = cm_heap s b)"
proof -
  note live = cell_addrs_live[OF inv c]
  obtain c' h' as' where l: "send_loop serverMaxSendTimes ws c (cm_heap s) [] =
      Inr (c', h', snd (wire_send serverMaxSendTimes ws (conn_unsent s fd)))"
    "ce_pending c' = map Some as'" "unsent h' as' = fst (wire_send serverMaxSendTimes ws (conn_unsent s fd))"
    "\<forall>b. b \<notin> set (cell_addrs c) \<longrightarrow> h' b = cm_heap s b"
    using send_loop_refines[OF live(1-4), of serverMaxSendTimes ws "[]"] by (auto simp: conn_unsent_Some[OF c])
  have "cell_addrs c' = as'" by (simp add: cell_addrs_def l(2) comp_def)
  moreover obtain s' where "doSend fd ws s = Inr s'" "cm_inv s'" using doSend_ok[OF inv] by blast
  ultimately show ?thesis
    using c l live(5) by (intro exI[of _ s'] exI[of _ c']) (auto simp: doSend_def conn_unsent_def)
qed

end
