(* ===== verification/Cell_Manager_Frame.thy ===== *)
theory Cell_Manager_Frame
  imports Cell_Manager_Send
begin

text \<open>
  What the event loop does after \<open>handleTask\<close>, reduced to its effects: replacing a connection by one
  with the same messages, posting a disconnect, and sending.  A relation between states that has
  these three has the whole of it.
\<close>

section \<open>Posting a disconnect\<close>

lemma delTask_frame:
  assumes "cm_inv s" "delTask fd s = Inr s'"
  shows "cm_Cell s' = cm_Cell s" "cm_heap s' = cm_heap s" "cm_wire s' = cm_wire s" "cm_epoll s' = cm_epoll s"
    "cm_closed s' = cm_closed s"
    "\<exists>ts. cm_tasks s' = cm_tasks s @ ts \<and> (\<forall>t\<in>set ts. ct_event t = CHR ''D'' \<and> ct_clientid t = fd)"
proof -
  show "cm_Cell s' = cm_Cell s" "cm_heap s' = cm_heap s" "cm_wire s' = cm_wire s" "cm_epoll s' = cm_epoll s"
    "cm_closed s' = cm_closed s"
    using assms(2) by (auto simp: delTask_def cm_push_def Let_def obind_eq_Inr)
  show "\<exists>ts. cm_tasks s' = cm_tasks s @ ts \<and> (\<forall>t\<in>set ts. ct_event t = CHR ''D'' \<and> ct_clientid t = fd)"
  proof -
    obtain k where "cm_tasks s' = cm_tasks s @ (if k then [cellTask_new\<lparr>ct_event := CHR ''D'', ct_clientid := fd\<rparr>] else [])"
      using delTask_ok[OF assms(1), of fd] assms(2) by (metis sum.inject(2))
    then show ?thesis by (cases k) auto
  qed
qed

section \<open>Relations kept by events\<close>

locale event_frame = safe_handler n ok for n :: "'h tNotify" and ok +
  fixes R :: "'h cellManager \<Rightarrow> 'h cellManager \<Rightarrow> bool"
  assumes R_refl [simp]: "R s s"
    and R_trans: "R s s' \<Longrightarrow> R s' s'' \<Longrightarrow> R s s''"
    and R_cell: "cm_Cell s fd = Some c \<Longrightarrow> cell_addrs c' = cell_addrs c \<Longrightarrow> cm_Cell s' = (cm_Cell s)(fd \<mapsto> c') \<Longrightarrow>
      cm_heap s' = cm_heap s \<Longrightarrow> cm_wire s' = cm_wire s \<Longrightarrow> cm_tasks s' = cm_tasks s \<Longrightarrow> R s s'"
    and R_post: "cm_Cell s' = cm_Cell s \<Longrightarrow> cm_heap s' = cm_heap s \<Longrightarrow> cm_wire s' = cm_wire s \<Longrightarrow>
      cm_tasks s' = cm_tasks s @ ts \<Longrightarrow> \<forall>t\<in>set ts. ct_event t = CHR ''D'' \<and> ct_clientid t = fd \<Longrightarrow> R s s'"
    and R_send: "cm_inv s \<Longrightarrow> doSend fd ws s = Inr s' \<Longrightarrow> R s s'"
begin

lemma R_delTask: "cm_inv s \<Longrightarrow> delTask fd s = Inr s' \<Longrightarrow> R s s'"
  using delTask_frame[of s fd s'] R_post[of s' s _ fd] by blast

lemma R_checkWrite_cell: "R s (checkWrite_cell fd s)"
proof (cases "cm_Cell s fd")
  case None
  then show ?thesis by (simp add: checkWrite_cell_def R_refl)
next
  case (Some c)
  have a: "cell_addrs (c\<lparr>ce_Events := e\<rparr>) = cell_addrs c" for e by (simp add: cell_addrs_def ce_pending_def)
  have "checkWrite_cell fd s = s \<or>
      (\<exists>e ep. checkWrite_cell fd s = s\<lparr>cm_Cell := (cm_Cell s)(fd \<mapsto> c\<lparr>ce_Events := e\<rparr>), cm_epoll := ep\<rparr>)"
    using Some by (auto simp: checkWrite_cell_def Let_def)
  then show ?thesis
    by (elim disjE exE) (simp add: R_refl, rule R_cell[OF Some a], simp_all add: cm_tasks_def)
qed

lemma R_checkWrite: "R s (checkWrite keys s)"
proof (induction keys arbitrary: s)
  case Nil
  then show ?case by (simp add: checkWrite_def R_refl)
next
  case (Cons k keys)
  then show ?case using R_trans[OF R_checkWrite_cell[of s k] Cons.IH] by (simp add: checkWrite_def)
qed

lemma R_doRecv:
  assumes inv: "cm_inv s" and h: "ok (cm_TNotify s)" and d: "doRecv n fd script s = Inr (ex, s', script')"
  shows "R s s'"
proof (cases "cm_Cell s fd")
  case None
  then show ?thesis using d by (simp add: doRecv_def)
next
  case (Some c)
  have okc: "cell_ok fd c" by (rule cm_invD(3)[OF inv Some])
  obtain ex1 c' h' script1 where r: "recv_loop n c (cm_TNotify s) script = Inr (ex1, c', h', script1)" "ce_inv c'"
    "ce_ClientFd c' = ce_ClientFd c" "ce_pending c' = ce_pending c"
    using recv_loop_ok[OF _ h, of c script] okc by (auto simp: cell_ok_def)
  let ?s = "s\<lparr>cm_Cell := (cm_Cell s)(fd \<mapsto> c'), cm_TNotify := h'\<rparr>"
  have a: "cell_addrs c' = cell_addrs c" by (simp add: cell_addrs_def r(4))
  have "cell_ok fd c'" using okc r by (simp add: cell_ok_def)
  from cm_inv_cell[OF inv Some this a] have inv1: "cm_inv ?s" by simp
  have k: "R s ?s"
    by (rule R_cell[OF Some a]) (simp_all add: cm_tasks_def)
  show ?thesis
  proof (cases "ex1 = RecvDone (- 1)")
    case True
    then have "delTask (ce_ClientFd c') ?s = Inr s'"
      using d Some r(1) by (auto simp: doRecv_def Let_def obind_eq_Inr)
    then show ?thesis using R_trans[OF k R_delTask[OF inv1]] by blast
  next
    case False
    then have "s' = ?s" using d Some r(1) by (simp add: doRecv_def Let_def)
    then show ?thesis using k by simp
  qed
qed

lemma R_doEvent:
  assumes inv: "cm_inv s" and h: "ok (cm_TNotify s)" and d: "doEvent n e s = Inr (ex, s')"
  shows "R s s'"
proof (cases "ev_events e AND (EPOLLHUP OR EPOLLERR OR EPOLLRDHUP) = 0")
  case False
  then have "delTask (ev_fd e) s = Inr s'" using d by (auto simp: doEvent_def obind_eq_Inr)
  then show ?thesis by (rule R_delTask[OF inv])
next
  case live: True
  obtain ex1 s1 script where r: "doRecv n (ev_fd e) (ev_reads e) s = Inr (ex1, s1, script)" "cm_inv s1" "ok (cm_TNotify s1)"
    using doRecv_ok[OF inv h] by blast
  let ?r = "if ev_events e AND EPOLLIN \<noteq> 0
              then obind (doRecv n (ev_fd e) (ev_reads e) s) (\<lambda>(ex, s1, script). Inr (ex, s1))
              else Inr (RecvDone 0, s)"
  obtain ex2 s2 where s2: "?r = Inr (ex2, s2)" "cm_inv s2" "R s s2"
    using r inv R_doRecv[OF inv h r(1)] by (cases "ev_events e AND EPOLLIN = 0") auto
  have "doEvent n e s = obind ?r (\<lambda>(ex, s1).
         if ex \<noteq> RecvLooping \<and> ev_events e AND EPOLLOUT \<noteq> 0
         then obind (doSend (ev_fd e) (ev_writes e) s1) (\<lambda>s2. Inr (ex, s2))
         else Inr (ex, s1))"
    using live by (simp only: doEvent_def simp_thms if_False)
  then have "doSend (ev_fd e) (ev_writes e) s2 = Inr s' \<or> s' = s2"
    using d by (cases "doSend (ev_fd e) (ev_writes e) s2") (auto simp: s2(1) split: if_splits)
  then show ?thesis using R_trans[OF s2(3) R_send[OF s2(2)]] s2(3) by blast
qed

lemma R_doEvents:
  "cm_inv s \<Longrightarrow> ok (cm_TNotify s) \<Longrightarrow> doEvents n es s = Inr (b, s') \<Longrightarrow> R s s'"
proof (induction es arbitrary: s)
  case Nil
  then show ?case by simp
next
  case (Cons e es)
  obtain ex s1 where s1: "doEvent n e s = Inr (ex, s1)" "cm_inv s1" "ok (cm_TNotify s1)"
    using doEvent_ok[OF Cons.prems(1,2)] by blast
  have k: "R s s1" by (rule R_doEvent[OF Cons.prems(1,2) s1(1)])
  show ?case
  proof (cases "ex = RecvLooping")
    case True
    then show ?thesis using Cons.prems(3) s1(1) k by simp
  next
    case False
    then show ?thesis using R_trans[OF k Cons.IH[OF s1(2,3)]] Cons.prems(3) s1(1) by simp
  qed
qed

end

end
