(* ===== verification/Cell_Manager_Stream.thy ===== *)
theory Cell_Manager_Stream
  imports Cell_Manager_Frame
begin

text \<open>
  From \<open>sendTask\<close> to the socket: the bytes for a connection are on the socket, in its ring or in
  tasks, in this order, and whatever the loop does moves them along without loss.  Only a
  disconnect or a full ring discards messages.
\<close>

section \<open>Steps that keep the stream of a connection\<close>

lemma stream_frame:
  assumes "cm_Cell s fd = Some c" "cm_Cell s' fd = Some c'" "cell_addrs c' = cell_addrs c"
    and "send_tasks fd (cm_tasks s') = send_tasks fd (cm_tasks s)"
    and "\<And>a. a \<in> set (cell_addrs c) \<or> a \<in> set (send_tasks fd (cm_tasks s)) \<Longrightarrow> cm_heap s' a = cm_heap s a"
  shows "conn_list s' fd = conn_list s fd"
proof -
  have "unsent (cm_heap s') (cell_addrs c) = unsent (cm_heap s) (cell_addrs c)"
    "unsent (cm_heap s') (send_tasks fd (cm_tasks s)) = unsent (cm_heap s) (send_tasks fd (cm_tasks s))"
    by (rule unsent_cong, use assms(5) in blast)+
  then show ?thesis using assms(1-5) by (simp add: conn_stream_def conn_list_def conn_unsent_def queue_unsent_def)
qed

lemma send_tasks_D: "\<forall>t\<in>set ts. ct_event t = CHR ''D'' \<and> ct_clientid t = fd' \<Longrightarrow> send_tasks fd ts = []"
  by (simp add: send_tasks_def filter_empty_conv)

text \<open>
  A connection in use: no task will delete it, and its ring has room for the messages in tasks.
\<close>

definition cm_quiet :: "int \<Rightarrow> 'h cellManager \<Rightarrow> bool" where
  "cm_quiet fd s \<longleftrightarrow> (\<exists>c. cm_Cell s fd = Some c \<and> length (cell_addrs c) + length (send_tasks fd (cm_tasks s)) < SYSSENDBUF)
     \<and> (\<forall>t\<in>set (cm_tasks s). ct_event t = CHR ''D'' \<longrightarrow> ct_clientid t \<noteq> fd)"

lemma cm_quietD:
  assumes "cm_quiet fd s"
  obtains c where "cm_Cell s fd = Some c" "length (cell_addrs c) + length (send_tasks fd (cm_tasks s)) < SYSSENDBUF"
    "\<And>t. t \<in> set (cm_tasks s) \<Longrightarrow> ct_event t = CHR ''D'' \<Longrightarrow> ct_clientid t \<noteq> fd"
  using assms by (auto simp: cm_quiet_def)

lemma send_full_length:
  assumes "ce_inv c" "send_full c"
  shows "SYSSENDBUF \<le> Suc (length (cell_addrs c))"
proof -
  have "length (ce_pending c) = SYSSENDBUF - 1"
    using ring_full_len[THEN iffD1, of "unat (ce_SendReadPos c)" SYSSENDBUF "unat (ce_SendWritePos c)"]
      assms(2) send_full_iff[OF assms(1)] assms(1) by (simp add: ce_pending_def ce_inv_def)
  then show ?thesis by (simp add: cell_addrs_def)
qed

lemma handleSend_push:
  assumes "cm_Cell s (ct_clientid ct) = Some c" "ce_inv c" "\<not> send_full c" "ct_sC ct = Some a"
  shows "\<exists>c'. handleSend ct s = Inr (s\<lparr>cm_Cell := (cm_Cell s)(ct_clientid ct \<mapsto> c')\<rparr>) \<and> cell_addrs c' = cell_addrs c @ [a]"
proof -
  let ?c = "c\<lparr>ce_SendBuf := (ce_SendBuf c)(unat (ce_SendWritePos c) := ct_sC ct),
                 ce_SendWritePos := send_next (ce_SendWritePos c)\<rparr>"
  have "ce_pending ?c = ce_pending c @ [Some a]"
    using ce_pending_push(1)[OF assms(2) _ refl, of "ct_sC ct"] send_full_iff[OF assms(2)] assms(3,4) by simp
  moreover have "unat (ce_SendWritePos c) < CLIENTCELLSENDBUF"
    using assms(2) by (simp add: ce_inv_def SYSSENDBUF_def CLIENTCELLSENDBUF_def)
  ultimately show ?thesis
    using assms(1,3) by (intro exI[of _ ?c]) (simp add: handleSend_def Let_def cell_addrs_def)
qed

lemma handleSend_cases:
  assumes "handleSend ct s = Inr s'" "cm_inv s"
  shows "cm_heap s' = cm_heap s" "cm_wire s' = cm_wire s" "cm_tasks s' = cm_tasks s"
    "fd \<noteq> ct_clientid ct \<Longrightarrow> cm_Cell s' fd = cm_Cell s fd"
  using assms(1) by (auto simp: handleSend_def Let_def obind_eq_Inr cm_tasks_def split: option.splits if_splits)

lemma handleOne_stream:
  fixes s :: "'h cellManager" and q :: "cellTask srt_queue"
  defines "s0 \<equiv> s\<lparr>cm_cellTask := q\<rparr>"
  assumes inv: "cm_inv s" and t: "cm_tasks s = ct # ts" and inv0: "cm_inv s0" and t0: "cm_tasks s0 = ts"
    and S: "ct_event ct = CHR ''S'' \<longrightarrow> (\<exists>a sc. ct_sC ct = Some a \<and> cm_heap s a = Some sc \<and> sc_ok sc
        \<and> (\<forall>x. a \<notin> set (cm_refs s0 x)))"
    and one: "handleOne n ct s0 = Inr s1" and quiet: "cm_quiet fd s"
  shows "cm_quiet fd s1 \<and> conn_list s1 fd = conn_list s fd \<and> cm_wire s1 = cm_wire s"
proof -
  obtain c where c: "cm_Cell s fd = Some c" "length (cell_addrs c) + length (send_tasks fd (ct # ts)) < SYSSENDBUF"
    "\<And>t. t \<in> set (ct # ts) \<Longrightarrow> ct_event t = CHR ''D'' \<Longrightarrow> ct_clientid t \<noteq> fd"
    using cm_quietD[OF quiet] t by metis
  have same: "cm_Cell s0 = cm_Cell s" "cm_heap s0 = cm_heap s" "cm_wire s0 = cm_wire s" by (simp_all add: s0_def)
  have frame: ?thesis
    if "cm_Cell s1 fd = Some c'" "cell_addrs c' = cell_addrs c" "cm_tasks s1 = ts @ new"
      "\<forall>t\<in>set new. ct_event t = CHR ''D'' \<and> ct_clientid t = k" "k \<noteq> fd" "cm_wire s1 = cm_wire s"
      "send_tasks fd (ct # ts) = send_tasks fd ts"
      "\<And>a. a \<in> set (cell_addrs c) \<or> a \<in> set (send_tasks fd (cm_tasks s)) \<Longrightarrow> cm_heap s1 a = cm_heap s a"
    for c' new k
  proof (intro conjI)
    have st: "send_tasks fd (cm_tasks s1) = send_tasks fd (cm_tasks s)"
      using that(3,7) send_tasks_D[OF that(4)] t by (simp del: send_tasks_simps(2))
    show "conn_list s1 fd = conn_list s fd"
      by (rule stream_frame[OF c(1) that(1,2) st]) (use that(8) in auto)
    show "cm_wire s1 = cm_wire s" by (rule that(6))
    show "cm_quiet fd s1"
      unfolding cm_quiet_def using that(1-5) c(2,3) st t by auto
  qed
  consider (S1) "ct_event ct = CHR ''S''" "ct_clientid ct = fd" | (S2) "ct_event ct = CHR ''S''" "ct_clientid ct \<noteq> fd"
    | (D) "ct_event ct = CHR ''D''" | (A) "ct_event ct = CHR ''A''"
    | (none) "ct_event ct \<noteq> CHR ''S''" "ct_event ct \<noteq> CHR ''D''" "ct_event ct \<noteq> CHR ''A''" by blast
  then show ?thesis
  proof cases
    case S1
    obtain a where a: "ct_sC ct = Some a" using S S1(1) by blast
    have ci: "ce_inv c" by (rule cell_addrs_live(1)[OF inv c(1)])
    have "\<not> send_full c" using send_full_length[OF ci] c(2) S1 by auto
    from handleSend_push[of s0 ct c, OF _ ci this a] obtain c' where
      c': "handleSend ct s0 = Inr (s0\<lparr>cm_Cell := (cm_Cell s0)(fd \<mapsto> c')\<rparr>)" "cell_addrs c' = cell_addrs c @ [a]"
      using c(1) S1(2) same(1) by auto
    have s1: "s1 = s0\<lparr>cm_Cell := (cm_Cell s0)(fd \<mapsto> c')\<rparr>" using one c'(1) S1(1) by (simp add: handleOne_def)
    have t1: "cm_tasks s1 = ts" using t0 by (simp add: s1 cm_tasks_def)
    have "conn_list s1 fd = conn_list s fd" "cm_wire s1 = cm_wire s"
      using c(1) c'(2) S1 a same t t1
      by (simp_all add: conn_list_def conn_unsent_def queue_unsent_def s1 unsent_def)
    moreover have "cm_quiet fd s1"
      unfolding cm_quiet_def using c(2,3) c'(2) S1 a t1 by (auto simp: s1)
    ultimately show ?thesis by blast
  next
    case S2
    then have h: "handleSend ct s0 = Inr s1" using one by (simp add: handleOne_def)
    note f = handleSend_cases[OF h inv0]
    show ?thesis
      by (rule frame[of c "[]" "ct_clientid ct"]) (use S2 f c(1) same t0 in auto)
  next
    case D
    have ne: "ct_clientid ct \<noteq> fd" using c(3) D by simp
    have h: "handleDel n ct s0 = Inr s1" using one D by (simp add: handleOne_def)
    show ?thesis
    proof (cases "cm_Cell s (ct_clientid ct)")
      case None
      then have "s1 = s0" using h same by (simp add: handleDel_def)
      then show ?thesis
        by (intro frame[of c "[]" "ct_clientid ct"]) (use ne D c(1) same t0 in auto)
    next
      case (Some c2)
      obtain s2 where s2: "delClientCell c2 s0 = Inr s2" "cm_Cell s2 = cm_Cell s0" "cm_cellTask s2 = cm_cellTask s0"
        "cm_heap s2 = free_all (cell_addrs c2) (cm_heap s0)"
        using delClientCell_ok[OF inv0, of "ct_clientid ct" c2] Some same(1) by auto
      have w: "cm_wire s2 = cm_wire s0" using s2(1) by (auto simp: delClientCell_def obind_eq_Inr)
      have s1: "cm_Cell s1 = (cm_Cell s)(ct_clientid ct := None)" "cm_heap s1 = cm_heap s2" "cm_wire s1 = cm_wire s"
        "cm_tasks s1 = ts"
        using h s2 Some same w t0 by (auto simp: handleDel_def cm_tasks_def)
      have "cm_heap s1 a = cm_heap s a" if "a \<in> set (cell_addrs c) \<or> a \<in> set (send_tasks fd (cm_tasks s))" for a
      proof -
        have "a \<notin> set (cell_addrs c2)"
          using that addrs_disjoint[OF inv Some, of a fd] c(1) ne by blast
        then show ?thesis using s1(2) s2(4) same(2) by (simp add: free_all_def)
      qed
      then show ?thesis
        by (intro frame[of c "[]" "ct_clientid ct"]) (use ne D c(1) s1 in auto)
    qed
  next
    case A
    then have h: "handleAdd n ct s0 = Inr s1" using one by (simp add: handleOne_def)
    show ?thesis
    proof (cases "cm_Cell s (ct_clientid ct)")
      case None
      then have d: "delTask (ct_clientid ct) s0 = Inr s1" "ct_clientid ct \<noteq> fd"
        using h same(1) c(1) by (auto simp: handleAdd_def)
      note f = delTask_frame[OF inv0 d(1)]
      obtain new where "cm_tasks s1 = ts @ new" "\<forall>t\<in>set new. ct_event t = CHR ''D'' \<and> ct_clientid t = ct_clientid ct"
        using f(6) t0 by auto
      then show ?thesis
        by (intro frame[of c new "ct_clientid ct"]) (use d A c(1) same f in auto)
    next
      case (Some c2)
      let ?c = "c2\<lparr>ce_Events := EPOLLET OR EPOLLIN OR EPOLLPRI OR EPOLLRDHUP OR EPOLLERR\<rparr>"
      have s1: "cm_Cell s1 = (cm_Cell s)(ct_clientid ct \<mapsto> ?c)" "cm_heap s1 = cm_heap s" "cm_wire s1 = cm_wire s"
        "cm_tasks s1 = ts"
        using h Some same t0 by (auto simp: handleAdd_def Let_def cm_tasks_def)
      have "cell_addrs ?c = cell_addrs c2" by (simp add: cell_addrs_def ce_pending_def)
      then have "\<exists>c'. cm_Cell s1 fd = Some c' \<and> cell_addrs c' = cell_addrs c"
        using s1(1) c(1) Some by (cases "ct_clientid ct = fd") auto
      then obtain c' where "cm_Cell s1 fd = Some c'" "cell_addrs c' = cell_addrs c" by blast
      then show ?thesis
        by (intro frame[of c' "[]" "fd + 1"]) (use A s1 in auto)
    qed
  next
    case none
    then have "s1 = s0" using one by (simp add: handleOne_def)
    then show ?thesis
      by (intro frame[of c "[]" "fd + 1"]) (use none c(1) same t0 in auto)
  qed
qed

section \<open>A pass of the loop\<close>

text \<open>Nothing after \<open>handleTask\<close> deletes a connection or touches the stream of one.\<close>

definition conn_kept :: "'h cellManager \<Rightarrow> 'h cellManager \<Rightarrow> bool" where
  "conn_kept s s' \<longleftrightarrow> (\<forall>fd. cm_Cell s fd \<noteq> None \<longrightarrow> cm_Cell s' fd \<noteq> None \<and> conn_stream s' fd = conn_stream s fd)"

lemma conn_kept_refl [simp]: "conn_kept s s"
  by (simp add: conn_kept_def)

lemma conn_kept_trans: "conn_kept s s' \<Longrightarrow> conn_kept s' s'' \<Longrightarrow> conn_kept s s''"
  by (simp add: conn_kept_def)

text \<open>A connection replaced by one with the same messages, other components by anything.\<close>

lemma conn_kept_cell:
  assumes "cm_Cell s fd = Some c" "cell_addrs c' = cell_addrs c"
    and "cm_Cell s' = (cm_Cell s)(fd \<mapsto> c')" "cm_heap s' = cm_heap s" "cm_wire s' = cm_wire s"
    and "cm_tasks s' = cm_tasks s @ ts" "\<forall>t\<in>set ts. ct_event t = CHR ''D'' \<and> ct_clientid t = k"
  shows "conn_kept s s'"
  using assms send_tasks_D[OF assms(7)]
  by (auto simp: conn_kept_def conn_stream_def conn_list_def conn_unsent_def queue_unsent_def)

lemma doSend_kept:
  assumes inv: "cm_inv s" and d: "doSend fd ws s = Inr s'"
  shows "conn_kept s s'"
proof (cases "cm_Cell s fd")
  case None
  then show ?thesis using d by (simp add: doSend_def)
next
  case (Some c)
  obtain s2 c' where "doSend fd ws s = Inr s2" "cm_Cell s2 = (cm_Cell s)(fd \<mapsto> c')"
    "conn_unsent s2 fd = fst (wire_send serverMaxSendTimes ws (conn_unsent s fd))"
    "cm_wire s2 = (cm_wire s)(fd := cm_wire s fd @ snd (wire_send serverMaxSendTimes ws (conn_unsent s fd)))"
    "cm_cellTask s2 = cm_cellTask s" "\<forall>b. b \<notin> set (cell_addrs c) \<longrightarrow> cm_heap s2 b = cm_heap s b"
    using doSend_refines[OF inv Some, of ws] by blast
  then have s': "cm_Cell s' = (cm_Cell s)(fd \<mapsto> c')"
    "conn_unsent s' fd = fst (wire_send serverMaxSendTimes ws (conn_unsent s fd))"
    "cm_wire s' = (cm_wire s)(fd := cm_wire s fd @ snd (wire_send serverMaxSendTimes ws (conn_unsent s fd)))"
    "cm_tasks s' = cm_tasks s" "\<And>b. b \<notin> set (cell_addrs c) \<Longrightarrow> cm_heap s' b = cm_heap s b"
    using d by (auto simp: cm_tasks_def)
  have q: "queue_unsent s' fd' = queue_unsent s fd'" for fd'
    unfolding queue_unsent_def s'(4)
    by (rule unsent_cong) (use s'(5) addrs_disjoint(2)[OF inv Some] in blast)
  have "conn_stream s' fd' = conn_stream s fd'" if c2: "cm_Cell s fd' = Some c2" for fd' c2
  proof (cases "fd' = fd")
    case True
    then show ?thesis
      using q[of fd] s'(2,3)
      by (simp add: conn_stream_def conn_list_def wire_send_bytes[of serverMaxSendTimes ws "conn_unsent s fd", symmetric])
  next
    case False
    have "unsent (cm_heap s') (cell_addrs c2) = unsent (cm_heap s) (cell_addrs c2)"
      by (rule unsent_cong) (use s'(5) addrs_disjoint(1)[OF inv c2 _ Some] False in blast)
    then show ?thesis using q[of fd'] s'(1,3) False c2 by (simp add: conn_stream_def conn_list_def conn_unsent_def)
  qed
  then show ?thesis using s'(1) by (auto simp: conn_kept_def)
qed

sublocale safe_handler < kept: event_frame n ok conn_kept
proof unfold_locales
  show "conn_kept s s'" if "cm_Cell s fd = Some c" "cell_addrs c' = cell_addrs c" "cm_Cell s' = (cm_Cell s)(fd \<mapsto> c')"
    "cm_heap s' = cm_heap s" "cm_wire s' = cm_wire s" "cm_tasks s' = cm_tasks s" for s s' :: "'h cellManager" and fd c c'
    by (rule conn_kept_cell[OF that(1-5), of "[]"]) (simp_all add: that(6))
  show "conn_kept s s'" if "cm_Cell s' = cm_Cell s" "cm_heap s' = cm_heap s" "cm_wire s' = cm_wire s"
    "cm_tasks s' = cm_tasks s @ ts" "\<forall>t\<in>set ts. ct_event t = CHR ''D'' \<and> ct_clientid t = fd" for s s' :: "'h cellManager" and ts fd
    using that send_tasks_D[OF that(5)] by (auto simp: conn_kept_def conn_stream_def conn_list_def conn_unsent_def queue_unsent_def)
qed (blast intro: conn_kept_refl conn_kept_trans doSend_kept)+

context safe_handler
begin

lemma handleTask_stream:
  assumes "cm_inv s" "ok (cm_TNotify s)" "cm_quiet fd s"
  shows "\<exists>s'. handleTask n s = Some (Inr s') \<and> cm_inv s' \<and> ok (cm_TNotify s') \<and> cm_tasks s' = []
    \<and> cm_quiet fd s' \<and> conn_list s' fd = conn_list s fd \<and> cm_wire s' = cm_wire s"
proof -
  let ?P = "\<lambda>s'. cm_quiet fd s' \<and> conn_list s' fd = conn_list s fd \<and> cm_wire s' = cm_wire s"
  have "?P s" using assms(3) by simp
  moreover have "?P s1"
    if "cm_inv t" "?P t" "cm_tasks t = ct # ts" "cm_inv (t\<lparr>cm_cellTask := q\<rparr>)" "cm_tasks (t\<lparr>cm_cellTask := q\<rparr>) = ts"
      "ct_event ct = CHR ''S'' \<longrightarrow> (\<exists>a sc. ct_sC ct = Some a \<and> cm_heap t a = Some sc \<and> sc_ok sc
        \<and> (\<forall>x. a \<notin> set (cm_refs (t\<lparr>cm_cellTask := q\<rparr>) x)))"
      "handleOne n ct (t\<lparr>cm_cellTask := q\<rparr>) = Inr s1" for t ct ts q s1
    using handleOne_stream[OF that(1,3-7), of fd] that(2) by simp
  ultimately show ?thesis by (rule handleTask_induct[OF assms(1,2)])
qed

lemma run_pass_stream:
  assumes "cm_inv s" "ok (cm_TNotify s)" "cm_quiet fd s"
  shows "\<exists>b s'. run_pass n keys wait s = Some (Inr (b, s')) \<and> cm_Cell s' fd \<noteq> None \<and> conn_stream s' fd = conn_stream s fd"
proof -
  obtain s1 where s1: "handleTask n s = Some (Inr s1)" "cm_inv s1" "ok (cm_TNotify s1)" "cm_quiet fd s1"
    "conn_list s1 fd = conn_list s fd" "cm_wire s1 = cm_wire s"
    using handleTask_stream[OF assms] by blast
  have c: "cm_Cell s1 fd \<noteq> None" using s1(4) by (auto simp: cm_quiet_def)
  have k: "conn_kept s1 (checkWrite keys s1)" by (rule kept.R_checkWrite)
  have st: "conn_stream s1 fd = conn_stream s fd" using s1(5,6) by (simp add: conn_stream_def)
  show ?thesis
  proof (cases wait)
    case None
    then show ?thesis using s1(1) k c st by (intro exI[of _ True] exI[of _ "checkWrite keys s1"]) (simp add: run_pass_def conn_kept_def)
  next
    case (Some es)
    have i: "cm_inv (checkWrite keys s1)" "ok (cm_TNotify (checkWrite keys s1))"
      using checkWrite_ok[OF s1(2), of keys] s1(3) by simp_all
    obtain b s2 where s2: "doEvents n es (checkWrite keys s1) = Inr (b, s2)" using doEvents_ok[OF i] by blast
    have "conn_kept s1 s2" by (rule conn_kept_trans[OF k kept.R_doEvents[OF i s2]])
    then show ?thesis using Some s1(1) s2 c st by (simp add: run_pass_def conn_kept_def Let_def)
  qed
qed

end

section \<open>Posting a message\<close>

lemma srt_room_tasks: "cm_inv s \<Longrightarrow> srt_room (cm_cellTask s) \<longleftrightarrow> length (cm_tasks s) < srt_cap (cm_cellTask s)"
  using sq.room_iff[OF cm_invD(1)] by (simp add: cm_tasks_def)

lemma sendTask_stream:
  assumes inv: "cm_inv s" and c: "cm_Cell s fd \<noteq> None" and len: "0 \<le> len" "len + 1 < 2 ^ 31" "nat len \<le> length p"
  defines "ok \<equiv> length (cm_tasks s) < srt_cap (cm_cellTask s)"
  shows "\<exists>s'. sendTask fd p len s = Inr (error_code (if ok then NAUT_AT_S_OK else NAUT_AT_E_TCP_SERVER_PUSH_CACHE_FAILED), s')
    \<and> cm_inv s' \<and> cm_Cell s' = cm_Cell s \<and> cm_wire s' = cm_wire s \<and> cm_TNotify s' = cm_TNotify s
    \<and> cm_tasks s' = cm_tasks s @ (if ok then [cellTask_new\<lparr>ct_event := CHR ''S'', ct_clientid := fd, ct_sC := Some (cm_next s)\<rparr>] else [])
    \<and> (\<forall>fd'. conn_list s' fd' = conn_list s fd' @ (if ok \<and> fd' = fd then [take (nat len) p] else []))"
proof -
  let ?a = "cm_next s"
  let ?ct = "cellTask_new\<lparr>ct_event := CHR ''S'', ct_clientid := fd, ct_sC := Some ?a\<rparr>"
  obtain sc where sc: "sendCell_make p len = Inr sc" "sc_ptr sc = Some (take (nat len) p @ [0])" "sc_size sc = len"
    "sc_sendPos sc = 0"
    using sendCell_make_ok[OF len] by blast
  have un: "sc_unsent sc = take (nat len) p" using sc len(3) by (simp add: sc_unsent_def)
  obtain q' where q': "srt_push ?ct (cm_cellTask s) = Inr (ok, q')" "srt_contents q' = cm_tasks s @ (if ok then [?ct] else [])"
    using sq.push_total[OF cm_invD(1)[OF inv], of ?ct] srt_room_tasks[OF inv] by (auto simp: cm_tasks_def ok_def)
  define h' where "h' = (cm_heap s)(?a \<mapsto> sc)"
  define s' where "s' = s\<lparr>cm_heap := h', cm_next := Suc ?a, cm_cellTask := q'\<rparr>"
  have s: "sendTask fd p len s = Inr (error_code (if ok then NAUT_AT_S_OK else NAUT_AT_E_TCP_SERVER_PUSH_CACHE_FAILED), s')"
    using c sc(1) q'(1) by (auto simp: sendTask_def cm_push_def Let_def s'_def h'_def)
  have fresh: "a \<noteq> ?a" if "a \<in> set (cm_refs s x)" for a x
    using ownedD(3)[OF cm_invD(4)[OF inv] that] cm_invD(5)[OF inv, of a] by auto
  have keep: "unsent h' as = unsent (cm_heap s) as" if "set as \<subseteq> set (cm_refs s x)" for "as" x
    by (rule unsent_cong) (use that fresh[of _ x] in \<open>auto simp: h'_def\<close>)
  have t': "cm_tasks s' = cm_tasks s @ (if ok then [?ct] else [])" using q'(2) by (simp add: s'_def cm_tasks_def)
  have "conn_unsent s' fd' = conn_unsent s fd'" for fd'
    using keep[of _ "InCell fd'"] by (auto simp: conn_unsent_def s'_def cm_refs_simps split: option.splits)
  moreover have "queue_unsent s' fd' = queue_unsent s fd' @ (if ok \<and> fd' = fd then [take (nat len) p] else [])" for fd'
    using keep[of "send_tasks fd' (cm_tasks s)" InQueue] send_tasks_subset[of fd' "cm_tasks s"] un
    unfolding queue_unsent_def t' by (auto simp: s'_def cm_refs_simps unsent_def h'_def)
  moreover have "cm_inv s'" using sendTask_ok[OF inv len, of fd] s by auto
  ultimately show ?thesis using s t' by (intro exI[of _ s']) (simp add: conn_list_def s'_def)
qed

section \<open>A connection with a message on its way\<close>

lemma cm_demo_sent:
  assumes "0 \<le> len" "len + 1 < 2 ^ 31" "nat len \<le> length p"
  shows "\<exists>s. cm_reach server_callbacks (cellManager_new 3 (Some count_hub) 0) s \<and> cm_quiet 5 s
     \<and> conn_list s 5 = [take (nat len) p] \<and> cm_wire s 5 = []"
proof -
  let ?A = "cellTask_new\<lparr>ct_event := CHR ''A'', ct_clientid := 5\<rparr>"
  let ?c = "clientCell_new 5 (\<lambda>_. 0) (\<lambda>_. None) 0 ''peer'' 80"
  obtain s where s: "cm_reach server_callbacks (cellManager_new 3 (Some count_hub) 0) s"
    "cm_Cell s = [5 \<mapsto> ?c]" "cm_tasks s = [?A]" "srt_cap (cm_cellTask s) = (2 ^ 15 - 1) * 2 ^ 16" "cm_wire s = (\<lambda>_. [])"
    using cm_demo_accept by blast
  have inv: "cm_inv s" using cm_started_inv(1) s(1) by blast
  have addrs: "cell_addrs ?c = []" using ce_inv_new(2) by (simp add: cell_addrs_def)
  have l0: "conn_list s 5 = []" using s(2,3) addrs by (simp add: conn_list_def conn_unsent_def queue_unsent_def unsent_def)
  obtain s' where s': "sendTask 5 p len s = Inr (error_code NAUT_AT_S_OK, s')" "cm_Cell s' = cm_Cell s"
    "cm_wire s' = cm_wire s" "conn_list s' 5 = [take (nat len) p]"
    "cm_tasks s' = [?A, cellTask_new\<lparr>ct_event := CHR ''S'', ct_clientid := 5, ct_sC := Some (cm_next s)\<rparr>]"
    using sendTask_stream[OF inv _ assms, of 5] s(2-4) l0 by auto
  have "cm_reach server_callbacks (cellManager_new 3 (Some count_hub) 0) s'"
    by (rule cm_reach.step[OF s(1), of "OpSend 5 p len"]) (use assms in \<open>simp_all add: s'(1)\<close>)
  moreover have "cm_quiet 5 s'"
    unfolding cm_quiet_def using s'(2,5) s(2) addrs by (simp add: SYSSENDBUF_def)
  ultimately show ?thesis using s'(3,4) s(5) by (intro exI[of _ s']) simp
qed

lemma cm_demo_send:
  "\<exists>s. cm_reach server_callbacks (cellManager_new 3 (Some count_hub) 0) s \<and> cm_quiet 5 s
     \<and> conn_list s 5 = [[1, 2, 3]] \<and> cm_wire s 5 = []"
  using cm_demo_sent[of 3 "[1, 2, 3]"] by simp

section \<open>What the server sends\<close>

text \<open>
  \<open>sendTask\<close> on any reachable state: for a connection that is gone it reports so and posts
  nothing; with a full task queue it reports that and the streams of all connections are as
  before; else it reports success and the message, copied, is the last of those on their way to
  this connection, and nothing changes for another.
\<close>

lemma sendTask_posts:
  assumes "cm_reach server_callbacks (cellManager_new epfd (Some hub) cpuN) s"
    and "0 \<le> len" "len + 1 < 2 ^ 31" "nat len \<le> length p"
  shows "if cm_Cell s fd = None then sendTask fd p len s = Inr (error_code NAUT_AT_E_TCP_SERVER_CLIENT_CLOSED, s)
    else if length (cm_tasks s) < srt_cap (cm_cellTask s)
    then \<exists>s'. sendTask fd p len s = Inr (error_code NAUT_AT_S_OK, s')
      \<and> (\<forall>fd'. conn_list s' fd' = conn_list s fd' @ (if fd' = fd then [take (nat len) p] else []) \<and> cm_wire s' fd' = cm_wire s fd')
    else \<exists>s'. sendTask fd p len s = Inr (error_code NAUT_AT_E_TCP_SERVER_PUSH_CACHE_FAILED, s')
      \<and> (\<forall>fd'. conn_list s' fd' = conn_list s fd' \<and> cm_wire s' fd' = cm_wire s fd')"
proof (cases "cm_Cell s fd = None")
  case True
  then show ?thesis by (simp add: sendTask_def)
next
  case False
  have inv: "cm_inv s" using cm_started_inv(1)[of hub s] assms(1) by blast
  from sendTask_stream[OF inv False assms(2-4)] False show ?thesis by auto
qed

lemma sendTask_posts_example:
  "\<exists>s s'. cm_Cell s 5 \<noteq> None \<and> sendTask 5 [7, 8] 2 (s :: nat server_notify cellManager) = Inr (0, s') \<and> conn_list s' 5 = conn_list s 5 @ [[7, 8]]"
proof -
  obtain s where s: "cm_reach server_callbacks (cellManager_new 3 (Some count_hub) 0) s"
    "cm_Cell s = [5 \<mapsto> clientCell_new 5 (\<lambda>_. 0) (\<lambda>_. None) 0 ''peer'' 80]"
    "cm_tasks s = [cellTask_new\<lparr>ct_event := CHR ''A'', ct_clientid := 5\<rparr>]" "srt_cap (cm_cellTask s) = (2 ^ 15 - 1) * 2 ^ 16"
    using cm_demo_accept by blast
  have "\<exists>s'. sendTask 5 [7, 8] 2 s = Inr (0, s') \<and> conn_list s' 5 = conn_list s 5 @ [[7, 8]]"
    using sendTask_posts[OF s(1), of 2 "[7, 8]" 5] s(2-4) by auto
  moreover have "cm_Cell s 5 \<noteq> None" unfolding s(2) by simp
  ultimately show ?thesis by blast
qed

text \<open>
  \<open>directSend\<close> overtakes: its bytes reach the socket before every message still in the ring or in
  a task, and, if one of them is half written, in the middle of it.
\<close>

lemma directSend_overtakes:
  assumes "0 \<le> sz" "nat sz \<le> length p"
  shows "\<exists>s'. directSend fd p sz (WriteOk k) s = Inr (int (min k (nat sz)), s') \<and> conn_list s' = conn_list s
    \<and> conn_stream s' fd = cm_wire s fd @ take (min k (nat sz)) p @ concat (conn_list s fd)"
  using assms
  by (auto simp: directSend_def sys_write_def conn_stream_def conn_list_def conn_unsent_def queue_unsent_def cm_tasks_def
      fun_eq_iff min.commute min.absorb1 split: option.split)

text \<open>
  C4: no byte is lost on the way out.  As long as no disconnect of the connection is pending and
  its ring has room for the messages in tasks, a pass of the loop, whatever other connections
  do and whatever the kernel answers, keeps the connection and its stream: the bytes written,
  followed by those in the ring and those in tasks, stay the same bytes in the same order.
\<close>

theorem server_pass_keeps_stream:
  assumes "cm_reach server_callbacks (cellManager_new epfd (Some hub) cpuN) s" "cm_quiet fd s"
  shows "\<exists>b s'. run_pass server_callbacks keys wait s = Some (Inr (b, s')) \<and> cm_Cell s' fd \<noteq> None
    \<and> cm_wire s' fd @ concat (conn_list s' fd) = cm_wire s fd @ concat (conn_list s fd)"
  using sh.run_pass_stream[of s fd keys wait] cm_started_inv[of hub s] assms unfolding conn_stream_def by blast

theorem server_pass_keeps_stream_witness:
  "\<exists>s s' b. run_pass server_callbacks [5] (Some [\<lparr>ev_fd = 5, ev_events = EPOLLOUT, ev_reads = [], ev_writes = (\<lambda>_. WriteOk 2)\<rparr>])
      (s :: nat server_notify cellManager) = Some (Inr (b, s')) \<and> cm_wire s' 5 @ concat (conn_list s' 5) = [1, 2, 3]"
proof -
  obtain s where s: "cm_reach server_callbacks (cellManager_new 3 (Some count_hub) 0) s" "cm_quiet 5 s"
    "conn_list s 5 = [[1, 2, 3]]" "cm_wire s 5 = []"
    using cm_demo_send by blast
  show ?thesis
    using server_pass_keeps_stream[OF s(1,2), of "[5]"
        "Some [\<lparr>ev_fd = 5, ev_events = EPOLLOUT, ev_reads = [], ev_writes = (\<lambda>_. WriteOk 2)\<rparr>]"]
    unfolding s(3,4) by auto
qed

text \<open>
  C6: the send loop refines a loop over byte strings.  On any reachable connection and for any
  answers of the kernel to its writes, the ring of message objects with its positions and
  \<open>sendPos\<close> ends as the list of strings does that \<open>wire_send\<close> works off from the front, and
  exactly the bytes it removes have been written, in order; the other connections keep theirs.
\<close>

theorem doSend_refines_list:
  assumes "cm_reach server_callbacks (cellManager_new epfd (Some hub) cpuN) s" "cm_Cell s fd = Some c"
  shows "\<exists>s'. doSend fd ws s = Inr s'
    \<and> wire_send serverMaxSendTimes ws (conn_unsent s fd) = (conn_unsent s' fd, drop (length (cm_wire s fd)) (cm_wire s' fd))
    \<and> (\<forall>fd'. fd' \<noteq> fd \<longrightarrow> conn_unsent s' fd' = conn_unsent s fd' \<and> cm_wire s' fd' = cm_wire s fd')"
proof -
  have inv: "cm_inv s" using cm_started_inv(1)[of hub s] assms(1) by blast
  obtain s' c' where s': "doSend fd ws s = Inr s'" "cm_Cell s' = (cm_Cell s)(fd \<mapsto> c')"
    "conn_unsent s' fd = fst (wire_send serverMaxSendTimes ws (conn_unsent s fd))"
    "cm_wire s' = (cm_wire s)(fd := cm_wire s fd @ snd (wire_send serverMaxSendTimes ws (conn_unsent s fd)))"
    "\<forall>b. b \<notin> set (cell_addrs c) \<longrightarrow> cm_heap s' b = cm_heap s b"
    using doSend_refines[OF inv assms(2), of ws] by blast
  have "conn_unsent s' fd' = conn_unsent s fd'" if "fd' \<noteq> fd" for fd'
  proof (cases "cm_Cell s fd'")
    case (Some c2)
    have "unsent (cm_heap s') (cell_addrs c2) = unsent (cm_heap s) (cell_addrs c2)"
      by (rule unsent_cong) (use s'(5) addrs_disjoint(1)[OF inv Some _ assms(2)] that in blast)
    then show ?thesis using Some that s'(2) by (simp add: conn_unsent_def)
  qed (use that s'(2) in \<open>simp add: conn_unsent_def\<close>)
  then show ?thesis using s' by simp
qed

theorem doSend_refines_list_witness:
  "\<exists>s s' :: nat server_notify cellManager. cm_Cell s 5 \<noteq> None \<and> doSend 5 (\<lambda>_. WriteOk 2) s = Inr s'
     \<and> wire_send serverMaxSendTimes (\<lambda>_. WriteOk 2) (conn_unsent s 5) = (conn_unsent s' 5, drop (length (cm_wire s 5)) (cm_wire s' 5))"
proof -
  obtain s c where s: "cm_reach server_callbacks (cellManager_new 3 (Some count_hub) 0) s" "cm_Cell s 5 = Some c"
    using cm_demo_accept by (metis fun_upd_same)
  from doSend_refines_list[OF s, of "\<lambda>_. WriteOk 2"] s(2) show ?thesis by blast
qed

text \<open>The queue moves into the ring, then the loop sends: everything reaches the socket.\<close>

definition send_event :: "int \<Rightarrow> (nat \<Rightarrow> write_result) \<Rightarrow> io_event" where
  "send_event fd ws = \<lparr>ev_fd = fd, ev_events = EPOLLOUT, ev_reads = [], ev_writes = ws\<rparr>"

lemma doEvent_send_event:
  "doEvent n (send_event fd ws) s = obind (doSend fd ws s) (\<lambda>s2. Inr (RecvDone 0, s2))"
proof -
  have "EPOLLOUT AND (EPOLLHUP OR EPOLLERR OR EPOLLRDHUP) = 0" "EPOLLOUT AND EPOLLIN = 0" "EPOLLOUT AND EPOLLOUT \<noteq> 0"
    by (simp_all add: EPOLLIN_def EPOLLHUP_def EPOLLERR_def EPOLLRDHUP_def EPOLLOUT_def)
  then show ?thesis by (simp add: doEvent_def send_event_def)
qed

lemma checkWrite_cell_conn:
  "conn_unsent (checkWrite_cell k s) fd = conn_unsent s fd" "cm_wire (checkWrite_cell k s) = cm_wire s"
  by (auto simp: checkWrite_cell_def Let_def conn_unsent_def cell_addrs_def ce_pending_def split: option.splits)

lemma checkWrite_conn: "conn_unsent (checkWrite keys s) fd = conn_unsent s fd \<and> cm_wire (checkWrite keys s) = cm_wire s"
  by (induction keys arbitrary: s) (simp_all add: checkWrite_def checkWrite_cell_conn)

lemma run_pass_sends_all:
  assumes inv: "cm_inv s" "cm_TNotify s \<noteq> None" and "cm_quiet fd s"
    and "length (conn_list s fd) \<le> serverMaxSendTimes" "\<forall>m\<in>set (conn_list s fd). m \<noteq> []"
    and "\<forall>i<length (conn_list s fd). \<exists>room. ws i = WriteOk room \<and> length (conn_list s fd ! i) \<le> room"
  shows "\<exists>s'. run_pass server_callbacks keys (Some [send_event fd ws]) s = Some (Inr (True, s'))
    \<and> cm_wire s' fd = cm_wire s fd @ concat (conn_list s fd) \<and> conn_list s' fd = []"
proof -
  obtain s1 where s1: "handleTask server_callbacks s = Some (Inr s1)" "cm_inv s1" "cm_tasks s1 = []" "cm_quiet fd s1"
    "conn_list s1 fd = conn_list s fd" "cm_wire s1 = cm_wire s"
    using sh.handleTask_stream[OF inv assms(3)] by blast
  let ?s2 = "checkWrite keys s1"
  have s2: "cm_inv ?s2" "cm_tasks ?s2 = []" using checkWrite_ok[OF s1(2), of keys] s1(3) by (simp_all add: cm_tasks_def)
  have un: "conn_unsent ?s2 fd = conn_list s fd" "cm_wire ?s2 = cm_wire s"
    using checkWrite_conn[of keys s1 fd] s1(3,5,6) by (simp_all add: conn_list_def queue_unsent_def unsent_def)
  have "cm_Cell s1 fd \<noteq> None" using s1(4) by (auto simp: cm_quiet_def)
  then obtain c where c: "cm_Cell ?s2 fd = Some c" using sh.kept.R_checkWrite[of s1 keys] by (auto simp: conn_kept_def)
  have all: "wire_send serverMaxSendTimes ws (conn_unsent ?s2 fd) = ([], concat (conn_list s fd))"
    unfolding un(1) by (rule wire_send_all[OF assms(4,6,5)])
  obtain s3 where s3: "doSend fd ws ?s2 = Inr s3" "conn_unsent s3 fd = []"
    "cm_wire s3 = (cm_wire ?s2)(fd := cm_wire ?s2 fd @ concat (conn_list s fd))" "cm_cellTask s3 = cm_cellTask ?s2"
    using doSend_refines[OF s2(1) c, of ws] all by auto
  have "conn_list s3 fd = []" using s3(2,4) s2(2) by (simp add: conn_list_def queue_unsent_def unsent_def cm_tasks_def)
  moreover have "run_pass server_callbacks keys (Some [send_event fd ws]) s = Some (Inr (True, s3))"
    using s1(1) s3(1) by (simp add: run_pass_def doEvent_send_event Let_def)
  ultimately show ?thesis using s3(3) un(2) by (intro exI[of _ s3]) simp
qed

text \<open>
  What is sent arrives at the socket.  If at most \<open>serverMaxSendTimes\<close> messages, none of them
  empty, are on their way to a connection in use, and the kernel takes whatever it is given, then
  one pass of the loop with the connection's \<open>EPOLLOUT\<close> event writes all of them, completely and
  in order, and leaves nothing in the ring or the queue.
\<close>

lemma server_pass_sends_all:
  assumes "cm_reach server_callbacks (cellManager_new epfd (Some hub) cpuN) s" "cm_quiet fd s"
    and "length (conn_list s fd) \<le> serverMaxSendTimes" "\<forall>m\<in>set (conn_list s fd). m \<noteq> []"
    and "\<forall>i<length (conn_list s fd). \<exists>room. ws i = WriteOk room \<and> length (conn_list s fd ! i) \<le> room"
  shows "\<exists>s'. run_pass server_callbacks keys (Some [send_event fd ws]) s = Some (Inr (True, s'))
    \<and> cm_wire s' fd = cm_wire s fd @ concat (conn_list s fd) \<and> conn_list s' fd = []"
  using cm_started_inv[of hub s] assms(1) by (intro run_pass_sends_all[OF _ _ assms(2-)]) blast+

lemma server_pass_sends_all_example:
  "\<exists>s s'. run_pass server_callbacks [5] (Some [send_event 5 (\<lambda>_. WriteOk 10)]) (s :: nat server_notify cellManager) = Some (Inr (True, s'))
     \<and> cm_wire s' 5 = [1, 2, 3] \<and> conn_list s' 5 = []"
proof -
  obtain s where s: "cm_reach server_callbacks (cellManager_new 3 (Some count_hub) 0) s" "cm_quiet 5 s"
    "conn_list s 5 = [[1, 2, 3]]" "cm_wire s 5 = []"
    using cm_demo_send by blast
  have "\<exists>s'. run_pass server_callbacks [5] (Some [send_event 5 (\<lambda>_. WriteOk 10)]) s = Some (Inr (True, s'))
      \<and> cm_wire s' 5 = cm_wire s 5 @ concat (conn_list s 5) \<and> conn_list s' 5 = []"
    by (rule server_pass_sends_all[OF s(1,2)]) (simp_all add: s(3) serverMaxSendTimes_def)
  then show ?thesis unfolding s(3,4) by auto
qed



section \<open>The interest in writing\<close>

lemma checkWrite_cell_other:
  "k \<noteq> fd \<Longrightarrow> cm_Cell (checkWrite_cell k s) fd = cm_Cell s fd"
  "k \<noteq> fd \<Longrightarrow> (\<And>c. cm_Cell s k = Some c \<Longrightarrow> ce_ClientFd c = k) \<Longrightarrow> cm_epoll (checkWrite_cell k s) fd = cm_epoll s fd"
  by (auto simp: checkWrite_cell_def Let_def epoll_mod_def split: option.splits)

lemma checkWrite_other:
  assumes "fd \<notin> set keys" "cm_inv s"
  shows "cm_Cell (checkWrite keys s) fd = cm_Cell s fd \<and> cm_epoll (checkWrite keys s) fd = cm_epoll s fd"
  using assms
proof (induction keys arbitrary: s)
  case Nil
  then show ?case by (simp add: checkWrite_def)
next
  case (Cons k keys)
  have "ce_ClientFd c = k" if "cm_Cell s k = Some c" for c
    using cm_invD(3)[OF Cons.prems(2) that] by (simp add: cell_ok_def)
  then show ?case
    using Cons.IH[of "checkWrite_cell k s"] Cons.prems checkWrite_cell_ok(1)[OF Cons.prems(2), of k]
      checkWrite_cell_other[of k fd s] by (simp add: checkWrite_def)
qed

lemma EPOLLOUT_bit:
  "(e OR EPOLLOUT) AND EPOLLOUT \<noteq> 0" "(e AND NOT EPOLLOUT) AND EPOLLOUT = 0"
  "(e OR EPOLLOUT) AND NOT EPOLLOUT = e AND NOT EPOLLOUT" "e AND NOT EPOLLOUT AND NOT EPOLLOUT = e AND NOT EPOLLOUT"
proof -
  have "(e OR EPOLLOUT) AND EPOLLOUT = EPOLLOUT" by (simp add: bit.conj_disj_distrib2)
  then show "(e OR EPOLLOUT) AND EPOLLOUT \<noteq> 0" by (simp add: EPOLLOUT_def)
  show "(e AND NOT EPOLLOUT) AND EPOLLOUT = 0" by (simp add: and.assoc)
  show "(e OR EPOLLOUT) AND NOT EPOLLOUT = e AND NOT EPOLLOUT" by (simp add: bit.conj_disj_distrib2)
  show "e AND NOT EPOLLOUT AND NOT EPOLLOUT = e AND NOT EPOLLOUT" by (simp add: and.assoc)
qed

text \<open>
  C18: the kernel is asked for \<open>EPOLLOUT\<close> exactly while there is something to send.  After
  \<open>checkWrite\<close> over the connections in any order, the interest of a registered connection has the
  bit if and only if its ring is not empty, the other bits are as before, and what the kernel
  holds is what the connection remembers.
\<close>

theorem checkWrite_interest:
  assumes "cm_inv s" "cm_Cell s fd = Some c" "cm_epoll s fd = Some (ce_Events c)" "distinct keys" "fd \<in> set keys"
  shows "\<exists>c'. cm_Cell (checkWrite keys s) fd = Some c' \<and> cm_epoll (checkWrite keys s) fd = Some (ce_Events c')
    \<and> (ce_Events c' AND EPOLLOUT \<noteq> 0 \<longleftrightarrow> ce_pending c \<noteq> []) \<and> ce_Events c' AND NOT EPOLLOUT = ce_Events c AND NOT EPOLLOUT
    \<and> ce_pending c' = ce_pending c"
proof -
  obtain k1 k2 where keys: "keys = k1 @ fd # k2" "fd \<notin> set k1" "fd \<notin> set k2"
    using assms(4,5) by (metis distinct.simps(2) distinct_append in_set_conv_decomp not_distinct_conv_prefix
        disjoint_insert(1) list.simps(15) in_set_conv_decomp_first)
  let ?s1 = "checkWrite k1 s"
  have s1: "cm_inv ?s1" "cm_Cell ?s1 fd = Some c" "cm_epoll ?s1 fd = Some (ce_Events c)"
    using checkWrite_ok[OF assms(1), of k1] checkWrite_other[OF keys(2) assms(1)] assms(2,3) by simp_all
  let ?s2 = "checkWrite_cell fd ?s1"
  have split: "checkWrite keys s = checkWrite k2 ?s2" by (simp add: keys(1) checkWrite_def)
  have live: "ce_ClientFd c = fd" "ce_inv c" using cell_addrs_live[OF s1(1,2)] by simp_all
  have "\<exists>c'. cm_Cell ?s2 fd = Some c' \<and> cm_epoll ?s2 fd = Some (ce_Events c')
    \<and> (ce_Events c' AND EPOLLOUT \<noteq> 0 \<longleftrightarrow> ce_pending c \<noteq> []) \<and> ce_Events c' AND NOT EPOLLOUT = ce_Events c AND NOT EPOLLOUT
    \<and> ce_pending c' = ce_pending c"
    using s1(2,3) live(1) ce_pending_Nil[OF live(2)] EPOLLOUT_bit[of "ce_Events c"]
    by (auto simp: checkWrite_cell_def Let_def epoll_mod_def ce_pending_def)
  then show ?thesis
    unfolding split using checkWrite_other[OF keys(3) checkWrite_cell_ok(1)[OF s1(1)], of fd] by simp
qed

theorem checkWrite_interest_witness:
  "\<exists>s c'. cm_Cell (checkWrite [5] (s :: nat server_notify cellManager)) 5 = Some c' \<and> cm_epoll (checkWrite [5] s) 5 = Some (ce_Events c')
    \<and> ce_pending c' = []"
proof -
  let ?c = "clientCell_new 5 (\<lambda>_. 0) (\<lambda>_. None) 0 ''peer'' 80"
  obtain s where s: "cm_reach server_callbacks (cellManager_new 3 (Some count_hub) 0) s" "cm_Cell s = [5 \<mapsto> ?c]"
    using cm_demo_accept by blast
  let ?s = "s\<lparr>cm_epoll := [5 \<mapsto> 0]\<rparr>"
  have inv: "cm_inv ?s" using cm_started_inv(1)[of count_hub s] s(1) by auto
  have c: "cm_Cell ?s 5 = Some ?c" "cm_epoll ?s 5 = Some (ce_Events ?c)" using s(2) by (simp_all add: clientCell_new_def)
  have keys: "distinct [5 :: int]" "5 \<in> set [5 :: int]" by simp_all
  from checkWrite_interest[OF inv c keys] ce_inv_new(2) show ?thesis by metis
qed

end
