(* ===== verification/Proc_Thread.thy ===== *)
theory Proc_Thread
  imports Prelude
begin

text \<open>
  The threads (base/src/thread.h, thread.cpp).  \<open>process_thread\<close> starts a thread that sets
  \<open>is_running_\<close> itself before it enters \<open>run\<close>, and stops it by clearing the flag and joining; both
  sides are steps of a transition system, so that their interleavings are the runs.  \<open>run\<close> is a
  loop that ends when it sees the flag down, as that of \<open>cellManager\<close> and \<open>tcpServer\<close> is.  The
  Windows branches are not modelled, and priorities do nothing on Linux.
\<close>

section \<open>The class thread\<close>

text \<open>
  The handle, and whether the thread behind it has been detached.  Joining a detached thread is
  undefined.
\<close>

record cthread =
  th_thread :: "nat option"
  th_detached :: bool

definition thread_new :: cthread where
  "thread_new = \<lparr>th_thread = None, th_detached = False\<rparr>"

definition thread_create :: "nat \<Rightarrow> cthread \<Rightarrow> cthread" where
  "thread_create t th = th\<lparr>th_thread := Some t, th_detached := False\<rparr>"

definition thread_join :: "cthread \<Rightarrow> cthread outcome" where
  "thread_join th =
    (if th_thread th \<noteq> None
     then obind (oassert JoinDetached (\<not> th_detached th)) (\<lambda>_. Inr (th\<lparr>th_thread := None\<rparr>))
     else Inr th)"

text \<open>\<open>pthread_detach\<close> on a null handle is undefined too.\<close>

definition thread_detach :: "cthread \<Rightarrow> cthread outcome" where
  "thread_detach th =
    obind (oassert NullDeref (th_thread th \<noteq> None)) (\<lambda>_. Inr (th\<lparr>th_detached := True\<rparr>))"

definition thread_delete :: "cthread \<Rightarrow> cthread outcome" where
  "thread_delete th = thread_join th"

section \<open>The class process_thread\<close>

text \<open>
  Where a thread is: created but not yet in \<open>_thread_proc\<close>, in the loop of \<open>run\<close>, or finished.
  Where the calling thread is in \<open>stop\<close>: outside, asleep for 10 milliseconds, before the test of
  the flag, or in \<open>pthread_join\<close>.
\<close>

datatype pt_pc = TSpawned | TLoop | TExited

datatype pt_caller = StopNone | StopSleep | StopCheck | StopJoin "nat option"

record process_thread =
  pt_thread :: "nat option"
  pt_is_running :: bool
  pt_pcs :: "pt_pc list" \<comment> \<open>the threads created so far, by number\<close>
  pt_caller :: pt_caller

definition process_thread_new :: process_thread where
  "process_thread_new = \<lparr>pt_thread = None, pt_is_running = False, pt_pcs = [], pt_caller = StopNone\<rparr>"

definition process_thread_start :: "bool \<Rightarrow> process_thread \<Rightarrow> process_thread" where
  "process_thread_start created p =
    (if created then p\<lparr>pt_thread := Some (length (pt_pcs p)), pt_pcs := pt_pcs p @ [TSpawned]\<rparr> else p)"

text \<open>\<open>stop\<close>, one step at a time; \<open>None\<close> is a caller that cannot go on.\<close>

definition process_thread_stop :: "process_thread \<Rightarrow> process_thread" where
  "process_thread_stop p =
    p\<lparr>pt_caller := if \<not> pt_is_running p \<and> pt_thread p \<noteq> None then StopSleep else StopCheck\<rparr>"

fun process_thread_stop_step :: "process_thread \<Rightarrow> process_thread option" where
  "process_thread_stop_step p =
    (case pt_caller p of
       StopNone \<Rightarrow> None
     | StopSleep \<Rightarrow> Some (p\<lparr>pt_caller := StopCheck\<rparr>)
     | StopCheck \<Rightarrow>
         if pt_is_running p then Some (p\<lparr>pt_is_running := False, pt_caller := StopJoin (pt_thread p)\<rparr>)
         else Some (p\<lparr>pt_caller := StopNone\<rparr>)
     | StopJoin None \<Rightarrow> Some (p\<lparr>pt_thread := None, pt_caller := StopNone\<rparr>)
     | StopJoin (Some t) \<Rightarrow>
         if t < length (pt_pcs p) \<and> pt_pcs p ! t = TExited
         then Some (p\<lparr>pt_thread := None, pt_caller := StopNone\<rparr>) else None)"

text \<open>\<open>_thread_proc\<close>: set the flag, then the loop of \<open>run\<close>; each test of the flag is a step.\<close>

definition thread_proc_step :: "nat \<Rightarrow> process_thread \<Rightarrow> process_thread option" where
  "thread_proc_step t p =
    (if length (pt_pcs p) \<le> t then None
     else case pt_pcs p ! t of
       TSpawned \<Rightarrow> Some (p\<lparr>pt_is_running := True, pt_pcs := (pt_pcs p)[t := TLoop]\<rparr>)
     | TLoop \<Rightarrow> if pt_is_running p then Some p else Some (p\<lparr>pt_pcs := (pt_pcs p)[t := TExited]\<rparr>)
     | TExited \<Rightarrow> None)"

text \<open>The calls and steps, and their runs.\<close>

datatype pt_action = AStart bool | AStop | ACaller | AThread nat

fun pt_act :: "pt_action \<Rightarrow> process_thread \<Rightarrow> process_thread option" where
  "pt_act (AStart created) p = (if pt_caller p = StopNone then Some (process_thread_start created p) else None)"
| "pt_act AStop p = (if pt_caller p = StopNone then Some (process_thread_stop p) else None)"
| "pt_act ACaller p = process_thread_stop_step p"
| "pt_act (AThread t) p = thread_proc_step t p"

fun pt_run :: "pt_action list \<Rightarrow> process_thread \<Rightarrow> process_thread option" where
  "pt_run [] p = Some p"
| "pt_run (a # as) p = (case pt_act a p of None \<Rightarrow> None | Some p' \<Rightarrow> pt_run as p')"

section \<open>Stopping\<close>

text \<open>What holds between one \<open>start\<close> and whatever stops follow it.\<close>

fun pt_ok :: "pt_pc \<Rightarrow> bool \<Rightarrow> nat option \<Rightarrow> pt_caller \<Rightarrow> bool" where
  "pt_ok pc running h (StopJoin t) \<longleftrightarrow> t = Some 0 \<and> h = Some 0 \<and> \<not> running \<and> pc \<noteq> TSpawned"
| "pt_ok TSpawned running h c \<longleftrightarrow> \<not> running \<and> h = Some 0"
| "pt_ok TLoop running h c \<longleftrightarrow> running \<and> h = Some 0"
| "pt_ok TExited running h c \<longleftrightarrow> \<not> running \<and> h = None"

definition pt_one :: "process_thread \<Rightarrow> bool" where
  "pt_one p \<longleftrightarrow> (\<exists>pc. pt_pcs p = [pc] \<and> pt_ok pc (pt_is_running p) (pt_thread p) (pt_caller p))"

lemma pt_one_start: "pt_one (process_thread_start True process_thread_new)"
  by (simp add: pt_one_def process_thread_start_def process_thread_new_def)

lemma pt_one_act:
  assumes "pt_one p" "pt_act a p = Some p'" "\<not> (\<exists>b. a = AStart b)"
  shows "pt_one p'"
proof -
  obtain pc where pc: "pt_pcs p = [pc]" "pt_ok pc (pt_is_running p) (pt_thread p) (pt_caller p)"
    using assms(1) unfolding pt_one_def by blast
  show ?thesis
  proof (cases a)
    case (AStart b)
    then show ?thesis using assms(3) by blast
  next
    case AStop
    then have "pt_caller p = StopNone" "p' = process_thread_stop p" using assms(2) by (auto split: if_splits)
    then show ?thesis using pc by (cases pc) (simp_all add: pt_one_def process_thread_stop_def)
  next
    case ACaller
    then show ?thesis using assms(2) pc
      by (cases pc; cases "pt_caller p") (auto simp: pt_one_def split: if_splits option.splits)
  next
    case (AThread t)
    then have "t = 0" using assms(2) pc(1) by (auto simp: thread_proc_step_def split: if_splits)
    then show ?thesis using assms(2) pc AThread
      by (cases pc; cases "pt_caller p") (auto simp: pt_one_def thread_proc_step_def split: if_splits)
  qed
qed

lemma pt_one_run:
  "pt_one p \<Longrightarrow> pt_run as p = Some p' \<Longrightarrow> \<forall>a\<in>set as. \<not> (\<exists>b. a = AStart b) \<Longrightarrow> pt_one p'"
proof (induction "as" arbitrary: p)
  case Nil
  then show ?case by simp
next
  case (Cons a "as")
  obtain p1 where "pt_act a p = Some p1" "pt_run as p1 = Some p'" using Cons.prems(2) by (auto split: option.splits)
  then show ?case using Cons.IH[OF pt_one_act[OF Cons.prems(1)]] Cons.prems(3) by auto
qed

text \<open>
  C28: \<open>stop\<close> waits for the thread and is not confused by the interleaving.  After one \<open>start\<close> and
  any interleaving of stops with the steps of the thread: once the handle is cleared the thread
  has left \<open>run\<close> and the flag is down, and a \<open>stop\<close> that has reached \<open>pthread_join\<close> returns
  after at most one more step of the thread.
\<close>

theorem process_thread_stop_joins:
  assumes "pt_run as (process_thread_start True process_thread_new) = Some p" "\<forall>a\<in>set as. \<not> (\<exists>b. a = AStart b)"
  shows "(pt_thread p = None \<longrightarrow> pt_pcs p = [TExited] \<and> \<not> pt_is_running p)
    \<and> (\<forall>t. pt_caller p = StopJoin t \<longrightarrow> (\<exists>p'. (pt_run [ACaller] p = Some p' \<or> pt_run [AThread 0, ACaller] p = Some p')
        \<and> pt_caller p' = StopNone \<and> pt_thread p' = None \<and> pt_pcs p' = [TExited]))"
proof -
  obtain pc where pc: "pt_pcs p = [pc]" "pt_ok pc (pt_is_running p) (pt_thread p) (pt_caller p)"
    using pt_one_run[OF pt_one_start assms] unfolding pt_one_def by blast
  then show ?thesis
    by (cases pc; cases "pt_caller p") (auto simp: thread_proc_step_def)
qed

theorem process_thread_stop_joins_witness:
  "\<exists>p. pt_run [AThread 0, AStop, ACaller, AThread 0, ACaller] (process_thread_start True process_thread_new) = Some p
     \<and> pt_thread p = None \<and> pt_pcs p = [TExited]"
proof -
  let ?as = "[AThread 0, AStop, ACaller, AThread 0, ACaller]"
  let ?p = "\<lparr>pt_thread = None, pt_is_running = False, pt_pcs = [TExited], pt_caller = StopNone\<rparr>"
  have "pt_run ?as (process_thread_start True process_thread_new) = Some ?p"
    by (simp add: process_thread_start_def process_thread_new_def process_thread_stop_def thread_proc_step_def)
  moreover from process_thread_stop_joins[OF this] have "pt_pcs ?p = [TExited]" by simp
  ultimately show ?thesis by (intro exI[of _ ?p]) simp
qed

text \<open>
  A \<open>stop\<close> that comes before the new thread has raised the flag is lost, the pause of 10
  milliseconds included: it returns, and then the thread raises the flag and stays in \<open>run\<close> for
  any number of its steps.
\<close>

lemma process_thread_stop_lost:
  "\<exists>p. pt_run [AStart True, AStop, ACaller, ACaller] process_thread_new = Some p \<and> pt_caller p = StopNone
    \<and> (\<forall>k. \<exists>p'. pt_run (replicate (Suc k) (AThread 0)) p = Some p' \<and> pt_pcs p' = [TLoop] \<and> pt_is_running p')"
proof -
  let ?p = "\<lparr>pt_thread = Some 0, pt_is_running = False, pt_pcs = [TSpawned], pt_caller = StopNone\<rparr>"
  let ?q = "\<lparr>pt_thread = Some 0, pt_is_running = True, pt_pcs = [TLoop], pt_caller = StopNone\<rparr>"
  have "pt_run [AStart True, AStop, ACaller, ACaller] process_thread_new = Some ?p"
    by (simp add: process_thread_start_def process_thread_new_def process_thread_stop_def)
  moreover have loop: "pt_run (replicate k (AThread 0)) ?q = Some ?q" for k
    by (induction k) (simp_all add: thread_proc_step_def)
  have "pt_run (replicate (Suc k) (AThread 0)) ?p = Some ?q" for k
    using loop[of k] by (simp add: thread_proc_step_def)
  ultimately show ?thesis by (intro exI[of _ ?p]) auto
qed

section \<open>A whole call of stop\<close>

text \<open>
  \<open>stop\<close> from call to return: \<open>raised\<close> says whether a thread just created raises the flag during
  the pause.  The lemma below exhibits the run of steps it abbreviates.
\<close>

definition process_thread_stop_call :: "bool \<Rightarrow> process_thread \<Rightarrow> process_thread" where
  "process_thread_stop_call raised p =
    (let p1 = (case pt_thread p of
                 None \<Rightarrow> p
               | Some t \<Rightarrow> if \<not> pt_is_running p \<and> raised
                     then (case thread_proc_step t p of None \<Rightarrow> p | Some p' \<Rightarrow> p') else p)
     in if pt_is_running p1
        then p1\<lparr>pt_is_running := False, pt_thread := None,
                pt_pcs := (case pt_thread p1 of None \<Rightarrow> pt_pcs p1 | Some t \<Rightarrow> (pt_pcs p1)[t := TExited])\<rparr>
        else p1)"

lemma process_thread_stop_call_run:
  assumes "pt_one p" "pt_caller p = StopNone"
  shows "\<exists>as. (\<forall>a\<in>set as. a = ACaller \<or> a = AThread 0) \<and> pt_run (AStop # as) p = Some (process_thread_stop_call raised p)"
proof -
  obtain pc where pc: "pt_pcs p = [pc]" "pt_ok pc (pt_is_running p) (pt_thread p) StopNone"
    using assms unfolding pt_one_def by auto
  note defs = process_thread_stop_def process_thread_stop_call_def thread_proc_step_def
  show ?thesis
  proof (cases pc)
    case TSpawned
    let ?as = "if raised then [AThread 0, ACaller, ACaller, AThread 0, ACaller] else [ACaller, ACaller]"
    show ?thesis by (rule exI[of _ ?as]) (use pc assms TSpawned in \<open>auto simp: defs\<close>)
  next
    case TLoop
    show ?thesis by (rule exI[of _ "[ACaller, AThread 0, ACaller]"]) (use pc assms TLoop in \<open>auto simp: defs\<close>)
  next
    case TExited
    show ?thesis by (rule exI[of _ "[ACaller]"]) (use pc assms TExited in \<open>auto simp: defs\<close>)
  qed
qed

section \<open>The thread of an event loop\<close>

text \<open>
  \<open>cellManager::start\<close> and \<open>stop\<close>: guarded by the flag; \<open>stop\<close> also closes the epoll descriptor (the
  second component says whether it is open).  With the flag down \<open>stop\<close> does not even pause.
\<close>

definition cellManager_start :: "process_thread \<times> bool \<Rightarrow> process_thread \<times> bool" where
  "cellManager_start = (\<lambda>(p, epoll_open). (if \<not> pt_is_running p then process_thread_start True p else p, epoll_open))"

definition cellManager_stop :: "process_thread \<times> bool \<Rightarrow> process_thread \<times> bool" where
  "cellManager_stop = (\<lambda>(p, epoll_open). (if pt_is_running p then process_thread_stop p else p, False))"

text \<open>
  The guards by the flag do not exclude each other's windows.  Two calls of \<open>start\<close> before the
  first thread has raised the flag give one object two threads in its loop; and a \<open>stop\<close> in this
  window does nothing but close the epoll descriptor under the thread that then enters its loop.
\<close>

lemma cellManager_start_stop_windows:
  "(\<exists>p. pt_run [AThread 0, AThread 1] (fst (cellManager_start (cellManager_start (process_thread_new, True)))) = Some p
      \<and> pt_pcs p = [TLoop, TLoop])
   \<and> (\<exists>p. cellManager_stop (cellManager_start (process_thread_new, True)) = (p, False) \<and> pt_caller p = StopNone
      \<and> (\<exists>p'. pt_run [AThread 0] p = Some p' \<and> pt_pcs p' = [TLoop] \<and> pt_is_running p'))"
  by (simp add: cellManager_start_def cellManager_stop_def process_thread_start_def process_thread_new_def thread_proc_step_def)

text \<open>
  A \<open>thread\<close> object joins its thread exactly once, when it is destroyed or before; but on Linux
  \<open>detach\<close> keeps the handle, and the destructor then joins a detached thread.
\<close>

lemma thread_join_once:
  "(\<exists>th'. thread_join (thread_create t th) = Inr th' \<and> th_thread th' = None \<and> thread_delete th' = Inr th')
   \<and> (\<exists>th'. thread_detach (thread_create t th) = Inr th' \<and> thread_delete th' = Inl JoinDetached)
   \<and> thread_delete thread_new = Inr thread_new"
  by (simp add: thread_join_def thread_create_def thread_delete_def thread_detach_def thread_new_def oassert_def)

end
