(* ===== verification/Tcp_Server.thy ===== *)
theory Tcp_Server
  imports Cell_Manager_Stream Proc_Thread
begin

text \<open>
  \<open>tcpServer\<close> (base/src/tcp_server/server.h, .cpp) and its wrapper \<open>tcp_server\<close>
  (common/src/tcp_server.h, .cpp): a listening thread and a fixed vector of event loops, each a
  \<open>cellManager\<close> with its thread.  All loops call the one callback object, so its state is a
  component of the server and is lent to a loop for each of its operations.  What the kernel
  answers to a call is an argument; the descriptors the server itself holds open, and those it
  has closed, are logged.
\<close>

section \<open>State\<close>

record 'h cell_loop =
  lp_cm :: "'h cellManager"
  lp_thread :: process_thread
  lp_open :: bool \<comment> \<open>its epoll descriptor is open\<close>

text \<open>An element of \<open>m_CellManager\<close>; of a deleted object we keep what the destructor left.\<close>

datatype 'h loop_ptr = Live "'h cell_loop" | Dangling "'h cellManager"

record 'h tcpServer =
  ts_ListenFd :: int
  ts_SocketFd :: int
  ts_Port :: "32 word"
  ts_BindCpu :: int
  ts_CellManager :: "'h loop_ptr list"
  ts_TNotify :: 'h
  ts_thread :: process_thread
  ts_bound :: "16 word option" \<comment> \<open>the port the socket is bound to\<close>
  ts_epoll :: "int \<Rightarrow> 32 word option" \<comment> \<open>the interest list behind \<open>m_ListenFd\<close>\<close>
  ts_open :: "int list"
  ts_closed :: "int list"

definition ts_INVALID_SOCKET :: int where "ts_INVALID_SOCKET = - 1"

definition cell_loop_new :: "int \<Rightarrow> 'h \<Rightarrow> int \<Rightarrow> 'h cell_loop" where
  "cell_loop_new epfd tN cpuN =
    \<lparr>lp_cm = cellManager_new epfd tN cpuN, lp_thread = process_thread_new, lp_open = True\<rparr>"

text \<open>\<open>cpuN\<close> is the answer of \<open>sysconf\<close>, \<open>epfds\<close> those of \<open>epoll_create1\<close> to the loops.\<close>

definition tcpServer_new :: "'h \<Rightarrow> int \<Rightarrow> (nat \<Rightarrow> int) \<Rightarrow> 'h tcpServer outcome" where
  "tcpServer_new tN cpuN epfds =
    obind (oassert DivByZero (cpuN \<noteq> 0)) (\<lambda>_.
      let loopnum = cpuN * 2 + 2 in
      Inr \<lparr>ts_ListenFd = 0, ts_SocketFd = ts_INVALID_SOCKET, ts_Port = 0, ts_BindCpu = 0 mod cpuN,
           ts_CellManager = map (\<lambda>i. Live (cell_loop_new (epfds i) tN (int (i + 1) mod cpuN))) [0..<nat loopnum],
           ts_TNotify = tN, ts_thread = process_thread_new, ts_bound = None, ts_epoll = (\<lambda>_. None),
           ts_open = [], ts_closed = []\<rparr>)"

section \<open>Listening\<close>

text \<open>\<open>Listen\<close> returns a code, or the process exits with one.\<close>

datatype listen_result = ListenRet int | ListenExit int

record listen_answers =
  la_socket :: int
  la_bind :: int
  la_listen :: int
  la_epoll :: int

definition ts_opens :: "int \<Rightarrow> 'h tcpServer \<Rightarrow> 'h tcpServer" where
  "ts_opens fd srv = (if 0 \<le> fd then srv\<lparr>ts_open := fd # ts_open srv\<rparr> else srv)"

definition ts_closes :: "int \<Rightarrow> 'h tcpServer \<Rightarrow> 'h tcpServer" where
  "ts_closes fd srv = srv\<lparr>ts_open := remove1 fd (ts_open srv), ts_closed := fd # ts_closed srv\<rparr>"

text \<open>
  \<open>htons\<close> keeps the low 16 bits of the port.  The results of \<open>setsockopt\<close>, \<open>fcntl\<close> and
  \<open>epoll_ctl\<close> are not looked at; a new epoll descriptor has an empty interest list.
\<close>

definition tcpServer_Listen :: "32 word \<Rightarrow> listen_answers \<Rightarrow> 'h tcpServer \<Rightarrow> listen_result \<times> 'h tcpServer" where
  "tcpServer_Listen port a srv =
    (if port \<le> 0 then (ListenRet (error_code NAUT_AT_E_TCP_SERVER_PORT), srv)
     else
       let s1 = (if ts_SocketFd srv \<noteq> ts_INVALID_SOCKET then ts_closes (ts_SocketFd srv) srv else srv);
           s2 = ts_opens (la_socket a) (s1\<lparr>ts_Port := port, ts_SocketFd := la_socket a\<rparr>)
       in if ts_SocketFd s2 \<le> 0 then (ListenExit (error_code NAUT_AT_E_TCP_SERVER_SOCKET), s2)
          else if la_bind a \<noteq> 0 then (ListenExit (error_code NAUT_AT_E_TCP_SERVER_BIND), ts_closes (ts_SocketFd s2) s2)
          else let s3 = s2\<lparr>ts_bound := Some (ucast port)\<rparr>
            in if la_listen a \<noteq> 0 then (ListenExit (error_code NAUT_AT_E_TCP_SERVER_LISTEN), ts_closes (ts_SocketFd s3) s3)
            else let s4 = ts_opens (la_epoll a) (s3\<lparr>ts_ListenFd := la_epoll a, ts_epoll := (\<lambda>_. None)\<rparr>)
              in if ts_ListenFd s4 \<le> 0
                 then (ListenExit (error_code NAUT_AT_E_TCP_SERVER_EPOLL_CREATE), ts_closes (ts_SocketFd s4) s4)
                 else (ListenRet (error_code NAUT_AT_S_OK),
                       s4\<lparr>ts_epoll := epoll_add (ts_SocketFd s4) (EPOLLIN OR EPOLLPRI) (ts_epoll s4)\<rparr>))"

section \<open>Calls into an event loop\<close>

text \<open>
  \<open>m_CellManager[clientid % m_CellManager.size()]\<close>: the \<open>int\<close> is converted to \<open>size_t\<close>, and the
  remainder by an empty vector's size is undefined.
\<close>

definition CurrCellManager :: "int \<Rightarrow> 'h tcpServer \<Rightarrow> nat outcome" where
  "CurrCellManager clientid srv =
    obind (oassert DivByZero (ts_CellManager srv \<noteq> [])) (\<lambda>_.
      Inr (unat (size_of_int clientid) mod length (ts_CellManager srv)))"

definition on_loop :: "nat \<Rightarrow> ('h cellManager \<Rightarrow> ('a \<times> 'h cellManager) outcome) \<Rightarrow> 'h tcpServer \<Rightarrow>
    ('a \<times> 'h tcpServer) outcome" where
  "on_loop i f srv =
    (if length (ts_CellManager srv) \<le> i then Inl OutOfBounds
     else case ts_CellManager srv ! i of
       Dangling _ \<Rightarrow> Inl UseAfterFree
     | Live l \<Rightarrow> obind (f ((lp_cm l)\<lparr>cm_TNotify := ts_TNotify srv\<rparr>)) (\<lambda>(r, cm).
         Inr (r, srv\<lparr>ts_CellManager := (ts_CellManager srv)[i := Live (l\<lparr>lp_cm := cm\<rparr>)],
                     ts_TNotify := cm_TNotify cm\<rparr>)))"

text \<open>What \<open>accept4\<close> answers, and the memory the new \<open>clientCell\<close> gets.\<close>

record accepted =
  ac_fd :: int
  ac_ip :: string
  ac_port :: "16 word"
  ac_RecvBuf :: "byte arr"
  ac_SendBuf :: "nat option arr"
  ac_Events :: "32 word"

definition accepted_cell :: "accepted \<Rightarrow> clientCell" where
  "accepted_cell a = clientCell_new (ac_fd a) (ac_RecvBuf a) (ac_SendBuf a) (ac_Events a) (ac_ip a) (ac_port a)"

definition HandleAccept :: "accepted \<Rightarrow> 'h tcpServer \<Rightarrow> 'h tcpServer outcome" where
  "HandleAccept a srv =
    (if ac_fd a \<le> 0 then Inr srv
     else let cell = (accepted_cell a)\<lparr>ce_ClientFd := ac_fd a\<rparr> in
       obind (CurrCellManager (ce_ClientFd cell) srv) (\<lambda>i.
       obind (on_loop i (\<lambda>cm. obind (addTask cell cm) (\<lambda>cm'. Inr ((), cm'))) srv) (\<lambda>(_, srv').
         Inr srv')))"

text \<open>
  \<open>SendData\<close> has no \<open>return\<close>: what the caller reads as its value is \<open>junk\<close>, whatever
  \<open>sendTask\<close> returned.  \<open>len\<close> is a \<open>size_t\<close> and \<open>sendTask\<close> takes an \<open>int\<close>.
\<close>

definition tcpServer_SendData :: "64 word \<Rightarrow> int \<Rightarrow> byte list \<Rightarrow> 64 word \<Rightarrow> 'h tcpServer \<Rightarrow> (64 word \<times> 'h tcpServer) outcome" where
  "tcpServer_SendData junk clientid buf len srv =
    obind (CurrCellManager clientid srv) (\<lambda>i.
    obind (on_loop i (sendTask clientid buf (int_of_size len)) srv) (\<lambda>(ret, srv').
      Inr (junk, srv')))"

section \<open>The listening thread\<close>

datatype listen_wait = WaitErr | WaitTimeout | WaitEvent int

text \<open>One pass of the loop of \<open>run\<close>.\<close>

definition tcpServer_run_pass :: "listen_wait \<Rightarrow> accepted \<Rightarrow> 'h tcpServer \<Rightarrow> 'h tcpServer outcome" where
  "tcpServer_run_pass wait a srv =
    (case wait of
       WaitErr \<Rightarrow> Inr srv
     | WaitTimeout \<Rightarrow> Inr srv
     | WaitEvent fd \<Rightarrow> if fd = ts_SocketFd srv then HandleAccept a srv else Inr srv)"

text \<open>One pass of the loop of thread \<open>i\<close>.\<close>

definition tcpServer_loop_pass :: "'h tNotify \<Rightarrow> nat \<Rightarrow> int list \<Rightarrow> io_event list option \<Rightarrow> 'h tcpServer \<Rightarrow>
    (bool \<times> 'h tcpServer) outcome" where
  "tcpServer_loop_pass n i keys wait =
    on_loop i (\<lambda>cm. case run_pass n keys wait cm of None \<Rightarrow> Inl Diverges | Some r \<Rightarrow> r)"

section \<open>Start and stop\<close>

fun each_loop :: "('h cell_loop \<Rightarrow> 'h loop_ptr outcome) \<Rightarrow> 'h loop_ptr list \<Rightarrow> 'h loop_ptr list outcome" where
  "each_loop f [] = Inr []"
| "each_loop f (Dangling _ # ls) = Inl UseAfterFree"
| "each_loop f (Live l # ls) = obind (f l) (\<lambda>p. obind (each_loop f ls) (\<lambda>ps. Inr (p # ps)))"

definition cell_loop_start :: "'h cell_loop \<Rightarrow> 'h loop_ptr outcome" where
  "cell_loop_start l =
    (let (p, op) = cellManager_start (lp_thread l, lp_open l) in Inr (Live (l\<lparr>lp_thread := p, lp_open := op\<rparr>)))"

definition tcpServer_start :: "'h tcpServer \<Rightarrow> 'h tcpServer outcome" where
  "tcpServer_start srv =
    obind (each_loop cell_loop_start (ts_CellManager srv)) (\<lambda>ls.
      Inr (srv\<lparr>ts_CellManager := ls, ts_thread := process_thread_start True (ts_thread srv)\<rparr>))"

text \<open>
  \<open>delete\<close> of a loop: its \<open>stop\<close>, then the rest of the destructor.  A thread that has not left its
  loop goes on with a deleted object.
\<close>

definition cell_loop_delete :: "('h cellManager \<Rightarrow> int list) \<Rightarrow> 'h cell_loop \<Rightarrow> 'h loop_ptr outcome" where
  "cell_loop_delete keys l =
    (let p = (if pt_is_running (lp_thread l) then process_thread_stop_call False (lp_thread l) else lp_thread l)
     in obind (oassert UseAfterFree (\<forall>pc\<in>set (pt_pcs p). pc = TExited)) (\<lambda>_.
        case cellManager_delete (keys (lp_cm l)) (lp_cm l) of
          None \<Rightarrow> Inl Diverges
        | Some r \<Rightarrow> obind r (\<lambda>cm. Inr (Dangling cm))))"

definition tcpServer_stop :: "bool \<Rightarrow> ('h cellManager \<Rightarrow> int list) \<Rightarrow> 'h tcpServer \<Rightarrow> 'h tcpServer outcome" where
  "tcpServer_stop raised keys srv =
    (let s1 = srv\<lparr>ts_thread := process_thread_stop_call raised (ts_thread srv)\<rparr> in
     obind (each_loop (cell_loop_delete keys) (ts_CellManager s1)) (\<lambda>ls.
       let s2 = s1\<lparr>ts_CellManager := ls\<rparr>;
           s3 = ts_closes (ts_SocketFd s2) (ts_closes (ts_ListenFd s2) s2)
       in Inr (s3\<lparr>ts_SocketFd := ts_INVALID_SOCKET, ts_ListenFd := - 1\<rparr>)))"

definition tcpServer_delete :: "bool \<Rightarrow> ('h cellManager \<Rightarrow> int list) \<Rightarrow> 'h tcpServer \<Rightarrow> 'h tcpServer outcome" where
  "tcpServer_delete raised keys srv =
    (if pt_is_running (ts_thread srv) then tcpServer_stop raised keys srv else Inr srv)"

section \<open>The wrapper\<close>

text \<open>
  \<open>tcp_server\<close>: the constructor leaves the port unassigned.  The callback object is a member, and
  the pointer to the hub it is given is the user's; the hub, whose state the record of the hub
  carries, is in use by the server while one runs.
\<close>

record 'c tcp_server =
  tw_mdpt :: "'c tcp_server_hub option"
  tw_tcpserver :: "'c server_notify tcpServer option"
  tw_port :: "int option"
  tw_notify :: "'c server_notify"

definition tcp_server_new :: "'c tcp_server" where
  "tcp_server_new = \<lparr>tw_mdpt = None, tw_tcpserver = None, tw_port = None, tw_notify = server_notify_new\<rparr>"

definition tcp_server_init :: "int \<Rightarrow> 'c tcp_server_hub \<Rightarrow> 'c tcp_server \<Rightarrow> 'c tcp_server" where
  "tcp_server_init port mdpt w = w\<lparr>tw_mdpt := Some mdpt, tw_port := Some port\<rparr>"

text \<open>The first component of the result is the exit status, if \<open>Listen\<close> ends the process.\<close>

definition tcp_server_start :: "int \<Rightarrow> (nat \<Rightarrow> int) \<Rightarrow> listen_answers \<Rightarrow> 'c tcp_server \<Rightarrow> (int option \<times> 'c tcp_server) outcome" where
  "tcp_server_start cpuN epfds a w =
    (let n = (case tw_mdpt w of None \<Rightarrow> None | Some hub \<Rightarrow> server_notify_init hub (tw_notify w)) in
     obind (tcpServer_new n cpuN epfds) (\<lambda>s0.
     case tw_port w of
       None \<Rightarrow> Inl Uninitialised
     | Some port \<Rightarrow>
         (case tcpServer_Listen (word_of_int port) a s0 of
            (ListenExit status, s1) \<Rightarrow> Inr (Some status, w\<lparr>tw_notify := n, tw_tcpserver := Some s1\<rparr>)
          | (ListenRet _, s1) \<Rightarrow> obind (tcpServer_start s1) (\<lambda>s2.
              Inr (None, w\<lparr>tw_notify := n, tw_tcpserver := Some s2\<rparr>)))))"

definition tcp_server_stop :: "bool \<Rightarrow> ('c server_notify cellManager \<Rightarrow> int list) \<Rightarrow> 'c tcp_server \<Rightarrow> 'c tcp_server outcome" where
  "tcp_server_stop raised keys w =
    (case tw_tcpserver w of
       None \<Rightarrow> Inr w
     | Some s \<Rightarrow>
         obind (tcpServer_stop raised keys s) (\<lambda>s1.
         obind (tcpServer_delete raised keys s1) (\<lambda>s2.
         obind (oassert UseAfterFree (\<forall>pc\<in>set (pt_pcs (ts_thread s2)). pc = TExited)) (\<lambda>_.
           Inr (w\<lparr>tw_mdpt := ts_TNotify s2, tw_notify := ts_TNotify s2, tw_tcpserver := None\<rparr>)))))"

definition tcp_server_delete :: "bool \<Rightarrow> ('c server_notify cellManager \<Rightarrow> int list) \<Rightarrow> 'c tcp_server \<Rightarrow> 'c tcp_server outcome" where
  "tcp_server_delete raised keys w = tcp_server_stop raised keys w"

definition tcp_server_senddata :: "64 word \<Rightarrow> int \<Rightarrow> byte list \<Rightarrow> int \<Rightarrow> 'c tcp_server \<Rightarrow> (64 word \<times> 'c tcp_server) outcome" where
  "tcp_server_senddata junk clientid src sz w =
    (case tw_tcpserver w of
       None \<Rightarrow> Inl NullDeref
     | Some s \<Rightarrow> obind (tcpServer_SendData junk clientid src (size_of_int sz) s) (\<lambda>(r, s').
         Inr (r, w\<lparr>tw_tcpserver := Some s'\<rparr>)))"

end
