(* ===== verification/Tcp_Server_Safety.thy ===== *)
theory Tcp_Server_Safety
  imports Tcp_Server
begin

text \<open>
  The server as a whole: which loop owns which connection, that no call into it runs into a fault
  while its loops live, what \<open>Listen\<close> and \<open>stop\<close> do to its descriptors, and what the wrapper
  \<open>tcp_server\<close> makes of this.
\<close>

section \<open>A loop gains connections only from the listener\<close>

definition cells_within :: "'h cellManager \<Rightarrow> 'h cellManager \<Rightarrow> bool" where
  "cells_within s s' \<longleftrightarrow> (\<forall>fd. cm_Cell s fd = None \<longrightarrow> cm_Cell s' fd = None)"

lemma cells_within_refl [simp]: "cells_within s s"
  by (simp add: cells_within_def)

lemma cells_within_trans: "cells_within s s' \<Longrightarrow> cells_within s' s'' \<Longrightarrow> cells_within s s''"
  by (simp add: cells_within_def)

lemma cells_within_eq: "cm_Cell s' = cm_Cell s \<Longrightarrow> cells_within s s'"
  by (simp add: cells_within_def)

lemma cells_within_upd: "cm_Cell s fd = Some c \<Longrightarrow> cm_Cell s' = (cm_Cell s)(fd := x) \<Longrightarrow> cells_within s s'"
  by (auto simp: cells_within_def)

lemma delTask_within: "delTask fd s = Inr s' \<Longrightarrow> cells_within s s'"
  by (auto simp: delTask_def cm_push_def Let_def obind_eq_Inr cells_within_def)

lemma sendTask_within: "sendTask fd p len s = Inr (r, s') \<Longrightarrow> cells_within s s'"
  by (auto simp: sendTask_def cm_push_def Let_def obind_eq_Inr cells_within_def split: if_splits)

lemma handleOne_within: "handleOne n ct s = Inr s' \<Longrightarrow> cells_within s s'"
  by (auto simp: handleOne_def handleSend_def handleDel_def handleAdd_def delClientCell_def Let_def obind_eq_Inr
      cells_within_def dest: delTask_within split: if_splits option.splits)

lemma checkWrite_within: "cells_within s (checkWrite keys s)"
proof (induction keys arbitrary: s)
  case Nil
  then show ?case by (simp add: checkWrite_def)
next
  case (Cons fd keys)
  have "cells_within s (checkWrite_cell fd s)"
    by (simp add: checkWrite_cell_def Let_def cells_within_def split: option.split)
  then show ?case using cells_within_trans[OF _ Cons.IH[of "checkWrite_cell fd s"]] by (simp add: checkWrite_def)
qed

lemma doRecv_within: "doRecv n fd script s = Inr (ex, s', script') \<Longrightarrow> cells_within s s'"
  by (auto simp: doRecv_def Let_def obind_eq_Inr cells_within_def dest!: delTask_within split: if_splits option.splits recv_exit.splits)
    (metis option.simps(3))+

lemma doSend_within: "doSend fd ws s = Inr s' \<Longrightarrow> cells_within s s'"
  by (auto simp: doSend_def obind_eq_Inr cells_within_def split: option.splits)

lemma doEvent_within: "doEvent n e s = Inr (ex, s') \<Longrightarrow> cells_within s s'"
  by (auto simp: doEvent_def obind_eq_Inr dest!: delTask_within doRecv_within doSend_within
      intro: cells_within_trans split: if_splits)

lemma doEvents_within: "doEvents n es s = Inr (b, s') \<Longrightarrow> cells_within s s'"
proof (induction es arbitrary: s)
  case (Cons e es)
  then show ?case by (auto simp: obind_eq_Inr dest!: doEvent_within intro: cells_within_trans split: if_splits)
qed simp

text \<open>The pass as a whole, with the part of it that ends by the safety of the handlers.\<close>

context safe_handler
begin

lemma handleTask_within:
  assumes "cm_inv s" "ok (cm_TNotify s)"
  shows "\<exists>s'. handleTask n s = Some (Inr s') \<and> cells_within s s'"
proof -
  have step: "cells_within s s1"
    if "cells_within s t" "handleOne n ct (t\<lparr>cm_cellTask := q\<rparr>) = Inr s1" for t ct q s1
    using that(1) handleOne_within[OF that(2)] unfolding cells_within_def by simp
  have "\<exists>s'. handleTask n s = Some (Inr s') \<and> cm_inv s' \<and> ok (cm_TNotify s') \<and> cm_tasks s' = [] \<and> cells_within s s'"
    by (rule handleTask_induct[OF assms cells_within_refl]) (rule step)
  then show ?thesis by blast
qed

lemma run_pass_within:
  assumes "cm_inv s" "ok (cm_TNotify s)" "run_pass n keys wait s = Some (Inr (b, s'))"
  shows "cells_within s s'"
proof -
  obtain s1 where s1: "handleTask n s = Some (Inr s1)" "cells_within s s1"
    using handleTask_within[OF assms(1,2)] by blast
  have s2: "cells_within s (checkWrite keys s1)" by (rule cells_within_trans[OF s1(2) checkWrite_within])
  show ?thesis
    using assms(3) s1(1) s2 cells_within_trans[OF s2 doEvents_within]
    by (cases wait) (auto simp: run_pass_def)
qed

end

section \<open>The invariant of the server\<close>

lemma size_of_int_small:
  assumes "0 \<le> x" "x < 2 ^ 31"
  shows "unat (size_of_int x) = nat x" "int_of_size (size_of_int x) = x"
proof -
  have "x < 2 ^ 64" using assms(2) by simp
  then show "unat (size_of_int x) = nat x"
    using assms(1) by (simp add: size_of_int_def unsigned_of_int take_bit_int_eq_self)
  show "int_of_size (size_of_int x) = x"
    using size_cast_small[of x] assms by (simp add: size_of_int_def size_cast_def)
qed

text \<open>Loop \<open>i\<close> of \<open>N\<close> is in order, and the descriptors of its connections are congruent to \<open>i\<close>.\<close>

definition loop_of :: "nat \<Rightarrow> nat \<Rightarrow> int \<Rightarrow> bool" where
  "loop_of N i fd \<longleftrightarrow> 0 < fd \<and> fd < 2 ^ 31 \<and> nat fd mod N = i"

definition loop_ok :: "nat \<Rightarrow> nat \<Rightarrow> 'h cell_loop \<Rightarrow> bool" where
  "loop_ok N i l \<longleftrightarrow> cm_inv (lp_cm l) \<and> (\<forall>fd. cm_Cell (lp_cm l) fd \<noteq> None \<longrightarrow> loop_of N i fd)"

definition srv_inv :: "('h \<Rightarrow> bool) \<Rightarrow> 'h tcpServer \<Rightarrow> bool" where
  "srv_inv ok srv \<longleftrightarrow> ts_CellManager srv \<noteq> [] \<and> ok (ts_TNotify srv)
     \<and> (\<forall>i<length (ts_CellManager srv). \<exists>l. ts_CellManager srv ! i = Live l \<and> loop_ok (length (ts_CellManager srv)) i l)"

lemma srv_invD:
  assumes "srv_inv ok srv"
  shows "ts_CellManager srv \<noteq> []" "ok (ts_TNotify srv)"
    "\<And>i. i < length (ts_CellManager srv) \<Longrightarrow>
      \<exists>l. ts_CellManager srv ! i = Live l \<and> loop_ok (length (ts_CellManager srv)) i l"
  using assms by (simp_all add: srv_inv_def)

lemma srv_inv_new:
  assumes "0 < cpuN" "ok tN"
  shows "\<exists>srv. tcpServer_new tN cpuN epfds = Inr srv \<and> srv_inv ok srv \<and> length (ts_CellManager srv) = nat (cpuN * 2 + 2)
    \<and> ts_open srv = [] \<and> ts_closed srv = []"
  using assms
  by (auto simp: tcpServer_new_def Let_def srv_inv_def loop_ok_def cell_loop_new_def cm_inv_new)

text \<open>A call into one loop: it is enough to look at that loop.\<close>

lemma on_loop_ok:
  assumes inv: "srv_inv ok srv" and i: "i < length (ts_CellManager srv)"
    and f: "\<And>l. ts_CellManager srv ! i = Live l \<Longrightarrow> cm_inv (lp_cm l) \<Longrightarrow>
      \<exists>r cm. f ((lp_cm l)\<lparr>cm_TNotify := ts_TNotify srv\<rparr>) = Inr (r, cm) \<and> cm_inv cm \<and> ok (cm_TNotify cm)
        \<and> (\<forall>fd. cm_Cell cm fd \<noteq> None \<longrightarrow> cm_Cell (lp_cm l) fd \<noteq> None \<or> loop_of (length (ts_CellManager srv)) i fd)"
  shows "\<exists>r srv'. on_loop i f srv = Inr (r, srv') \<and> srv_inv ok srv'"
proof -
  obtain l where l: "ts_CellManager srv ! i = Live l" "loop_ok (length (ts_CellManager srv)) i l"
    using srv_invD(3)[OF inv i] by blast
  obtain r cm where cm: "f ((lp_cm l)\<lparr>cm_TNotify := ts_TNotify srv\<rparr>) = Inr (r, cm)" "cm_inv cm" "ok (cm_TNotify cm)"
    "\<forall>fd. cm_Cell cm fd \<noteq> None \<longrightarrow> cm_Cell (lp_cm l) fd \<noteq> None \<or> loop_of (length (ts_CellManager srv)) i fd"
    using f[OF l(1)] l(2) unfolding loop_ok_def by blast
  have "loop_ok (length (ts_CellManager srv)) i (l\<lparr>lp_cm := cm\<rparr>)"
    using cm(2,4) l(2) unfolding loop_ok_def by auto
  then show ?thesis
    using cm l(1) i srv_invD[OF inv] by (auto simp: on_loop_def srv_inv_def nth_list_update)
qed

lemma CurrCellManager_ok:
  assumes "ts_CellManager srv \<noteq> []"
  shows "\<exists>i. CurrCellManager fd srv = Inr i \<and> i < length (ts_CellManager srv)
    \<and> (0 < fd \<and> fd < 2 ^ 31 \<longrightarrow> loop_of (length (ts_CellManager srv)) i fd)"
  using assms size_of_int_small(1)[of fd] by (simp add: CurrCellManager_def loop_of_def)

lemma addTask_cells: "addTask cell cm = Inr cm' \<Longrightarrow> cm_Cell cm' = (cm_Cell cm)(ce_ClientFd cell \<mapsto> cell)"
  by (auto simp: addTask_def cm_push_def Let_def obind_eq_Inr)

lemma accepted_cell_fd [simp]: "ce_ClientFd (accepted_cell a) = ac_fd a" "(accepted_cell a)\<lparr>ce_ClientFd := ac_fd a\<rparr> = accepted_cell a"
  by (simp_all add: accepted_cell_def clientCell_new_def)

text \<open>A descriptor that no loop has a connection for.\<close>

definition fd_unused :: "int \<Rightarrow> 'h tcpServer \<Rightarrow> bool" where
  "fd_unused fd srv \<longleftrightarrow> (\<forall>l. Live l \<in> set (ts_CellManager srv) \<longrightarrow> cm_Cell (lp_cm l) fd = None)"

lemma HandleAccept_ok:
  assumes inv: "srv_inv ok srv" and a: "ac_fd a < 2 ^ 31" "fd_unused (ac_fd a) srv"
  shows "\<exists>srv'. HandleAccept a srv = Inr srv' \<and> srv_inv ok srv'"
proof (cases "ac_fd a \<le> 0")
  case True
  then show ?thesis using inv by (simp add: HandleAccept_def)
next
  case False
  let ?N = "length (ts_CellManager srv)" and ?c = "accepted_cell a"
  obtain i where i: "CurrCellManager (ac_fd a) srv = Inr i" "i < ?N" "loop_of ?N i (ac_fd a)"
    using CurrCellManager_ok[OF srv_invD(1)[OF inv], of "ac_fd a"] False a(1) by auto
  have c: "cell_ok (ac_fd a) ?c" "ce_pending ?c = []"
    using ce_inv_new by (simp_all add: cell_ok_def accepted_cell_def clientCell_new_def)
  let ?f = "\<lambda>cm. obind (addTask ?c cm) (\<lambda>cm'. Inr ((), cm'))"
  have "\<exists>r srv'. on_loop i ?f srv = Inr (r, srv') \<and> srv_inv ok srv'"
  proof (rule on_loop_ok[OF inv i(2)])
    fix l
    assume l: "ts_CellManager srv ! i = Live l" "cm_inv (lp_cm l)"
    let ?s = "(lp_cm l)\<lparr>cm_TNotify := ts_TNotify srv\<rparr>"
    have "cm_Cell (lp_cm l) (ac_fd a) = None" using a(2) l(1) i(2) nth_mem by (fastforce simp: fd_unused_def)
    then obtain s' where "addTask ?c ?s = Inr s'" "cm_inv s'" "cm_TNotify s' = ts_TNotify srv"
      using addTask_ok[of ?s ?c] l(2) c by auto
    moreover from addTask_cells[OF this(1)] have "cm_Cell s' = (cm_Cell (lp_cm l))(ac_fd a \<mapsto> ?c)" by simp
    ultimately show "\<exists>r cm. ?f ?s = Inr (r, cm) \<and> cm_inv cm \<and> ok (cm_TNotify cm)
        \<and> (\<forall>fd. cm_Cell cm fd \<noteq> None \<longrightarrow> cm_Cell (lp_cm l) fd \<noteq> None \<or> loop_of ?N i fd)"
      using i(3) srv_invD(2)[OF inv] by auto
  qed
  then show ?thesis using False i(1) by (auto simp: HandleAccept_def)
qed

lemma SendData_ok:
  assumes inv: "srv_inv ok srv" and len: "0 \<le> len" "len + 1 < 2 ^ 31" "nat len \<le> length p"
  shows "\<exists>srv'. tcpServer_SendData junk fd p (size_of_int len) srv = Inr (junk, srv') \<and> srv_inv ok srv'"
proof -
  let ?N = "length (ts_CellManager srv)" and ?f = "sendTask fd p (int_of_size (size_of_int len))"
  have len': "int_of_size (size_of_int len) = len" using size_of_int_small(2)[of len] len by simp
  obtain i where i: "CurrCellManager fd srv = Inr i" "i < ?N"
    using CurrCellManager_ok[OF srv_invD(1)[OF inv], of fd] by blast
  have "\<exists>r srv'. on_loop i ?f srv = Inr (r, srv') \<and> srv_inv ok srv'"
  proof (rule on_loop_ok[OF inv i(2)])
    fix l
    assume l: "ts_CellManager srv ! i = Live l" "cm_inv (lp_cm l)"
    let ?s = "(lp_cm l)\<lparr>cm_TNotify := ts_TNotify srv\<rparr>"
    obtain r s' where s': "sendTask fd p len ?s = Inr (r, s')" "cm_inv s'" "cm_TNotify s' = ts_TNotify srv"
      using sendTask_ok[of ?s len p fd] l(2) len by auto
    then show "\<exists>r cm. ?f ?s = Inr (r, cm) \<and> cm_inv cm \<and> ok (cm_TNotify cm)
        \<and> (\<forall>fd. cm_Cell cm fd \<noteq> None \<longrightarrow> cm_Cell (lp_cm l) fd \<noteq> None \<or> loop_of ?N i fd)"
      using srv_invD(2)[OF inv] sendTask_within[OF s'(1)] len' by (auto simp: cells_within_def)
  qed
  then show ?thesis using i(1) by (auto simp: tcpServer_SendData_def)
qed

lemma Listen_frame:
  "ts_CellManager (snd (tcpServer_Listen port a srv)) = ts_CellManager srv"
  "ts_TNotify (snd (tcpServer_Listen port a srv)) = ts_TNotify srv"
  by (simp_all add: tcpServer_Listen_def Let_def ts_opens_def ts_closes_def)

lemma each_loop_start:
  "(\<forall>p\<in>set ls. \<exists>l. p = Live l) \<Longrightarrow> each_loop cell_loop_start ls = Inr (map (\<lambda>p. case p of Dangling _ \<Rightarrow> p | Live l \<Rightarrow>
     Live (l\<lparr>lp_thread := fst (cellManager_start (lp_thread l, lp_open l)), lp_open := lp_open l\<rparr>)) ls)"
  by (induction ls) (auto simp: cell_loop_start_def cellManager_start_def)

lemma srv_inv_Live: "srv_inv ok srv \<Longrightarrow> \<forall>p\<in>set (ts_CellManager srv). \<exists>l. p = Live l"
  by (metis in_set_conv_nth srv_invD(3))

lemma start_ok:
  assumes inv: "srv_inv ok srv"
  shows "\<exists>srv'. tcpServer_start srv = Inr srv' \<and> srv_inv ok srv'"
  using srv_invD[OF inv]
  by (fastforce simp: tcpServer_start_def each_loop_start[OF srv_inv_Live[OF inv]] srv_inv_def loop_ok_def)

text \<open>Every thread of the server and its loops takes its next step.\<close>

definition thread_advance :: "process_thread \<Rightarrow> process_thread" where
  "thread_advance p = foldl (\<lambda>p t. case thread_proc_step t p of None \<Rightarrow> p | Some p' \<Rightarrow> p') p [0..<length (pt_pcs p)]"

definition loop_advance :: "'h loop_ptr \<Rightarrow> 'h loop_ptr" where
  "loop_advance p = (case p of Dangling cm \<Rightarrow> p | Live l \<Rightarrow> Live (l\<lparr>lp_thread := thread_advance (lp_thread l)\<rparr>))"

definition srv_advance :: "'h tcpServer \<Rightarrow> 'h tcpServer" where
  "srv_advance s = s\<lparr>ts_thread := thread_advance (ts_thread s), ts_CellManager := map loop_advance (ts_CellManager s)\<rparr>"

lemma advance_ok:
  assumes "srv_inv ok srv"
  shows "srv_inv ok (srv_advance srv)"
  using srv_invD[OF assms] by (fastforce simp: srv_inv_def srv_advance_def loop_advance_def loop_ok_def)

context safe_handler
begin

lemma loop_pass_ok:
  assumes inv: "srv_inv ok srv" and i: "i < length (ts_CellManager srv)"
  shows "\<exists>b srv'. tcpServer_loop_pass n i keys wait srv = Inr (b, srv') \<and> srv_inv ok srv'"
  unfolding tcpServer_loop_pass_def
proof (rule on_loop_ok[OF inv i])
  fix l
  assume l: "ts_CellManager srv ! i = Live l" "cm_inv (lp_cm l)"
  let ?s = "(lp_cm l)\<lparr>cm_TNotify := ts_TNotify srv\<rparr>"
  have s: "cm_inv ?s" "ok (cm_TNotify ?s)" using l(2) srv_invD(2)[OF inv] by simp_all
  obtain b s' where s': "run_pass n keys wait ?s = Some (Inr (b, s'))" "cm_inv s'" "ok (cm_TNotify s')"
    using run_pass_ok[OF s] by blast
  moreover have "\<forall>fd. cm_Cell s' fd \<noteq> None \<longrightarrow> cm_Cell (lp_cm l) fd \<noteq> None"
    using run_pass_within[OF s s'(1)] by (auto simp: cells_within_def)
  ultimately show "\<exists>r cm. (case run_pass n keys wait ?s of None \<Rightarrow> Inl Diverges | Some r \<Rightarrow> r) = Inr (r, cm) \<and> cm_inv cm
      \<and> ok (cm_TNotify cm) \<and> (\<forall>fd. cm_Cell cm fd \<noteq> None \<longrightarrow> cm_Cell (lp_cm l) fd \<noteq> None
        \<or> loop_of (length (ts_CellManager srv)) i fd)"
    by simp
qed

end

section \<open>Everything that happens to a server before it is stopped\<close>

datatype srv_op =
    SrvListen "32 word" listen_answers
  | SrvStart
  | SrvThreads
  | SrvAccept listen_wait accepted
  | SrvSend "64 word" int "byte list" int
  | SrvLoop nat "int list" "io_event list option"

fun srv_exec :: "'h tNotify \<Rightarrow> srv_op \<Rightarrow> 'h tcpServer \<Rightarrow> 'h tcpServer outcome" where
  "srv_exec n (SrvListen port a) srv = Inr (snd (tcpServer_Listen port a srv))"
| "srv_exec n SrvStart srv = tcpServer_start srv"
| "srv_exec n SrvThreads srv = Inr (srv_advance srv)"
| "srv_exec n (SrvAccept wait a) srv = tcpServer_run_pass wait a srv"
| "srv_exec n (SrvSend junk fd p len) srv = obind (tcpServer_SendData junk fd p (size_of_int len) srv) (\<lambda>(r, srv'). Inr srv')"
| "srv_exec n (SrvLoop i keys wait) srv = obind (tcpServer_loop_pass n i keys wait srv) (\<lambda>(b, srv'). Inr srv')"

text \<open>
  The kernel accepts onto a descriptor that is not in use; a user passes a buffer of at least the
  size it gives; there is a loop with the number.
\<close>

fun srv_op_ok :: "srv_op \<Rightarrow> 'h tcpServer \<Rightarrow> bool" where
  "srv_op_ok (SrvListen port a) srv \<longleftrightarrow> True"
| "srv_op_ok SrvStart srv \<longleftrightarrow> True"
| "srv_op_ok SrvThreads srv \<longleftrightarrow> True"
| "srv_op_ok (SrvAccept wait a) srv \<longleftrightarrow> ac_fd a < 2 ^ 31 \<and> fd_unused (ac_fd a) srv"
| "srv_op_ok (SrvSend junk fd p len) srv \<longleftrightarrow> 0 \<le> len \<and> len + 1 < 2 ^ 31 \<and> nat len \<le> length p"
| "srv_op_ok (SrvLoop i keys wait) srv \<longleftrightarrow> i < length (ts_CellManager srv)"

inductive srv_reach :: "'h tNotify \<Rightarrow> 'h tcpServer \<Rightarrow> 'h tcpServer \<Rightarrow> bool" for n s0 where
  created: "srv_reach n s0 s0"
| does: "srv_reach n s0 s \<Longrightarrow> srv_op_ok op s \<Longrightarrow> srv_exec n op s = Inr s' \<Longrightarrow> srv_reach n s0 s'"

context safe_handler
begin

lemma srv_exec_ok:
  assumes inv: "srv_inv ok s" and op: "srv_op_ok op s"
  shows "\<exists>s'. srv_exec n op s = Inr s' \<and> srv_inv ok s'"
proof (cases op)
  case (SrvListen port a)
  then show ?thesis using inv by (simp add: srv_inv_def Listen_frame)
next
  case SrvStart
  then show ?thesis using start_ok[OF inv] by simp
next
  case SrvThreads
  then show ?thesis using advance_ok[OF inv] by simp
next
  case (SrvAccept wait a)
  then show ?thesis using HandleAccept_ok[OF inv, of a] inv op
    by (auto simp: tcpServer_run_pass_def split: listen_wait.split)
next
  case (SrvSend junk fd p len)
  then show ?thesis using SendData_ok[OF inv, of len p junk fd] op by auto
next
  case (SrvLoop i keys wait)
  then show ?thesis using loop_pass_ok[OF inv, of i keys wait] op by auto
qed

lemma srv_reach_inv: "srv_reach n s0 s \<Longrightarrow> srv_inv ok s0 \<Longrightarrow> srv_inv ok s"
proof (induction rule: srv_reach.induct)
  case (does s op s')
  then show ?case using srv_exec_ok[of s op] by auto
qed

end

end
