(* ===== verification/Tcp_Server_Props.thy ===== *)
theory Tcp_Server_Props
  imports Tcp_Server_Safety
begin

text \<open>
  The properties of the server: safety of every call, ownership of connections by loops, how an
  accepted connection comes to be watched, where a message sent goes, the outcomes of \<open>Listen\<close>,
  and stopping in its good and bad circumstances.
\<close>

section \<open>A running server\<close>

abbreviation srv_started :: "'c tcp_server_hub \<Rightarrow> int \<Rightarrow> 'c server_notify tcpServer \<Rightarrow> bool" where
  "srv_started hub cpuN s \<equiv> \<exists>epfds s0. tcpServer_new (Some hub) cpuN epfds = Inr s0 \<and> srv_reach server_callbacks s0 s"

lemma srv_started_inv:
  assumes "srv_started hub cpuN s" "0 < cpuN"
  shows "srv_inv (\<lambda>m. m \<noteq> None) s"
proof -
  obtain epfds s0 where s0: "tcpServer_new (Some hub) cpuN epfds = Inr s0" "srv_reach server_callbacks s0 s"
    using assms(1) by blast
  then have "srv_inv (\<lambda>m. m \<noteq> None) s0"
    using srv_inv_new[OF assms(2), of "\<lambda>m. m \<noteq> None" "Some hub" epfds] by auto
  then show ?thesis using sh.srv_reach_inv s0(2) by blast
qed

text \<open>
  The state of the witnesses: four loops, a listening socket, and connection 5, accepted and
  handed to loop 1, which has not looked at it yet.
\<close>

definition demo_accepted :: accepted where
  "demo_accepted = \<lparr>ac_fd = 5, ac_ip = ''peer'', ac_port = 80, ac_RecvBuf = (\<lambda>_. 0), ac_SendBuf = (\<lambda>_. None), ac_Events = 0\<rparr>"

definition demo_answers :: listen_answers where
  "demo_answers = \<lparr>la_socket = 7, la_bind = 0, la_listen = 0, la_epoll = 8\<rparr>"

lemma srv_demo_listen:
  "\<exists>s. srv_started count_hub 1 s \<and> ts_SocketFd s = 7 \<and> ts_ListenFd s = 8 \<and> ts_open s = [8, 7] \<and> length (ts_CellManager s) = 4
     \<and> ts_CellManager s = map (\<lambda>i. Live (cell_loop_new 3 (Some count_hub) 0)) [0..<4]
     \<and> ts_thread s = process_thread_new \<and> ts_TNotify s = Some count_hub"
proof -
  obtain s0 where s0: "tcpServer_new (Some count_hub) 1 (\<lambda>_. 3) = Inr s0" "ts_open s0 = []" "ts_SocketFd s0 = - 1"
    "ts_CellManager s0 = map (\<lambda>i. Live (cell_loop_new 3 (Some count_hub) 0)) [0..<4]" "ts_thread s0 = process_thread_new"
    "ts_TNotify s0 = Some count_hub"
    by (simp add: tcpServer_new_def ts_INVALID_SOCKET_def)
  let ?s = "snd (tcpServer_Listen 9000 demo_answers s0)"
  have "srv_reach server_callbacks s0 ?s"
    by (rule srv_reach.does[OF srv_reach.created, of "SrvListen 9000 demo_answers"]) simp_all
  moreover have "ts_SocketFd ?s = 7 \<and> ts_ListenFd ?s = 8 \<and> ts_open ?s = [8, 7] \<and> ts_thread ?s = process_thread_new"
    using s0 by (simp add: tcpServer_Listen_def demo_answers_def ts_INVALID_SOCKET_def ts_opens_def ts_closes_def)
  moreover have "ts_CellManager ?s = ts_CellManager s0" "ts_TNotify ?s = ts_TNotify s0" by (simp_all add: Listen_frame)
  ultimately show ?thesis using s0 by (intro exI[of _ ?s]) auto
qed

lemma on_loop_eq:
  assumes "i < length (ts_CellManager srv)" "ts_CellManager srv ! i = Live l"
    "f ((lp_cm l)\<lparr>cm_TNotify := ts_TNotify srv\<rparr>) = Inr (r, cm)"
  shows "on_loop i f srv = Inr (r, srv\<lparr>ts_CellManager := (ts_CellManager srv)[i := Live (l\<lparr>lp_cm := cm\<rparr>)],
    ts_TNotify := cm_TNotify cm\<rparr>)"
  using assms by (simp add: on_loop_def)

lemma CurrCellManager_eq:
  assumes "ts_CellManager srv \<noteq> []" "0 \<le> fd" "fd < 2 ^ 31"
  shows "CurrCellManager fd srv = Inr (nat fd mod length (ts_CellManager srv))"
  using assms by (simp add: CurrCellManager_def size_of_int_small)

text \<open>\<open>HandleAccept\<close> on any running server.\<close>

lemma HandleAccept_posts:
  assumes inv: "srv_inv ok srv" and a: "0 < ac_fd a" "ac_fd a < 2 ^ 31" "fd_unused (ac_fd a) srv"
    and l: "ts_CellManager srv ! (nat (ac_fd a) mod length (ts_CellManager srv)) = Live l"
  shows "\<exists>cm. HandleAccept a srv = Inr (srv\<lparr>ts_CellManager := (ts_CellManager srv)
        [nat (ac_fd a) mod length (ts_CellManager srv) := Live (l\<lparr>lp_cm := cm\<rparr>)]\<rparr>)
    \<and> cm_inv cm \<and> cm_Cell cm = (cm_Cell (lp_cm l))(ac_fd a \<mapsto> accepted_cell a) \<and> cm_TNotify cm = ts_TNotify srv
    \<and> cm_epoll cm = cm_epoll (lp_cm l) \<and> srt_cap (cm_cellTask cm) = srt_cap (cm_cellTask (lp_cm l))
    \<and> cm_tasks cm = cm_tasks (lp_cm l) @ (if length (cm_tasks (lp_cm l)) < srt_cap (cm_cellTask (lp_cm l))
        then [cellTask_new\<lparr>ct_event := CHR ''A'', ct_clientid := ac_fd a\<rparr>] else [])"
proof -
  let ?N = "length (ts_CellManager srv)"
  let ?i = "nat (ac_fd a) mod ?N" and ?c = "accepted_cell a"
  let ?s = "(lp_cm l)\<lparr>cm_TNotify := ts_TNotify srv\<rparr>"
  have i: "?i < ?N" using srv_invD(1)[OF inv] by simp
  have li: "cm_inv (lp_cm l)" using srv_invD(3)[OF inv i] l by (auto simp: loop_ok_def)
  have c: "cell_ok (ac_fd a) ?c" "ce_pending ?c = []"
    using ce_inv_new by (simp_all add: cell_ok_def accepted_cell_def clientCell_new_def)
  have none: "cm_Cell (lp_cm l) (ac_fd a) = None" using a(3) l i nth_mem by (fastforce simp: fd_unused_def)
  have room: "srt_room (cm_cellTask ?s) \<longleftrightarrow> length (cm_tasks (lp_cm l)) < srt_cap (cm_cellTask (lp_cm l))"
    using srt_room_tasks[OF li] by simp
  obtain cm where cm: "addTask ?c ?s = Inr cm" "cm_inv cm" "cm_Cell cm = (cm_Cell (lp_cm l))(ac_fd a \<mapsto> ?c)"
    "cm_TNotify cm = ts_TNotify srv" "srt_cap (cm_cellTask cm) = srt_cap (cm_cellTask (lp_cm l))"
    "cm_tasks cm = cm_tasks (lp_cm l) @ (if length (cm_tasks (lp_cm l)) < srt_cap (cm_cellTask (lp_cm l))
        then [cellTask_new\<lparr>ct_event := CHR ''A'', ct_clientid := ac_fd a\<rparr>] else [])"
    using addTask_ok[of ?s ?c] li none c room by (auto simp: cm_tasks_def)
  have ep: "cm_epoll cm = cm_epoll (lp_cm l)"
    using cm(1) by (auto simp: addTask_def cm_push_def Let_def obind_eq_Inr)
  have "HandleAccept a srv = Inr (srv\<lparr>ts_CellManager := (ts_CellManager srv)[?i := Live (l\<lparr>lp_cm := cm\<rparr>)], ts_TNotify := cm_TNotify cm\<rparr>)"
    using a(1,2) CurrCellManager_eq[OF srv_invD(1)[OF inv], of "ac_fd a"]
      on_loop_eq[OF i l, of "\<lambda>cm. obind (addTask ?c cm) (\<lambda>cm'. Inr ((), cm'))" "()" cm] cm(1)
    by (simp add: HandleAccept_def)
  then show ?thesis using cm ep by (intro exI[of _ cm]) simp
qed

lemma srv_demo:
  "\<exists>s l. srv_started count_hub 1 s \<and> length (ts_CellManager s) = 4 \<and> ts_CellManager s ! 1 = Live l
     \<and> cm_Cell (lp_cm l) = [5 \<mapsto> accepted_cell demo_accepted] \<and> length (cm_tasks (lp_cm l)) < srt_cap (cm_cellTask (lp_cm l))
     \<and> cm_tasks (lp_cm l) = [cellTask_new\<lparr>ct_event := CHR ''A'', ct_clientid := 5\<rparr>] \<and> ts_TNotify s = Some count_hub
     \<and> srt_cap (cm_cellTask (lp_cm l)) = (2 ^ 15 - 1) * 2 ^ 16"
proof -
  obtain s where s: "srv_started count_hub 1 s" "ts_SocketFd s = 7" "length (ts_CellManager s) = 4"
    "ts_CellManager s = map (\<lambda>i. Live (cell_loop_new 3 (Some count_hub) 0)) [0..<4]" "ts_TNotify s = Some count_hub"
    using srv_demo_listen by blast
  let ?l = "cell_loop_new 3 (Some count_hub) 0"
  note inv = srv_started_inv[OF s(1), simplified]
  have un: "fd_unused 5 s" using s(4) by (auto simp: fd_unused_def cell_loop_new_def cm_inv_new(3))
  obtain cm where cm: "HandleAccept demo_accepted s = Inr (s\<lparr>ts_CellManager := (ts_CellManager s)[1 := Live (?l\<lparr>lp_cm := cm\<rparr>)]\<rparr>)"
    "cm_Cell cm = [5 \<mapsto> accepted_cell demo_accepted]" "cm_tasks cm = [cellTask_new\<lparr>ct_event := CHR ''A'', ct_clientid := 5\<rparr>]"
    "srt_cap (cm_cellTask cm) = (2 ^ 15 - 1) * 2 ^ 16"
    using HandleAccept_posts[OF inv, of demo_accepted ?l] un s(3,4) cm_cap_new[of 3 "Some count_hub" 0]
    by (auto simp: demo_accepted_def cell_loop_new_def cm_inv_new)
  let ?s = "s\<lparr>ts_CellManager := (ts_CellManager s)[1 := Live (?l\<lparr>lp_cm := cm\<rparr>)]\<rparr>"
  obtain epfds s0 where s0: "tcpServer_new (Some count_hub) 1 epfds = Inr s0" "srv_reach server_callbacks s0 s"
    using s(1) by blast
  have "srv_reach server_callbacks s0 ?s"
    by (rule srv_reach.does[OF s0(2), of "SrvAccept (WaitEvent 7) demo_accepted"])
      (use un cm(1) s(2) in \<open>simp_all add: tcpServer_run_pass_def demo_accepted_def\<close>)
  then show ?thesis
    using s0(1) cm(2-4) s(3,5) by (intro exI[of _ ?s] exI[of _ "?l\<lparr>lp_cm := cm\<rparr>"]) auto
qed

section \<open>Safety and ownership\<close>



text \<open>
  C7: every object of a running server is well formed.  All loops are there; each connection of a
  loop is stored under its own descriptor, which the loop's number fits; its receive positions are
  in order and within the buffer, its ring positions within the ring; each message in its ring, and
  of each task to send, is allocated, with a position within its size and a size within its memory.
\<close>

theorem server_well_formed:
  assumes "tcpServer_new (Some hub) cpuN epfds = Inr s0" "0 < cpuN" "srv_reach server_callbacks s0 s"
    and "i < length (ts_CellManager s)"
  shows "\<exists>l. ts_CellManager s ! i = Live l
    \<and> (\<forall>fd c. cm_Cell (lp_cm l) fd = Some c \<longrightarrow>
        ce_ClientFd c = fd \<and> 0 < fd \<and> fd < 2 ^ 31 \<and> nat fd mod length (ts_CellManager s) = i
      \<and> ce_RecvReadPos c \<le> ce_RecvWritePos c \<and> unat (ce_RecvWritePos c) \<le> CLIENTCELLRECVBUF
      \<and> unat (ce_SendReadPos c) < CLIENTCELLSENDBUF \<and> unat (ce_SendWritePos c) < CLIENTCELLSENDBUF
      \<and> (\<forall>p\<in>set (ce_pending c). \<exists>a sc. p = Some a \<and> cm_heap (lp_cm l) a = Some sc \<and> sc_ok sc))
    \<and> (\<forall>t\<in>set (cm_tasks (lp_cm l)). ct_event t = CHR ''S'' \<longrightarrow>
        (\<exists>a sc. ct_sC t = Some a \<and> cm_heap (lp_cm l) a = Some sc \<and> sc_ok sc))"
proof -
  have inv: "srv_inv (\<lambda>m. m \<noteq> None) s" using srv_started_inv[of hub cpuN s] assms(1-3) by blast
  then obtain l where l: "ts_CellManager s ! i = Live l" "cm_inv (lp_cm l)"
    "\<And>fd. cm_Cell (lp_cm l) fd \<noteq> None \<Longrightarrow> loop_of (length (ts_CellManager s)) i fd"
    using srv_invD(3)[OF inv assms(4)] by (auto simp: loop_ok_def)
  have "\<exists>a sc. p = Some a \<and> cm_heap (lp_cm l) a = Some sc \<and> sc_ok sc"
    if "cm_Cell (lp_cm l) fd = Some c" "p \<in> set (ce_pending c)" for fd c p
    using cell_addrs_live(2,4)[OF l(2) that(1)] that(2) by auto
  moreover have "ce_ClientFd c = fd \<and> ce_inv c" if "cm_Cell (lp_cm l) fd = Some c" for fd c
    using cell_addrs_live(1,5)[OF l(2) that] by simp
  moreover have "\<exists>a sc. ct_sC t = Some a \<and> cm_heap (lp_cm l) a = Some sc \<and> sc_ok sc"
    if "t \<in> set (cm_tasks (lp_cm l))" "ct_event t = CHR ''S''" for t
  proof -
    note t = that
    obtain a where "ct_sC t = Some a" using cm_invD(2)[OF l(2) t(1)] t(2) by (auto simp: task_ok_def)
    moreover from this t have "a \<in> set (cm_refs (lp_cm l) InQueue)"
      by (force simp: cm_refs_simps task_addrs_def image_iff)
    ultimately show ?thesis using ownedD(3)[OF cm_invD(4)[OF l(2)]] by blast
  qed
  ultimately show ?thesis
    using l(1,3) by (fastforce simp: loop_of_def ce_inv_def word_le_nat_alt SYSSENDBUF_def CLIENTCELLSENDBUF_def)
qed

theorem server_well_formed_witness:
  "\<exists>(s :: nat server_notify tcpServer) l c. ts_CellManager s ! 1 = Live l \<and> cm_Cell (lp_cm l) 5 = Some c
     \<and> ce_ClientFd c = 5 \<and> unat (ce_RecvWritePos c) \<le> CLIENTCELLRECVBUF"
proof -
  obtain s l epfds s0 where s: "tcpServer_new (Some count_hub) 1 epfds = Inr s0" "srv_reach server_callbacks s0 s"
    "length (ts_CellManager s) = 4" "ts_CellManager s ! 1 = Live l" "cm_Cell (lp_cm l) = [5 \<mapsto> accepted_cell demo_accepted]"
    using srv_demo by blast
  have "cm_Cell (lp_cm l) 5 = Some (accepted_cell demo_accepted)" "1 < length (ts_CellManager s)" using s(3,5) by simp_all
  with server_well_formed[OF s(1) zero_less_one s(2), of 1] s(4)
  have "ce_ClientFd (accepted_cell demo_accepted) = 5 \<and> unat (ce_RecvWritePos (accepted_cell demo_accepted)) \<le> CLIENTCELLRECVBUF"
    by (auto simp: demo_accepted_def)
  with s(4) \<open>cm_Cell (lp_cm l) 5 = _\<close> show ?thesis by blast
qed



section \<open>From accepting to watching\<close>

text \<open>What holds from the moment the task \<open>'A'\<close> is in the queue until it is handled, and afterwards.\<close>

definition watched :: "int \<Rightarrow> 'h cellManager \<Rightarrow> bool" where
  "watched fd s \<longleftrightarrow> (\<exists>ev. cm_epoll s fd = Some ev \<and> ev AND EPOLLIN \<noteq> 0)"

definition registering :: "int \<Rightarrow> 'h cellManager \<Rightarrow> bool" where
  "registering fd s \<longleftrightarrow> cm_Cell s fd \<noteq> None \<and> (\<forall>t\<in>set (cm_tasks s). ct_event t = CHR ''D'' \<longrightarrow> ct_clientid t \<noteq> fd)
     \<and> (watched fd s \<or> cm_epoll s fd = None \<and> (\<exists>t\<in>set (cm_tasks s). ct_event t = CHR ''A'' \<and> ct_clientid t = fd))"

lemma added_events: "EPOLLIN AND (EPOLLET OR (EPOLLIN OR (EPOLLPRI OR (EPOLLRDHUP OR EPOLLERR)))) \<noteq> 0"
  "(EPOLLET OR EPOLLIN OR EPOLLPRI OR EPOLLRDHUP OR EPOLLERR) AND EPOLLIN \<noteq> 0"
  by (simp_all add: EPOLLET_def EPOLLIN_def EPOLLPRI_def EPOLLRDHUP_def EPOLLERR_def)

lemma handleOne_registers:
  assumes inv: "cm_inv (s\<lparr>cm_cellTask := q\<rparr>)" and reg: "registering fd s"
    and ts: "cm_tasks s = ct # ts" "cm_tasks (s\<lparr>cm_cellTask := q\<rparr>) = ts"
    and one: "handleOne n ct (s\<lparr>cm_cellTask := q\<rparr>) = Inr s1"
  shows "registering fd s1"
proof -
  let ?s = "s\<lparr>cm_cellTask := q\<rparr>" and ?k = "ct_clientid ct"
  have quiet: "\<forall>t\<in>set ts. ct_event t = CHR ''D'' \<longrightarrow> ct_clientid t \<noteq> fd" "ct_event ct = CHR ''D'' \<Longrightarrow> ?k \<noteq> fd"
    "cm_Cell s fd \<noteq> None" using reg ts(1) by (auto simp: registering_def)
  have same: "registering fd s1"
    if "cm_Cell s1 fd \<noteq> None" "cm_epoll s1 fd = cm_epoll s fd" "cm_tasks s1 = ts @ new"
      "\<forall>t\<in>set new. ct_clientid t \<noteq> fd"
      "ct_event ct \<noteq> CHR ''A'' \<or> ?k \<noteq> fd" for new
    using reg ts(1) that quiet by (auto simp: registering_def watched_def)
  consider "ct_event ct = CHR ''S''" | "ct_event ct = CHR ''D''" | "ct_event ct = CHR ''A''"
    | "ct_event ct \<noteq> CHR ''S''" "ct_event ct \<noteq> CHR ''D''" "ct_event ct \<noteq> CHR ''A''" by blast
  then show ?thesis
  proof cases
    case 1
    then have "cm_Cell s1 fd \<noteq> None" "cm_epoll s1 fd = cm_epoll s fd" "cm_tasks s1 = ts"
      using one ts(2) quiet(3) by (auto simp: handleOne_def handleSend_def Let_def obind_eq_Inr cm_tasks_def split: if_splits option.splits)
    then show ?thesis using same[of "[]"] 1 by simp
  next
    case 2
    then have k: "?k \<noteq> fd" by (rule quiet(2))
    have "cm_Cell s1 fd \<noteq> None \<and> cm_epoll s1 fd = cm_epoll s fd \<and> cm_tasks s1 = ts"
    proof (cases "cm_Cell s ?k")
      case None
      then show ?thesis using one 2 ts(2) quiet(3) by (auto simp: handleOne_def handleDel_def)
    next
      case (Some c)
      then have "ce_ClientFd c = ?k" using cm_invD(3)[OF inv, of ?k c] by (simp add: cell_ok_def)
      then show ?thesis using one 2 ts(2) quiet(3) Some k
        by (auto simp: handleOne_def handleDel_def delClientCell_def obind_eq_Inr epoll_del_def cm_tasks_def)
    qed
    then show ?thesis using same[of "[]"] k by simp
  next
    case 3
    show ?thesis
    proof (cases "cm_Cell s ?k")
      case None
      then have k: "?k \<noteq> fd" using quiet(3) by auto
      have "delTask ?k ?s = Inr s1" using one 3 None by (simp add: handleOne_def handleAdd_def)
      note f = delTask_frame[OF inv this]
      obtain new where "cm_tasks s1 = cm_tasks ?s @ new" "\<forall>t\<in>set new. ct_event t = CHR ''D'' \<and> ct_clientid t = ?k"
        using f(6) by blast
      moreover have "cm_epoll s1 = cm_epoll s" "cm_Cell s1 = cm_Cell s"
        using \<open>delTask ?k ?s = Inr s1\<close> by (auto simp: delTask_def cm_push_def Let_def obind_eq_Inr)
      ultimately show ?thesis using same[of new] k quiet(3) ts(2) by simp
    next
      case (Some c)
      then have c: "ce_ClientFd c = ?k" using cm_invD(3)[OF inv, of ?k c] by (simp add: cell_ok_def)
      have s1: "cm_Cell s1 fd \<noteq> None" "cm_tasks s1 = ts"
        "cm_epoll s1 = epoll_add ?k (EPOLLET OR EPOLLIN OR EPOLLPRI OR EPOLLRDHUP OR EPOLLERR) (cm_epoll s)"
        using one 3 Some quiet(3) ts(2) c by (auto simp: handleOne_def handleAdd_def Let_def cm_tasks_def)
      show ?thesis
      proof (cases "?k = fd")
        case False
        then show ?thesis using same[of "[]"] s1 by (simp add: epoll_add_def)
      next
        case True
        then have "watched fd s1" using reg s1(3) added_events by (auto simp: registering_def watched_def epoll_add_def)
        then show ?thesis using s1 quiet(1) by (simp add: registering_def)
      qed
    qed
  next
    case 4
    then have "s1 = ?s" using one by (simp add: handleOne_def)
    then show ?thesis using same[of "[]"] 4 quiet(3) ts(2) by simp
  qed
qed

text \<open>
  C10: an accepted connection comes to be watched.  When the listening socket is readable and
  \<open>accept4\<close> answers with a descriptor no loop has, the pass of the listening thread stores the
  connection in the loop that owns the descriptor and posts a task there; if the task queue has
  room and no disconnect for an earlier use of the number is pending, the next \<open>handleTask\<close> of this
  loop returns with the descriptor in the interest list of its epoll, for input.
\<close>

theorem server_accept_watched:
  assumes "tcpServer_new (Some hub) cpuN epfds = Inr s0" "0 < cpuN" "srv_reach server_callbacks s0 s"
    and "srv_op_ok (SrvAccept (WaitEvent (ts_SocketFd s)) a) s" "0 < ac_fd a"
    and "ts_CellManager s ! (nat (ac_fd a) mod length (ts_CellManager s)) = Live l"
    and "length (cm_tasks (lp_cm l)) < srt_cap (cm_cellTask (lp_cm l))" "cm_epoll (lp_cm l) (ac_fd a) = None"
    and "\<forall>t\<in>set (cm_tasks (lp_cm l)). ct_event t = CHR ''D'' \<longrightarrow> ct_clientid t \<noteq> ac_fd a"
  shows "\<exists>s' l' cm. tcpServer_run_pass (WaitEvent (ts_SocketFd s)) a s = Inr s'
    \<and> ts_CellManager s' ! (nat (ac_fd a) mod length (ts_CellManager s)) = Live l'
    \<and> cm_Cell (lp_cm l') = (cm_Cell (lp_cm l))(ac_fd a \<mapsto> accepted_cell a)
    \<and> handleTask server_callbacks (lp_cm l') = Some (Inr cm)
    \<and> (\<exists>ev. cm_epoll cm (ac_fd a) = Some ev \<and> ev AND EPOLLIN \<noteq> 0)"
proof -
  have inv: "srv_inv (\<lambda>m. m \<noteq> None) s" using srv_started_inv[of hub cpuN s] assms(1-3) by blast
  let ?i = "nat (ac_fd a) mod length (ts_CellManager s)"
  have i: "?i < length (ts_CellManager s)" using srv_invD(1)[OF inv] by simp
  obtain cm where cm: "HandleAccept a s = Inr (s\<lparr>ts_CellManager := (ts_CellManager s)[?i := Live (l\<lparr>lp_cm := cm\<rparr>)]\<rparr>)"
    "cm_inv cm" "cm_Cell cm = (cm_Cell (lp_cm l))(ac_fd a \<mapsto> accepted_cell a)" "cm_TNotify cm = ts_TNotify s"
    "cm_epoll cm = cm_epoll (lp_cm l)"
    "cm_tasks cm = cm_tasks (lp_cm l) @ [cellTask_new\<lparr>ct_event := CHR ''A'', ct_clientid := ac_fd a\<rparr>]"
    using HandleAccept_posts[OF inv assms(5) _ _ assms(6)] assms(4,7) by auto
  have "registering (ac_fd a) cm" using cm(3,5,6) assms(8,9) by (auto simp: registering_def)
  moreover have "cm_TNotify cm \<noteq> None" using cm(4) srv_invD(2)[OF inv] by simp
  ultimately obtain cm' where cm': "handleTask server_callbacks cm = Some (Inr cm')" "cm_tasks cm' = []" "registering (ac_fd a) cm'"
    using sh.handleTask_induct[OF cm(2), of "registering (ac_fd a)"] handleOne_registers by blast
  have "watched (ac_fd a) cm'" using cm'(2,3) by (simp add: registering_def)
  then show ?thesis using cm(1,3) cm'(1) i
    by (intro exI[of _ "s\<lparr>ts_CellManager := (ts_CellManager s)[?i := Live (l\<lparr>lp_cm := cm\<rparr>)]\<rparr>"]
        exI[of _ "l\<lparr>lp_cm := cm\<rparr>"] exI[of _ cm']) (simp add: tcpServer_run_pass_def watched_def)
qed

theorem server_accept_watched_witness:
  "\<exists>s s' l cm. tcpServer_run_pass (WaitEvent 7) demo_accepted (s :: nat server_notify tcpServer) = Inr s'
     \<and> ts_CellManager s' ! 1 = Live l \<and> handleTask server_callbacks (lp_cm l) = Some (Inr cm) \<and> cm_epoll cm 5 \<noteq> None"
proof -
  obtain s where "srv_started count_hub 1 s" and s: "ts_SocketFd s = 7" "length (ts_CellManager s) = 4"
    "ts_CellManager s = map (\<lambda>i. Live (cell_loop_new 3 (Some count_hub) 0)) [0..<4]"
    using srv_demo_listen by blast
  then obtain epfds s0 where s0: "tcpServer_new (Some count_hub) 1 epfds = Inr s0" "srv_reach server_callbacks s0 s" by blast
  let ?l = "cell_loop_new 3 (Some count_hub) 0"
  have l: "lp_cm ?l = cellManager_new 3 (Some count_hub) 0" "cm_epoll (lp_cm ?l) = (\<lambda>_. None)"
    by (simp_all add: cell_loop_new_def cellManager_new_def)
  have a: "ac_fd demo_accepted = 5" by (simp add: demo_accepted_def)
  have un: "fd_unused 5 s" using s(3) by (auto simp: fd_unused_def cell_loop_new_def cm_inv_new(3))
  have "\<exists>s' l' cm. tcpServer_run_pass (WaitEvent (ts_SocketFd s)) demo_accepted s = Inr s'
    \<and> ts_CellManager s' ! (nat (ac_fd demo_accepted) mod length (ts_CellManager s)) = Live l'
    \<and> cm_Cell (lp_cm l') = (cm_Cell (lp_cm ?l))(ac_fd demo_accepted \<mapsto> accepted_cell demo_accepted)
    \<and> handleTask server_callbacks (lp_cm l') = Some (Inr cm)
    \<and> (\<exists>ev. cm_epoll cm (ac_fd demo_accepted) = Some ev \<and> ev AND EPOLLIN \<noteq> 0)"
    by (rule server_accept_watched[OF s0(1) _ s0(2)])
      (use s un l in \<open>simp_all add: a cm_inv_new cm_cap_new\<close>)
  then show ?thesis using s(1,2) by (simp add: a) blast
qed

section \<open>Sending\<close>

lemma conn_list_notify: "conn_list (cm\<lparr>cm_TNotify := h\<rparr>) = conn_list cm"
proof
  show "conn_list (cm\<lparr>cm_TNotify := h\<rparr>) fd = conn_list cm fd" for fd
    by (cases "cm_Cell cm fd") (simp_all add: conn_list_def conn_unsent_def queue_unsent_def cm_tasks_def unsent_def)
qed

text \<open>
  C11: \<open>SendData\<close> on any such state touches only the loop that owns the number.  If this loop has the
  connection and room in its task queue, the message, copied, becomes the last of those on their
  way to the connection; otherwise nothing is queued.  The streams of other connections do not
  change, and the value the caller sees is the same arbitrary \<open>junk\<close> in all cases, so that it
  cannot tell a message lost from a message taken.
\<close>

theorem server_SendData_posts:
  assumes "tcpServer_new (Some hub) cpuN epfds = Inr s0" "0 < cpuN" "srv_reach server_callbacks s0 s"
    and "CurrCellManager fd s = Inr i" "ts_CellManager s ! i = Live l"
    and "0 \<le> len" "len + 1 < 2 ^ 31" "nat len \<le> length p"
  shows "\<exists>s' l'. tcpServer_SendData junk fd p (size_of_int len) s = Inr (junk, s')
    \<and> ts_CellManager s' = (ts_CellManager s)[i := Live l']
    \<and> cm_Cell (lp_cm l') = cm_Cell (lp_cm l) \<and> cm_wire (lp_cm l') = cm_wire (lp_cm l)
    \<and> conn_list (lp_cm l') fd = conn_list (lp_cm l) fd @
        (if cm_Cell (lp_cm l) fd \<noteq> None \<and> length (cm_tasks (lp_cm l)) < srt_cap (cm_cellTask (lp_cm l)) then [take (nat len) p] else [])
    \<and> (\<forall>fd'. fd' \<noteq> fd \<longrightarrow> conn_list (lp_cm l') fd' = conn_list (lp_cm l) fd')"
proof -
  have inv: "srv_inv (\<lambda>m. m \<noteq> None) s" using srv_started_inv[of hub cpuN s] assms(1-3) by blast
  have i: "i < length (ts_CellManager s)"
    using CurrCellManager_ok[OF srv_invD(1)[OF inv], of fd] assms(4) by auto
  have li: "cm_inv (lp_cm l)" using srv_invD(3)[OF inv i] assms(5) by (auto simp: loop_ok_def)
  let ?s = "(lp_cm l)\<lparr>cm_TNotify := ts_TNotify s\<rparr>"
  have same: "conn_list ?s = conn_list (lp_cm l)" by (rule conn_list_notify)
  have len: "int_of_size (size_of_int len) = len" using size_of_int_small(2)[of len] assms(6,7) by simp
  have "\<exists>r cm. sendTask fd p len ?s = Inr (r, cm) \<and> cm_Cell cm = cm_Cell (lp_cm l) \<and> cm_wire cm = cm_wire (lp_cm l)
    \<and> conn_list cm fd = conn_list (lp_cm l) fd @
        (if cm_Cell (lp_cm l) fd \<noteq> None \<and> length (cm_tasks (lp_cm l)) < srt_cap (cm_cellTask (lp_cm l)) then [take (nat len) p] else [])
    \<and> (\<forall>fd'. fd' \<noteq> fd \<longrightarrow> conn_list cm fd' = conn_list (lp_cm l) fd')"
  proof (cases "cm_Cell (lp_cm l) fd = None")
    case True
    then show ?thesis using same by (simp add: sendTask_def)
  next
    case False
    have "cm_inv ?s" using li by simp
    from sendTask_stream[OF this _ assms(6-8), of fd] show ?thesis using False same by (auto simp: cm_tasks_def)
  qed
  then obtain r cm where cm: "sendTask fd p len ?s = Inr (r, cm)" "cm_Cell cm = cm_Cell (lp_cm l)" "cm_wire cm = cm_wire (lp_cm l)"
    "conn_list cm fd = conn_list (lp_cm l) fd @
        (if cm_Cell (lp_cm l) fd \<noteq> None \<and> length (cm_tasks (lp_cm l)) < srt_cap (cm_cellTask (lp_cm l)) then [take (nat len) p] else [])"
    "\<forall>fd'. fd' \<noteq> fd \<longrightarrow> conn_list cm fd' = conn_list (lp_cm l) fd'"
    by blast
  let ?s' = "s\<lparr>ts_CellManager := (ts_CellManager s)[i := Live (l\<lparr>lp_cm := cm\<rparr>)], ts_TNotify := cm_TNotify cm\<rparr>"
  have "tcpServer_SendData junk fd p (size_of_int len) s = Inr (junk, ?s')"
    using on_loop_eq[OF i assms(5), of "sendTask fd p len" r cm] cm(1) assms(4) len by (simp add: tcpServer_SendData_def)
  then show ?thesis using cm(2-5) by (intro exI[of _ ?s'] exI[of _ "l\<lparr>lp_cm := cm\<rparr>"]) simp
qed

theorem server_SendData_posts_witness:
  "\<exists>s s' l l'. tcpServer_SendData 0 5 [1, 2, 3] (size_of_int 2) (s :: nat server_notify tcpServer) = Inr (0, s')
     \<and> ts_CellManager s ! 1 = Live l \<and> ts_CellManager s' ! 1 = Live l' \<and> conn_list (lp_cm l') 5 = conn_list (lp_cm l) 5 @ [[1, 2]]"
proof -
  obtain s l epfds s0 where s: "tcpServer_new (Some count_hub) 1 epfds = Inr s0" "srv_reach server_callbacks s0 s"
    "length (ts_CellManager s) = 4" "ts_CellManager s ! 1 = Live l" "cm_Cell (lp_cm l) = [5 \<mapsto> accepted_cell demo_accepted]"
    "length (cm_tasks (lp_cm l)) < srt_cap (cm_cellTask (lp_cm l))"
    using srv_demo by blast
  have ne: "ts_CellManager s \<noteq> []" using s(3) by (metis list.size(3) zero_neq_numeral)
  have c: "CurrCellManager 5 s = Inr 1" using CurrCellManager_eq[OF ne, of 5] s(3) by simp
  have post: "\<exists>s' l'. tcpServer_SendData 0 5 [1, 2, 3] (size_of_int 2) s = Inr (0, s')
      \<and> ts_CellManager s' = (ts_CellManager s)[1 := Live l'] \<and> cm_Cell (lp_cm l') = cm_Cell (lp_cm l) \<and> cm_wire (lp_cm l') = cm_wire (lp_cm l)
      \<and> conn_list (lp_cm l') 5 = conn_list (lp_cm l) 5 @
          (if cm_Cell (lp_cm l) 5 \<noteq> None \<and> length (cm_tasks (lp_cm l)) < srt_cap (cm_cellTask (lp_cm l)) then [take (nat 2) [1, 2, 3]] else [])
      \<and> (\<forall>fd'. fd' \<noteq> 5 \<longrightarrow> conn_list (lp_cm l') fd' = conn_list (lp_cm l) fd')"
    by (rule server_SendData_posts[OF s(1) _ s(2) c s(4)]) simp_all
  have ok: "cm_Cell (lp_cm l) 5 \<noteq> None \<and> length (cm_tasks (lp_cm l)) < srt_cap (cm_cellTask (lp_cm l))" "take (nat 2) [1, 2, 3] = [1, 2 :: byte]"
    using s(5,6) by (simp_all add: numeral_eq_Suc)
  obtain s' l' where "tcpServer_SendData 0 5 [1, 2, 3] (size_of_int 2) s = Inr (0, s')"
    "ts_CellManager s' = (ts_CellManager s)[1 := Live l']" "conn_list (lp_cm l') 5 = conn_list (lp_cm l) 5 @ [[1, 2]]"
    using post unfolding if_P[OF ok(1)] ok(2) by (elim exE conjE) (rule that)
  then show ?thesis using s(3,4) by (intro exI[of _ s] exI[of _ s'] exI[of _ l] exI[of _ l']) simp
qed

end
