(* ===== verification/Cell_Manager_Recv.thy ===== *)
theory Cell_Manager_Recv
  imports Cell_Manager_Safety
begin

text \<open>
  What \<open>doRecv\<close> delivers.  Whatever the kernel hands over in one event, in however many reads,
  the callback has seen exactly the bytes of the stream in order, and what it did not consume is
  what the connection's buffer holds.  The callback enters as a handler of byte streams; the
  library's \<open>tcp_server_notify\<close> in front of a hub that takes its messages is one.
\<close>

section \<open>The unread bytes of a connection\<close>

definition ce_unread :: "clientCell \<Rightarrow> byte list" where
  "ce_unread c = mem_read (ce_RecvBuf c) (unat (ce_RecvReadPos c)) (unat (ce_RecvWritePos c) - unat (ce_RecvReadPos c))"

lemma ce_unread_new: "ce_unread (clientCell_new fd rb sb ev ip port) = []"
  by (simp add: ce_unread_def clientCell_new_def)

lemma ce_unread_length: "length (ce_unread c) = unat (ce_RecvWritePos c) - unat (ce_RecvReadPos c)"
  by (simp add: ce_unread_def)

text \<open>Moving the read position by what a callback consumed.\<close>

lemma recv_consume:
  fixes R W :: "32 word"
  assumes "unat R \<le> unat W" "unat W \<le> CLIENTCELLRECVBUF" "d \<le> unat W - unat R"
  shows "unat (R + ucast (of_nat d :: 64 word)) = unat R + d"
    "unat (W - (R + ucast (of_nat d :: 64 word))) = unat W - (unat R + d)"
proof -
  have b: "unat R \<le> unat W" "unat W \<le> 1048576" "d \<le> 1048576"
    using assms by (simp_all add: CLIENTCELLRECVBUF_def)
  have d64: "unat (of_nat d :: 64 word) = d" using b(3) by (intro unat_of_nat_small) simp
  have d32: "unat (ucast (of_nat d :: 64 word) :: 32 word) = d"
    using b(3) by (simp only: unsigned_ucast_eq d64) (simp add: take_bit_nat_eq_self)
  show R: "unat (R + ucast (of_nat d :: 64 word)) = unat R + d"
    using d32 b assms(3) by (subst unat_add_small) simp_all
  show "unat (W - (R + ucast (of_nat d :: 64 word))) = unat W - (unat R + d)"
    using R b assms(3) by (subst unat_sub) (simp_all add: word_le_nat_alt)
qed

section \<open>A callback that handles streams\<close>

locale connection_handler = stream_handler on_recv SYSRECVBUF ready absorb
  for on_recv :: "32 word \<Rightarrow> 'h \<Rightarrow> byte list \<Rightarrow> (64 word \<times> 'h) outcome"
    and ready :: "32 word \<Rightarrow> 'h \<Rightarrow> bool"
    and absorb :: "32 word \<Rightarrow> 'h \<Rightarrow> byte list \<Rightarrow> 'h \<times> byte list" +
  fixes n :: "'h tNotify"
  assumes recv_is: "OnRecvData n h k (Some bs) = on_recv k h bs"
    and error_quiet: "OnError n h k e = h"
begin

lemma recv_round_stream:
  assumes ci: "ce_inv c" and r: "ready (word_of_int (ce_ClientFd c)) h"
    and bs: "bs \<noteq> []" "unat (ce_RecvWritePos c) + length bs \<le> SYSRECVBUF"
    and ab: "absorb (word_of_int (ce_ClientFd c)) h (ce_unread c @ bs) = (h', u')"
  shows "\<exists>c'. recv_round n bs c h = Inr (c', h') \<and> ce_inv c' \<and> ce_unread c' = u'
    \<and> ce_ClientFd c' = ce_ClientFd c \<and> ce_pending c' = ce_pending c"
proof -
  let ?R = "ce_RecvReadPos c" and ?W = "ce_RecvWritePos c" and ?k = "word_of_int (ce_ClientFd c) :: 32 word"
  let ?all = "ce_unread c @ bs"
  define W1 where "W1 = ?W + of_nat (length bs)"
  define m1 where "m1 = mem_write (ce_RecvBuf c) (unat ?W) bs"
  have b: "unat ?R \<le> unat ?W" "unat ?W \<le> CLIENTCELLRECVBUF" using ci by (simp_all add: ce_inv_def)
  have full: "unat ?W + length bs \<le> CLIENTCELLRECVBUF" using bs(2) by (simp add: SYSRECVBUF_def CLIENTCELLRECVBUF_def)
  note pos = recv_positions[OF b full, folded W1_def]
  have view: "mem_read m1 (unat ?R) (unat (W1 - ?R)) = ?all"
    using mem_read_write_after[OF b(1), of "ce_RecvBuf c" bs] b(1) by (simp add: pos(2) m1_def ce_unread_def)
  have len: "length ?all = unat W1 - unat ?R" using pos(1) b(1) by (simp add: ce_unread_length)
  define d where "d = length ?all - length u'"
  have u': "length u' \<le> length ?all" "u' = drop d ?all"
    using length_absorb[of ?k h ?all] absorb_drop[of ?k h ?all] ab by (simp_all add: d_def)
  have lim: "length ?all \<le> SYSRECVBUF" using bs(2) b(1) by (simp add: ce_unread_length)
  have call: "OnRecvData n h ?k (Some ?all) = Inr (of_nat d, h')"
    using recv_absorb[OF r _ lim] bs(1) by (simp add: recv_is ab d_def)
  define R1 where "R1 = ?R + (ucast (of_nat d :: 64 word) :: 32 word)"
  have W1: "unat W1 \<le> CLIENTCELLRECVBUF" "unat ?R \<le> unat W1" using pos(1) full b(1) by simp_all
  have dle: "d \<le> unat W1 - unat ?R" using len by (simp add: d_def)
  note con = recv_consume[OF W1(2) W1(1) dle, folded R1_def]
  have le: "W1 \<le> R1 \<longleftrightarrow> u' = []"
    using con(1) len u'(2) dle W1(2) by (auto simp: word_le_nat_alt)
  have mc: "memcpy_ok 0 (unat R1) (unat W1 - unat R1)" if "SYSRECVBUF div 2 \<le> unat R1"
    using that W1 by (simp add: memcpy_ok_def SYSRECVBUF_def CLIENTCELLRECVBUF_def) linarith
  have rest: "unat ?R + (unat (W1 - ?R)) \<le> CLIENTCELLRECVBUF" "unat R1 + (unat W1 - unat R1) \<le> CLIENTCELLRECVBUF"
    "unat (W1 - R1) = unat W1 - unat R1"
    using con pos W1 b(1) dle by simp_all
  have tail: "mem_read m1 (unat R1) (unat W1 - unat R1) = u'"
  proof -
    have "mem_read m1 (unat ?R) (unat W1 - unat ?R) = ?all"
      using view pos(1,2) b(1) by simp
    then have "drop d (mem_read m1 (unat ?R) (unat W1 - unat ?R)) = u'" using u'(2) by simp
    then show ?thesis by (simp add: drop_mem_read con(1))
  qed
  let ?c2 = "c\<lparr>ce_RecvBuf := m1, ce_RecvWritePos := W1, ce_RecvReadPos := R1\<rparr>"
  let ?c' = "if W1 \<le> R1 then ?c2\<lparr>ce_RecvReadPos := 0, ce_RecvWritePos := 0\<rparr>
    else if SYSRECVBUF div 2 \<le> unat R1 then
      ?c2\<lparr>ce_RecvBuf := mem_copy m1 0 (unat R1) (unat (W1 - R1)), ce_RecvWritePos := W1 - R1, ce_RecvReadPos := 0\<rparr>
    else ?c2"
  have "recv_round n bs c h = Inr (?c', h')"
    using full rest call mc view
    by (simp add: recv_round_def Let_def W1_def[symmetric] m1_def[symmetric] R1_def[symmetric])
  moreover have "ce_inv ?c'"
    using ci W1 con dle rest by (auto simp: ce_inv_def SYSRECVBUF_def CLIENTCELLRECVBUF_def)
  moreover have "ce_unread ?c' = u'"
    using tail le by (auto simp: ce_unread_def rest(3) mem_read_copy)
  moreover have "ce_pending ?c' = ce_pending c" "ce_ClientFd ?c' = ce_ClientFd c" by (simp_all add: ce_pending_def)
  ultimately show ?thesis by blast
qed

text \<open>
  A run of the loop: the bytes it read are \<open>B\<close>, and the callback and the buffer are what offering
  all of them at once would leave.  The loop only stays in \<open>read\<close> when there is nothing more to
  read, and reports a full buffer only when more than half of it is unread.
\<close>

lemma recv_loop_stream:
  assumes "ce_inv c" "k = word_of_int (ce_ClientFd c)" "ready k h" "absorb k h (ce_unread c) = (h, ce_unread c)"
  shows "\<exists>ex c' script' B. recv_loop n c h script = Inr (ex, c', fst (absorb k h (ce_unread c @ B)), script')
    \<and> ce_unread c' = snd (absorb k h (ce_unread c @ B)) \<and> script_bytes script = B @ script_bytes script'
    \<and> ce_inv c' \<and> ce_ClientFd c' = ce_ClientFd c \<and> ce_pending c' = ce_pending c
    \<and> (ex = RecvLooping \<longrightarrow> script' = []) \<and> (ex = RecvDone (- 2) \<longrightarrow> SYSRECVBUF div 2 < length (ce_unread c'))"
    (is "\<exists>ex c' script' B. ?P c h script ex c' script' B")
  using assms
proof (induction "script_size script" arbitrary: script c h rule: less_induct)
  case less
  note idle = less.prems(4)
  let ?room = "SYSRECVBUF - unat (ce_RecvWritePos c)"
  have stay: "?P c h script ex c script' []"
    if "recv_loop n c h script = Inr (ex, c, h, script')" "script_bytes script = script_bytes script'"
      "ex = RecvLooping \<longrightarrow> script' = []" "ex \<noteq> RecvDone (- 2)" for ex script'
    using that less.prems by simp
  show ?case
  proof (cases "unat (ce_RecvWritePos c) < SYSRECVBUF")
    case False
    then show ?thesis using stay[of "RecvDone 0" script] by (auto simp: recv_loop.simps[of n c h script])
  next
    case room: True
    show ?thesis
    proof (cases "sys_read ?room script")
      case None
      then have "script = []" by (cases "(?room, script)" rule: sys_read.cases) auto
      moreover have "recv_loop n c h script = Inr (RecvLooping, c, h, script)"
        using None room by (simp add: recv_loop.simps[of n c h script])
      ultimately have "?P c h script RecvLooping c script []" by (intro stay) simp_all
      then show ?thesis by blast
    next
      case (Some rs)
      obtain r script' where rs: "rs = (r, script')" by (cases rs)
      have smaller: "script_size script' < script_size script"
        using sys_read_smaller[of ?room script r script'] Some rs room by simp
      show ?thesis
      proof (cases r)
        case (ReadErr e)
        have bytes: "script_bytes script = script_bytes script'"
          using sys_read_err[of ?room script e script'] Some rs ReadErr by simp
        show ?thesis
        proof (cases "e = EINTR \<or> e = EAGAIN")
          case True
          then have "recv_loop n c h script = recv_loop n c h script'"
            using room Some rs ReadErr by (simp add: recv_loop.simps[of n c h script])
          with less.hyps[OF smaller less.prems] bytes show ?thesis by simp
        next
          case False
          then show ?thesis
            using stay[of "RecvDone (- 1)" script'] bytes room Some rs ReadErr
            by (auto simp: recv_loop.simps[of n c h script])
        qed
      next
        case (ReadData bs)
        have bytes: "script_bytes script = bs @ script_bytes script'" "length bs \<le> ?room"
          using sys_read_bytes[of ?room script bs script'] Some rs ReadData by simp_all
        show ?thesis
        proof (cases "bs = []")
          case True
          then show ?thesis
            using stay[of "RecvDone (- 1)" script'] bytes room Some rs ReadData
            by (auto simp: recv_loop.simps[of n c h script])
        next
          case ne: False
          obtain h1 u1 where ab: "absorb k h (ce_unread c @ bs) = (h1, u1)" by fastforce
          have fits: "unat (ce_RecvWritePos c) + length bs \<le> SYSRECVBUF" using bytes(2) room by simp
          obtain c1 where c1: "recv_round n bs c h = Inr (c1, h1)" "ce_inv c1" "ce_unread c1 = u1"
            "ce_ClientFd c1 = ce_ClientFd c" "ce_pending c1 = ce_pending c"
            using recv_round_stream[OF less.prems(1) _ ne fits] less.prems(2,3) ab by blast
          have r1: "ready k h1" using absorb_ready[OF less.prems(3)] ab by (metis fst_conv)
          have idle1: "absorb k h1 (ce_unread c1) = (h1, ce_unread c1)"
            using absorb_idle[OF less.prems(3), of "ce_unread c @ bs"] ab c1(3) by simp
          have step: "absorb k h (ce_unread c @ bs @ B) = absorb k h1 (ce_unread c1 @ B)" for B
            using absorb_append[OF less.prems(3), of "ce_unread c @ bs" B] ab c1(3) by simp
          have now: "?P c h script ex c1 script' bs"
            if "recv_loop n c h script = Inr (ex, c1, h1, script')" "ex \<noteq> RecvLooping"
              "ex = RecvDone (- 2) \<longrightarrow> SYSRECVBUF div 2 < length (ce_unread c1)" for ex
            using that ab c1 bytes by simp
          have round: "recv_loop n c h script =
              (if unat (ce_RecvWritePos c1) \<ge> SYSRECVBUF then Inr (RecvDone (- 2), c1, h1, script')
               else if length bs < ?room then Inr (RecvDone 0, c1, h1, script')
               else recv_loop n c1 h1 script')"
            using room Some rs ReadData ne c1(1) by (simp add: recv_loop.simps[of n c h script] error_quiet)
          show ?thesis
          proof (cases "unat (ce_RecvWritePos c1) \<ge> SYSRECVBUF")
            case True
            have "SYSRECVBUF div 2 < length (ce_unread c1)"
              using True c1(2) by (auto simp: ce_unread_length ce_inv_def SYSRECVBUF_def CLIENTCELLRECVBUF_def)
            then show ?thesis using now[of "RecvDone (- 2)"] round True by auto
          next
            case notfull: False
            show ?thesis
            proof (cases "length bs < ?room")
              case True
              then show ?thesis using now[of "RecvDone 0"] round notfull by auto
            next
              case False
              have k1: "k = word_of_int (ce_ClientFd c1)" using less.prems(2) c1(4) by simp
              from less.hyps[OF smaller c1(2) k1 r1 idle1] obtain ex c' script'' B where
                "?P c1 h1 script' ex c' script'' B" by blast
              then have "?P c h script ex c' script'' (bs @ B)"
                using round notfull False bytes(1) step c1(4,5) by auto
              then show ?thesis by blast
            qed
          qed
        qed
      qed
    qed
  qed
qed

text \<open>One short read, as an event with less data than the buffer has room for brings it.\<close>

lemma recv_loop_once:
  assumes "ce_inv c" "k = word_of_int (ce_ClientFd c)" "ready k h" "bs \<noteq> []"
    and "length (ce_unread c) + length bs \<le> SYSRECVBUF div 2"
    and ab: "absorb k h (ce_unread c @ bs) = (h', u')"
  shows "\<exists>c'. recv_loop n c h [ReadData bs] = Inr (RecvDone 0, c', h', []) \<and> ce_inv c' \<and> ce_unread c' = u'
    \<and> ce_ClientFd c' = ce_ClientFd c \<and> ce_pending c' = ce_pending c"
proof -
  have W: "unat (ce_RecvWritePos c) + length bs < SYSRECVBUF"
    using assms(1,5) by (auto simp: ce_inv_def ce_unread_length SYSRECVBUF_def CLIENTCELLRECVBUF_def)
  obtain c' where c': "recv_round n bs c h = Inr (c', h')" "ce_inv c'" "ce_unread c' = u'"
    "ce_ClientFd c' = ce_ClientFd c" "ce_pending c' = ce_pending c"
    using recv_round_stream[OF assms(1) assms(3)[unfolded assms(2)] assms(4) less_imp_le[OF W] ab[unfolded assms(2)]]
    by blast
  have "length u' \<le> SYSRECVBUF div 2"
    using length_absorb[of k h "ce_unread c @ bs"] ab assms(5) by simp
  then have "unat (ce_RecvWritePos c') < SYSRECVBUF"
    using c'(2) unfolding c'(3)[symmetric] ce_unread_length ce_inv_def SYSRECVBUF_def CLIENTCELLRECVBUF_def by linarith
  moreover have "length bs < SYSRECVBUF - unat (ce_RecvWritePos c)" using W by linarith
  then have "recv_loop n c h [ReadData bs] =
      (if unat (ce_RecvWritePos c') \<ge> SYSRECVBUF then Inr (RecvDone (- 2), c', h', []) else Inr (RecvDone 0, c', h', []))"
    using W c'(1) assms(4)
    by (simp add: recv_loop.simps[of n c h "[ReadData bs]"] error_quiet Let_def)
  ultimately show ?thesis using c'(2-) by simp
qed

lemma doRecv_stream:
  assumes inv: "cm_inv s" and c: "cm_Cell s fd = Some c" and k: "k = word_of_int fd" and r: "ready k (cm_TNotify s)"
    and idle: "absorb k (cm_TNotify s) (ce_unread c) = (cm_TNotify s, ce_unread c)"
  shows "\<exists>ex s' script' c' B. doRecv n fd script s = Inr (ex, s', script') \<and> script_bytes script = B @ script_bytes script'
    \<and> cm_Cell s' = (cm_Cell s)(fd \<mapsto> c') \<and> ce_unread c' = snd (absorb k (cm_TNotify s) (ce_unread c @ B))
    \<and> cm_TNotify s' = fst (absorb k (cm_TNotify s) (ce_unread c @ B)) \<and> cm_inv s'
    \<and> (ex = RecvLooping \<longrightarrow> script' = []) \<and> (ex = RecvDone (- 2) \<longrightarrow> SYSRECVBUF div 2 < length (ce_unread c'))"
proof -
  have ok: "cell_ok fd c" by (rule cm_invD(3)[OF inv c])
  then have fd: "ce_ClientFd c = fd" and ci: "ce_inv c" by (simp_all add: cell_ok_def)
  obtain ex c' script' B where l: "recv_loop n c (cm_TNotify s) script =
      Inr (ex, c', fst (absorb k (cm_TNotify s) (ce_unread c @ B)), script')"
    "ce_unread c' = snd (absorb k (cm_TNotify s) (ce_unread c @ B))" "script_bytes script = B @ script_bytes script'"
    "ce_inv c'" "ce_ClientFd c' = fd" "ce_pending c' = ce_pending c"
    "ex = RecvLooping \<longrightarrow> script' = []" "ex = RecvDone (- 2) \<longrightarrow> SYSRECVBUF div 2 < length (ce_unread c')"
    using recv_loop_stream[OF ci _ r idle, of script] k fd by blast
  let ?s = "s\<lparr>cm_Cell := (cm_Cell s)(fd \<mapsto> c'), cm_TNotify := fst (absorb k (cm_TNotify s) (ce_unread c @ B))\<rparr>"
  have "cell_ok fd c'" "cell_addrs c' = cell_addrs c"
    using ok l(4-6) by (simp_all add: cell_ok_def cell_addrs_def)
  then have inv': "cm_inv ?s" using cm_inv_cell[OF inv c] by simp
  obtain b s2 where "delTask fd ?s = Inr s2" "cm_inv s2" "cm_Cell s2 = cm_Cell ?s" "cm_TNotify s2 = cm_TNotify ?s"
    using delTask_ok[OF inv', of fd] by blast
  with l inv' c show ?thesis by (cases "ex = RecvDone (- 1)") (auto simp: doRecv_def Let_def)
qed

end

section \<open>Events that bring data\<close>

definition recv_event :: "int \<Rightarrow> byte list \<Rightarrow> io_event" where
  "recv_event fd bs = \<lparr>ev_fd = fd, ev_events = EPOLLIN, ev_reads = [ReadData bs], ev_writes = (\<lambda>_. WriteOk 0)\<rparr>"

lemma doEvent_recv_event:
  "doEvent n (recv_event fd bs) s = obind (doRecv n fd [ReadData bs] s) (\<lambda>(ex, s1, script). Inr (ex, s1))"
proof -
  have "EPOLLIN AND (EPOLLHUP OR EPOLLERR OR EPOLLRDHUP) = 0" "EPOLLIN AND EPOLLIN \<noteq> 0" "EPOLLIN AND EPOLLOUT = 0"
    by (simp_all add: EPOLLIN_def EPOLLHUP_def EPOLLERR_def EPOLLRDHUP_def EPOLLOUT_def)
  then show ?thesis
    by (cases "doRecv n fd [ReadData bs] s") (auto simp: doEvent_def recv_event_def)
qed

text \<open>
  Segments none of which, with the incomplete message before it, is more than half of the
  buffer; \<open>rest\<close> is what a message cutter leaves.
\<close>

fun segments_fit :: "(byte list \<Rightarrow> byte list) \<Rightarrow> byte list \<Rightarrow> byte list list \<Rightarrow> bool" where
  "segments_fit rest u [] = True"
| "segments_fit rest u (b # bs) =
    (b \<noteq> [] \<and> length u + length b \<le> SYSRECVBUF div 2 \<and> segments_fit rest (rest (u @ b)) bs)"

context connection_handler
begin

lemma doEvents_segments:
  assumes "cm_inv s" "cm_Cell s fd = Some c" "k = word_of_int fd" "ready k (cm_TNotify s)"
    and "absorb k (cm_TNotify s) (ce_unread c) = (cm_TNotify s, ce_unread c)"
    and rest: "\<And>h b. ready k h \<Longrightarrow> snd (absorb k h b) = rest b" and "segments_fit rest (ce_unread c) bs"
  shows "\<exists>s' c'. doEvents n (map (recv_event fd) bs) s = Inr (True, s') \<and> cm_inv s' \<and> cm_Cell s' = (cm_Cell s)(fd \<mapsto> c')
    \<and> ce_unread c' = snd (absorb k (cm_TNotify s) (ce_unread c @ concat bs))
    \<and> cm_TNotify s' = fst (absorb k (cm_TNotify s) (ce_unread c @ concat bs)) \<and> cm_cellTask s' = cm_cellTask s"
  using assms(1-5,7)
proof (induction bs arbitrary: s c)
  case Nil
  then show ?case by (auto intro!: exI[of _ c])
next
  case (Cons b bs)
  let ?h = "cm_TNotify s"
  obtain h1 u1 where ab: "absorb k ?h (ce_unread c @ b) = (h1, u1)" by fastforce
  have ok: "cell_ok fd c" by (rule cm_invD(3)[OF Cons.prems(1,2)])
  then have fd: "ce_ClientFd c = fd" and ci: "ce_inv c" by (simp_all add: cell_ok_def)
  have fits: "b \<noteq> []" "length (ce_unread c) + length b \<le> SYSRECVBUF div 2"
    "segments_fit rest (rest (ce_unread c @ b)) bs" using Cons.prems(6) by simp_all
  obtain c1 where c1: "recv_loop n c ?h [ReadData b] = Inr (RecvDone 0, c1, h1, [])" "ce_inv c1" "ce_unread c1 = u1"
    "ce_ClientFd c1 = fd" "ce_pending c1 = ce_pending c"
    using recv_loop_once[OF ci _ Cons.prems(4) fits(1,2) ab] Cons.prems(3) fd by blast
  let ?s = "s\<lparr>cm_Cell := (cm_Cell s)(fd \<mapsto> c1), cm_TNotify := h1\<rparr>"
  have "cell_ok fd c1" "cell_addrs c1 = cell_addrs c" using ok c1 by (simp_all add: cell_ok_def cell_addrs_def)
  then have inv1: "cm_inv ?s" using cm_inv_cell[OF Cons.prems(1,2)] by simp
  have r1: "ready k h1" using absorb_ready[OF Cons.prems(4)] ab by (metis fst_conv)
  have idle1: "absorb k h1 u1 = (h1, u1)" using absorb_idle[OF Cons.prems(4), of "ce_unread c @ b"] ab by simp
  have step: "absorb k ?h (ce_unread c @ b @ concat bs) = absorb k h1 (u1 @ concat bs)"
    using absorb_append[OF Cons.prems(4), of "ce_unread c @ b" "concat bs"] ab by simp
  have u1: "u1 = rest (ce_unread c @ b)" using rest[OF Cons.prems(4), of "ce_unread c @ b"] ab by simp
  have "doEvent n (recv_event fd b) s = Inr (RecvDone 0, ?s)"
    using c1(1) Cons.prems(2) by (simp add: doEvent_recv_event doRecv_def Let_def)
  moreover have "cm_Cell ?s fd = Some c1" "ready k (cm_TNotify ?s)" "segments_fit rest (ce_unread c1) bs"
    "absorb k (cm_TNotify ?s) (ce_unread c1) = (cm_TNotify ?s, ce_unread c1)"
    using r1 idle1 c1(3) fits(3) u1 by simp_all
  from Cons.IH[OF inv1 this(1) Cons.prems(3) this(2,4,3)] obtain s' c' where
    s': "doEvents n (map (recv_event fd) bs) ?s = Inr (True, s')" "cm_inv s'" "cm_Cell s' = (cm_Cell ?s)(fd \<mapsto> c')"
      "ce_unread c' = snd (absorb k (cm_TNotify ?s) (ce_unread c1 @ concat bs))"
      "cm_TNotify s' = fst (absorb k (cm_TNotify ?s) (ce_unread c1 @ concat bs))" "cm_cellTask s' = cm_cellTask ?s"
    by blast
  ultimately show ?case using step c1(3) by (intro exI[of _ s'] exI[of _ c']) simp
qed

end

section \<open>The server with the notify class of the library\<close>

interpretation sc: connection_handler "\<lambda>clientid mdpt bs. server_OnRecvData mdpt clientid (Some bs)"
  server_ready server_absorb server_callbacks
  by unfold_locales (simp_all add: server_callbacks_def)

lemma server_absorb_hub:
  "server_absorb k (Some hub) bs = (Some (snd (hub_feed hub k (fst (cut_frames bs)))), snd (cut_frames bs))"
  by (simp add: server_absorb_def)

lemma server_absorb_idle: "\<not> complete_front u \<Longrightarrow> server_absorb k (Some hub) u = (Some hub, u)"
  by (simp add: server_absorb_hub cut_frames_stop)

text \<open>
  What the server receives is the byte stream, cut into messages.  For any answers of the
  kernel to the reads of one event (any segments, errors, the end of the stream), \<open>doRecv\<close>
  returns or waits for more, having read some bytes \<open>B\<close>; the application's hub has then been
  given exactly the messages that are complete in the unread bytes followed by \<open>B\<close>, each once
  and in order, and the incomplete rest is what the connection's buffer holds.
\<close>

lemma server_doRecv_stream:
  assumes "cm_inv s" "cm_Cell s fd = Some c" "cm_TNotify s = Some hub" "hub_accepts hub"
    and "word_of_int fd \<noteq> (0 :: 32 word)" "\<not> complete_front (ce_unread c)"
  shows "\<exists>ex s' script' c' B. doRecv server_callbacks fd script s = Inr (ex, s', script')
    \<and> script_bytes script = B @ script_bytes script' \<and> (ex = RecvLooping \<longrightarrow> script' = [])
    \<and> (ex = RecvDone (- 2) \<longrightarrow> SYSRECVBUF div 2 < length (ce_unread c'))
    \<and> cm_Cell s' = (cm_Cell s)(fd \<mapsto> c') \<and> ce_unread c' = snd (cut_frames (ce_unread c @ B))
    \<and> cm_TNotify s' = Some (snd (hub_feed hub (word_of_int fd) (fst (cut_frames (ce_unread c @ B)))))"
proof -
  have "server_ready (word_of_int fd) (cm_TNotify s)"
    "server_absorb (word_of_int fd) (cm_TNotify s) (ce_unread c) = (cm_TNotify s, ce_unread c)"
    using assms(3-6) server_absorb_idle by (auto simp: server_ready_def)
  from sc.doRecv_stream[OF assms(1,2) refl this, of script, unfolded assms(3) server_absorb_hub fst_conv snd_conv]
  show ?thesis by blast
qed

lemma count_hub_accepts: "hub_accepts count_hub"
  by (simp add: hub_accepts_def count_hub_def)

text \<open>The state of \<open>cm_demo_accept\<close> with what the theorems of this theory ask of it.\<close>

lemma cm_demo_recv:
  "\<exists>s c. cm_inv s \<and> cm_Cell s 5 = Some c \<and> cm_TNotify s = Some count_hub \<and> ce_unread c = []
     \<and> ce_RecvReadPos c = 0 \<and> ce_RecvWritePos c = 0"
proof -
  obtain s where s: "cm_reach server_callbacks (cellManager_new 3 (Some count_hub) 0) s"
    "cm_Cell s = [5 \<mapsto> clientCell_new 5 (\<lambda>_. 0) (\<lambda>_. None) 0 ''peer'' 80]" "cm_TNotify s = Some count_hub"
    using cm_demo_accept by blast
  then have "cm_inv s" using cm_started_inv(1) by blast
  with s(2,3) show ?thesis
    by (intro exI[of _ s] exI[of _ "clientCell_new 5 (\<lambda>_. 0) (\<lambda>_. None) 0 ''peer'' 80"])
      (simp add: ce_unread_new, simp add: clientCell_new_def)
qed

lemma server_doRecv_stream_example:
  "\<exists>ex s s' script' B. doRecv server_callbacks 5 [ReadErr EINTR, ReadData (encode_frame frame_a)] s = Inr (ex, s', script')
     \<and> encode_frame frame_a = B @ script_bytes script'
     \<and> cm_TNotify s' = Some (snd (hub_feed count_hub 5 (fst (cut_frames B))))"
proof -
  obtain s c where s: "cm_inv s" "cm_Cell s 5 = Some c" "cm_TNotify s = Some count_hub" "ce_unread c = []"
    using cm_demo_recv by blast
  have "\<not> complete_front (ce_unread c)" by (simp add: s(4) complete_front_def)
  then have nf: "\<not> complete_front (ce_unread c)" by (simp add: s(4))
  have k: "word_of_int 5 = (5 :: 32 word)" "word_of_int 5 \<noteq> (0 :: 32 word)" by simp_all
  obtain ex s' script' c' B where "doRecv server_callbacks 5 [ReadErr EINTR, ReadData (encode_frame frame_a)] s = Inr (ex, s', script')"
    "script_bytes [ReadErr EINTR, ReadData (encode_frame frame_a)] = B @ script_bytes script'"
    "cm_TNotify s' = Some (snd (hub_feed count_hub (word_of_int 5) (fst (cut_frames (ce_unread c @ B)))))"
    using server_doRecv_stream[OF s(1-3) count_hub_accepts k(2) nf, of "[ReadErr EINTR, ReadData (encode_frame frame_a)]"]
    by blast
  then show ?thesis unfolding s(4) k(1) script_bytes.simps append_Nil append_Nil2 by blast
qed

text \<open>The events of one connection, each with one segment of a sequence of messages.\<close>

lemma doEvents_frames:
  assumes "cm_inv s" "cm_Cell s fd = Some c" "cm_TNotify s = Some hub" "hub_accepts hub"
    and "word_of_int fd \<noteq> (0 :: 32 word)" "ce_unread c = []"
    and "\<forall>m\<in>set ms. frame_ok m" "concat bs = concat (map encode_frame ms)"
    and "segments_fit (\<lambda>b. snd (cut_frames b)) [] bs"
  shows "\<exists>s' c'. doEvents server_callbacks (map (recv_event fd) bs) s = Inr (True, s')
    \<and> cm_TNotify s' = Some (snd (hub_feed hub (word_of_int fd) ms))
    \<and> cm_Cell s' = (cm_Cell s)(fd \<mapsto> c') \<and> ce_unread c' = [] \<and> cm_cellTask s' = cm_cellTask s"
proof -
  have none: "\<not> complete_front []" by (simp add: complete_front_def)
  have cut: "cut_frames (concat bs) = (ms, [])"
    using cut_frames_encode[OF assms(7) none] assms(8) by simp
  have rest: "snd (server_absorb k h b) = snd (cut_frames b)" if "server_ready k h"
    for k and h :: "'a server_notify" and b
    using that by (auto simp: server_ready_def server_absorb_hub)
  have "server_ready (word_of_int fd) (cm_TNotify s)"
    "server_absorb (word_of_int fd) (cm_TNotify s) (ce_unread c) = (cm_TNotify s, ce_unread c)"
    "segments_fit (\<lambda>b. snd (cut_frames b)) (ce_unread c) bs"
    using assms(3-6,9) server_absorb_idle none by (auto simp: server_ready_def)
  from sc.doEvents_segments[OF assms(1,2) refl this(1,2) rest this(3), unfolded assms(3,6) server_absorb_hub]
  show ?thesis by (simp add: cut) blast
qed

section \<open>When the loop does not deliver\<close>

text \<open>
  \<open>doRecv\<close> waits actively.  While the socket answers \<open>EAGAIN\<close> or \<open>EINTR\<close>, as a non-blocking
  socket without data does, the loop reads again: after any number of such answers it has not
  returned, nothing has changed, and the thread handles no other connection.
\<close>

lemma doRecv_spins:
  assumes "cm_Cell s fd = Some c" "unat (ce_RecvWritePos c) < SYSRECVBUF" "\<forall>e\<in>set es. e = EAGAIN \<or> e = EINTR"
  shows "doRecv n fd (map ReadErr es) s = Inr (RecvLooping, s, [])"
proof -
  have "recv_loop n c (cm_TNotify s) (map ReadErr es) = Inr (RecvLooping, c, cm_TNotify s, [])"
    using assms(3)
  proof (induction es)
    case Nil
    then show ?case using assms(2) by (simp add: recv_loop.simps[of n c "cm_TNotify s" "[]"])
  next
    case (Cons e es)
    then show ?case
      using assms(2) by (auto simp: recv_loop.simps[of n c "cm_TNotify s" "ReadErr e # map ReadErr es"])
  qed
  moreover have "s\<lparr>cm_Cell := (cm_Cell s)(fd \<mapsto> c), cm_TNotify := cm_TNotify s\<rparr> = s"
    using assms(1) by (cases s) (simp add: fun_upd_idem)
  ultimately show ?thesis using assms(1) by (simp add: doRecv_def Let_def)
qed

lemma doRecv_spins_example:
  "\<exists>s :: nat server_notify cellManager. doRecv server_callbacks 5 (replicate 1000 (ReadErr EAGAIN)) s = Inr (RecvLooping, s, [])"
proof -
  obtain s :: "nat server_notify cellManager" and c where s: "cm_Cell s 5 = Some c" "ce_RecvWritePos c = 0"
    using cm_demo_recv by metis
  have "doRecv server_callbacks 5 (map ReadErr (replicate 1000 EAGAIN)) s = Inr (RecvLooping, s, [])"
    by (rule doRecv_spins[OF s(1)]) (simp_all add: s(2) SYSRECVBUF_def)
  then show ?thesis unfolding map_replicate by blast
qed

lemma doRecv_full:
  assumes "cm_Cell s fd = Some c" "SYSRECVBUF \<le> unat (ce_RecvWritePos c)"
  shows "doRecv n fd script s = Inr (RecvDone 0, s, script)"
proof -
  have "s\<lparr>cm_Cell := (cm_Cell s)(fd \<mapsto> c), cm_TNotify := cm_TNotify s\<rparr> = s"
    using assms(1) by (cases s) (simp add: fun_upd_idem)
  then show ?thesis using assms by (simp add: doRecv_def recv_loop.simps[of n c] Let_def)
qed

lemma doEvents_full:
  assumes "cm_Cell s fd = Some c" "SYSRECVBUF \<le> unat (ce_RecvWritePos c)"
  shows "doEvents n (map (recv_event fd) later) s = Inr (True, s)"
proof (induction later)
  case (Cons b later)
  then show ?case using doRecv_full[OF assms] by (simp add: doEvent_recv_event)
qed simp

text \<open>
  C32: a message that does not fit the receive buffer ends what a connection receives, without
  closing it.  When a message longer than the buffer arrives on an empty buffer, \<open>doRecv\<close> reports
  the full buffer once through \<open>OnError\<close>; no message has been delivered, no task to close the
  connection is posted, and whatever arrives afterwards is not read: every later event leaves
  the state as it is.
\<close>

theorem server_oversized_message_blocks:
  assumes "cm_inv s" "cm_Cell s fd = Some c" "cm_TNotify s = Some hub" "hub_accepts hub"
    and "word_of_int fd \<noteq> (0 :: 32 word)" "ce_RecvReadPos c = 0" "ce_RecvWritePos c = 0"
    and "frame_ok m" "SYSRECVBUF < length (encode_frame m)"
  shows "\<exists>s' c'. doRecv server_callbacks fd [ReadData (take SYSRECVBUF (encode_frame m))] s = Inr (RecvDone (- 2), s', [])
    \<and> cm_TNotify s' = Some hub \<and> cm_Cell s' = (cm_Cell s)(fd \<mapsto> c') \<and> cm_cellTask s' = cm_cellTask s
    \<and> (\<forall>later. doEvents server_callbacks (map (recv_event fd) later) s' = Inr (True, s'))"
proof -
  let ?bs = "take SYSRECVBUF (encode_frame m)"
  have len: "length ?bs = SYSRECVBUF" using assms(9) by simp
  have ok: "cell_ok fd c" by (rule cm_invD(3)[OF assms(1,2)])
  then have fd: "ce_ClientFd c = fd" and ci: "ce_inv c" by (simp_all add: cell_ok_def)
  have u: "ce_unread c = []" using assms(6,7) by (simp add: ce_unread_def)
  have ready: "server_ready (word_of_int (ce_ClientFd c)) (Some hub)" using assms(4,5) fd by (auto simp: server_ready_def)
  have ne: "?bs \<noteq> []" using len by (metis list.size(3) SYSRECVBUF_def zero_neq_numeral mult_eq_0_iff)
  have ab: "server_absorb (word_of_int (ce_ClientFd c)) (Some hub) (ce_unread c @ ?bs) = (Some hub, ?bs)"
    using server_absorb_idle[OF partial_not_complete[OF assms(8,9)]] by (simp add: u)
  have fits: "unat (ce_RecvWritePos c) + length ?bs \<le> SYSRECVBUF" using len assms(7) by simp
  from sc.recv_round_stream[OF ci ready ne fits ab] obtain c' where
    c': "recv_round server_callbacks ?bs c (Some hub) = Inr (c', Some hub)" "ce_inv c'" "ce_unread c' = ?bs" by blast
  have full: "SYSRECVBUF \<le> unat (ce_RecvWritePos c')"
    using ce_unread_length[of c'] c'(3) len by simp
  let ?s = "s\<lparr>cm_Cell := (cm_Cell s)(fd \<mapsto> c'), cm_TNotify := Some hub\<rparr>"
  have pos: "0 < SYSRECVBUF" by (simp add: SYSRECVBUF_def)
  have "recv_loop server_callbacks c (Some hub) [ReadData ?bs] = Inr (RecvDone (- 2), c', Some hub, [])"
    using c'(1) full ne len assms(7) pos
    by (simp add: recv_loop.simps[of server_callbacks c "Some hub" "[ReadData ?bs]"] sc.error_quiet Let_def)
  then have "doRecv server_callbacks fd [ReadData ?bs] s = Inr (RecvDone (- 2), ?s, [])"
    using assms(2,3) by (simp add: doRecv_def Let_def)
  moreover have "doEvents server_callbacks (map (recv_event fd) later) ?s = Inr (True, ?s)" for later
    by (rule doEvents_full[of _ _ c']) (use full in simp_all)
  ultimately show ?thesis unfolding take_take by (intro exI[of _ ?s] exI[of _ c'] conjI allI) simp_all
qed

definition frame_big :: frame where
  "frame_big = (\<lparr>hd_type = 1, data_size = int SYSRECVBUF\<rparr>, replicate SYSRECVBUF 0)"

lemma frame_big_ok: "frame_ok frame_big" "SYSRECVBUF < length (encode_frame frame_big)"
  by (simp_all add: frame_big_def frame_ok_def encode_frame_def SYSRECVBUF_def)

theorem server_oversized_message_blocks_witness:
  "\<exists>s s' :: nat server_notify cellManager. cm_Cell s 5 \<noteq> None
     \<and> doRecv server_callbacks 5 [ReadData (take SYSRECVBUF (encode_frame frame_big))] s = Inr (RecvDone (- 2), s', [])
     \<and> doEvents server_callbacks [recv_event 5 (encode_frame frame_a)] s' = Inr (True, s')"
proof -
  obtain s c where s: "cm_inv s" "cm_Cell s 5 = Some c" "cm_TNotify s = Some count_hub" "ce_RecvReadPos c = 0"
    "ce_RecvWritePos c = 0"
    using cm_demo_recv by blast
  have k: "word_of_int 5 \<noteq> (0 :: 32 word)" by simp
  obtain s' where "doRecv server_callbacks 5 [ReadData (take SYSRECVBUF (encode_frame frame_big))] s = Inr (RecvDone (- 2), s', [])"
    "\<forall>later. doEvents server_callbacks (map (recv_event 5) later) s' = Inr (True, s')"
    using server_oversized_message_blocks[OF s(1-3) count_hub_accepts k s(4,5) frame_big_ok] by blast
  moreover from this(2) have "doEvents server_callbacks [recv_event 5 (encode_frame frame_a)] s' = Inr (True, s')"
    by (metis list.simps(8,9))
  ultimately show ?thesis using s(2) by blast
qed

end
