(* ===== verification/Tcp_Server_Recv.thy ===== *)
theory Tcp_Server_Recv
  imports Tcp_Server_Props Cell_Manager_Recv
begin

text \<open>
  The receiving side of the server from end to end: whatever tasks wait in the queue of a loop,
  one pass of this loop carries the messages of a connection to the application's hub.
\<close>

section \<open>What the tasks and the write interest leave alone\<close>

text \<open>Connection \<open>fd\<close> is kept, with its unread bytes; the hub has seen nothing in between.\<close>

definition reading :: "int \<Rightarrow> byte list \<Rightarrow> 'h \<Rightarrow> 'h cellManager \<Rightarrow> bool" where
  "reading fd u h s \<longleftrightarrow> cm_TNotify s = h \<and> (\<exists>c. cm_Cell s fd = Some c \<and> ce_unread c = u)
     \<and> (\<forall>t\<in>set (cm_tasks s). ct_event t = CHR ''D'' \<longrightarrow> ct_clientid t \<noteq> fd)"

lemma readingI:
  assumes "cm_TNotify s = h" "cm_Cell s fd = Some c" "ce_unread c = u"
    "\<forall>t\<in>set (cm_tasks s). ct_event t = CHR ''D'' \<longrightarrow> ct_clientid t \<noteq> fd"
  shows "reading fd u h s"
  using assms by (auto simp: reading_def)

lemma ce_unread_simps [simp]:
  "ce_unread (c\<lparr>ce_Events := ev\<rparr>) = ce_unread c"
  "ce_unread (c\<lparr>ce_SendBuf := sb, ce_SendWritePos := w\<rparr>) = ce_unread c"
  by (simp_all add: ce_unread_def)

lemma checkWrite_reading: "reading fd u h s \<Longrightarrow> reading fd u h (checkWrite keys s)"
proof (induction keys arbitrary: s)
  case Nil
  then show ?case by (simp add: checkWrite_def)
next
  case (Cons k keys)
  have "reading fd u h (checkWrite_cell k s)"
    using Cons.prems by (auto simp: reading_def checkWrite_cell_def Let_def cm_tasks_def split: option.splits)
  then show ?case using Cons.IH[of "checkWrite_cell k s"] by (simp add: checkWrite_def)
qed

text \<open>The callback object of the library does nothing on connects and disconnects.\<close>

lemma server_callbacks_quiet [simp]:
  "OnConnect server_callbacks h k ip port = h" "OnDisconnect server_callbacks h k = h"
  by (simp_all add: server_callbacks_def)

lemma handleOne_reading:
  assumes inv: "cm_inv (s\<lparr>cm_cellTask := q\<rparr>)" and rd: "reading fd u h s"
    and ts: "cm_tasks s = ct # ts" "cm_tasks (s\<lparr>cm_cellTask := q\<rparr>) = ts"
    and one: "handleOne server_callbacks ct (s\<lparr>cm_cellTask := q\<rparr>) = Inr s1"
  shows "reading fd u h s1"
proof -
  let ?s = "s\<lparr>cm_cellTask := q\<rparr>" and ?k = "ct_clientid ct"
  obtain c where c: "cm_Cell s fd = Some c" "ce_unread c = u" "cm_TNotify s = h"
    using rd by (auto simp: reading_def)
  have quiet: "\<forall>t\<in>set ts. ct_event t = CHR ''D'' \<longrightarrow> ct_clientid t \<noteq> fd" "ct_event ct = CHR ''D'' \<Longrightarrow> ?k \<noteq> fd"
    using rd ts(1) by (auto simp: reading_def)
  consider "ct_event ct = CHR ''S''" | "ct_event ct = CHR ''D''" | "ct_event ct = CHR ''A''"
    | "ct_event ct \<noteq> CHR ''S''" "ct_event ct \<noteq> CHR ''D''" "ct_event ct \<noteq> CHR ''A''" by blast
  then show ?thesis
  proof cases
    case 1
    then have "cm_TNotify s1 = h \<and> (\<exists>c'. cm_Cell s1 fd = Some c' \<and> ce_unread c' = u) \<and> cm_tasks s1 = ts"
      using one ts(2) c
      by (auto simp: handleOne_def handleSend_def Let_def obind_eq_Inr cm_tasks_def split: if_splits option.splits)
    then show ?thesis using quiet(1) by (simp add: reading_def)
  next
    case 2
    have "cm_TNotify s1 = h \<and> cm_Cell s1 fd = Some c \<and> cm_tasks s1 = ts"
      using one 2 ts(2) c quiet(2)[OF 2]
      by (auto simp: handleOne_def handleDel_def delClientCell_def obind_eq_Inr cm_tasks_def split: option.splits)
    then show ?thesis using quiet(1) c(2) by (simp add: reading_def)
  next
    case 3
    show ?thesis
    proof (cases "cm_Cell s ?k")
      case None
      then have "delTask ?k ?s = Inr s1" using one 3 by (simp add: handleOne_def handleAdd_def)
      note del = this delTask_frame[OF inv this]
      obtain new where "cm_tasks s1 = ts @ new" "\<forall>t\<in>set new. ct_event t = CHR ''D'' \<and> ct_clientid t = ?k"
        using del(7) ts(2) by auto
      moreover have "cm_TNotify s1 = h" "cm_Cell s1 = cm_Cell s"
        using del(1) c(3) by (auto simp: delTask_def cm_push_def Let_def obind_eq_Inr)
      moreover have "?k \<noteq> fd" using None c(1) by auto
      ultimately show ?thesis using quiet(1) c(1,2) by (auto intro!: readingI)
    next
      case (Some c')
      then have "cm_TNotify s1 = h \<and> (\<exists>c'. cm_Cell s1 fd = Some c' \<and> ce_unread c' = u) \<and> cm_tasks s1 = ts"
        using one 3 ts(2) c by (auto simp: handleOne_def handleAdd_def Let_def cm_tasks_def)
      then show ?thesis using quiet(1) by (simp add: reading_def)
    qed
  next
    case 4
    then have "s1 = ?s" using one by (simp add: handleOne_def)
    then show ?thesis using quiet(1) c ts(2) by (intro readingI) simp_all
  qed
qed

section \<open>One pass of a loop\<close>

lemma run_pass_receives:
  assumes inv: "cm_inv s" and rd: "reading fd [] (Some hub) s" and acc: "hub_accepts hub"
    and fd: "word_of_int fd \<noteq> (0 :: 32 word)"
    and ms: "\<forall>m\<in>set ms. frame_ok m" "concat bs = concat (map encode_frame ms)"
    and seg: "segments_fit (\<lambda>b. snd (cut_frames b)) [] bs"
  shows "\<exists>s' c'. run_pass server_callbacks keys (Some (map (recv_event fd) bs)) s = Some (Inr (True, s'))
    \<and> cm_TNotify s' = Some (snd (hub_feed hub (word_of_int fd) ms)) \<and> cm_Cell s' fd = Some c' \<and> ce_unread c' = []"
proof -
  have "cm_TNotify s \<noteq> None" using rd by (simp add: reading_def)
  then obtain s1 where s1: "handleTask server_callbacks s = Some (Inr s1)" "cm_inv s1" "reading fd [] (Some hub) s1"
    using sh.handleTask_induct[where P = "reading fd [] (Some hub)", OF inv _ rd] handleOne_reading by blast
  let ?s = "checkWrite keys s1"
  have "cm_inv ?s" using checkWrite_ok[OF s1(2)] by simp
  moreover obtain c where "cm_Cell ?s fd = Some c" "cm_TNotify ?s = Some hub" "ce_unread c = []"
    using checkWrite_reading[OF s1(3), of keys] by (auto simp: reading_def)
  ultimately obtain s' c' where "doEvents server_callbacks (map (recv_event fd) bs) ?s = Inr (True, s')"
    "cm_TNotify s' = Some (snd (hub_feed hub (word_of_int fd) ms))" "cm_Cell s' = (cm_Cell ?s)(fd \<mapsto> c')" "ce_unread c' = []"
    using doEvents_frames[OF _ _ _ acc fd _ ms seg] by blast
  then show ?thesis using s1(1) by (simp add: run_pass_def)
qed

text \<open>
  Messages survive their segmentation, from the socket of one client to the hub of the
  application.  On any state of a running server, take a connection with nothing unread and no
  disconnect pending, and messages sent one after the other, encoded and cut into any non-empty
  segments that fit half of the receive buffer together with the incomplete message before them,
  one segment per event.  Whatever other tasks wait in the queue of the loop that has the
  connection (sends, new connections, disconnects of others), one pass of this loop over these
  events returns, the hub that all loops share has been given exactly these messages in order,
  under the number of this connection, nothing is left unread, and no other loop has changed.
\<close>

lemma server_receives:
  assumes "tcpServer_new (Some hub0) cpuN epfds = Inr s0" "0 < cpuN" "srv_reach server_callbacks s0 s"
    and "ts_TNotify s = Some hub" "hub_accepts hub"
    and "i < length (ts_CellManager s)" "ts_CellManager s ! i = Live l" "cm_Cell (lp_cm l) fd = Some c" "ce_unread c = []"
    and "\<forall>t\<in>set (cm_tasks (lp_cm l)). ct_event t = CHR ''D'' \<longrightarrow> ct_clientid t \<noteq> fd"
    and "\<forall>m\<in>set ms. frame_ok m" "concat bs = concat (map encode_frame ms)"
    and "segments_fit (\<lambda>b. snd (cut_frames b)) [] bs"
  shows "\<exists>s' l' c'. tcpServer_loop_pass server_callbacks i keys (Some (map (recv_event fd) bs)) s = Inr (True, s')
    \<and> ts_TNotify s' = Some (snd (hub_feed hub (word_of_int fd) ms))
    \<and> ts_CellManager s' = (ts_CellManager s)[i := Live l'] \<and> cm_Cell (lp_cm l') fd = Some c' \<and> ce_unread c' = []"
proof -
  have "srv_inv (\<lambda>m. m \<noteq> None) s" using srv_started_inv[of hub0 cpuN s] assms(1-3) by blast
  then have lo: "loop_ok (length (ts_CellManager s)) i l" using srv_invD(3)[of _ s i] assms(6,7) by fastforce
  then have inv: "cm_inv (lp_cm l)" and "loop_of (length (ts_CellManager s)) i fd"
    using assms(8) by (auto simp: loop_ok_def)
  then have fd: "word_of_int fd \<noteq> (0 :: 32 word)"
    by (simp add: loop_of_def word_of_int_eq_0_iff zdvd_not_zless)
  let ?s = "(lp_cm l)\<lparr>cm_TNotify := Some hub\<rparr>"
  have "cm_inv ?s" "reading fd [] (Some hub) ?s"
    using inv assms(8-10) by (simp_all add: reading_def cm_tasks_def)
  from run_pass_receives[OF this assms(5) fd assms(11-13), of keys] obtain s' c' where
    s': "run_pass server_callbacks keys (Some (map (recv_event fd) bs)) ?s = Some (Inr (True, s'))"
      "cm_TNotify s' = Some (snd (hub_feed hub (word_of_int fd) ms))" "cm_Cell s' fd = Some c'" "ce_unread c' = []"
    by blast
  let ?f = "\<lambda>cm. case run_pass server_callbacks keys (Some (map (recv_event fd) bs)) cm of None \<Rightarrow> Inl Diverges | Some r \<Rightarrow> r"
  have "?f ((lp_cm l)\<lparr>cm_TNotify := ts_TNotify s\<rparr>) = Inr (True, s')" using s'(1) assms(4) by simp
  note pass = on_loop_eq[where f = ?f, OF assms(6,7) this]
  let ?s' = "s\<lparr>ts_CellManager := (ts_CellManager s)[i := Live (l\<lparr>lp_cm := s'\<rparr>)], ts_TNotify := cm_TNotify s'\<rparr>"
  show ?thesis
    by (intro exI[of _ ?s'] exI[of _ "l\<lparr>lp_cm := s'\<rparr>"] exI[of _ c']) (use pass s'(2-) in \<open>simp add: tcpServer_loop_pass_def\<close>)
qed

lemma server_receives_example:
  "\<exists>s s' hub'. tcpServer_loop_pass server_callbacks 1 [5] (Some (map (recv_event 5)
       [encode_frame frame_a @ take 5 (encode_frame frame_b), drop 5 (encode_frame frame_b)])) s = Inr (True, s')
     \<and> ts_TNotify s' = Some hub' \<and> hub_state hub' = (2 :: nat)"
proof -
  let ?bs = "[encode_frame frame_a @ take 5 (encode_frame frame_b), drop 5 (encode_frame frame_b)]"
  obtain s l epfds s0 where s: "tcpServer_new (Some count_hub) 1 epfds = Inr s0" "srv_reach server_callbacks s0 s"
    "length (ts_CellManager s) = 4" "ts_CellManager s ! 1 = Live l" "cm_Cell (lp_cm l) = [5 \<mapsto> accepted_cell demo_accepted]"
    "cm_tasks (lp_cm l) = [cellTask_new\<lparr>ct_event := CHR ''A'', ct_clientid := 5\<rparr>]" "ts_TNotify s = Some count_hub"
    using srv_demo by blast
  have c: "cm_Cell (lp_cm l) 5 = Some (accepted_cell demo_accepted)" "ce_unread (accepted_cell demo_accepted) = []"
    using s(5) by (simp_all add: accepted_cell_def ce_unread_new)
  have quiet: "\<forall>t\<in>set (cm_tasks (lp_cm l)). ct_event t = CHR ''D'' \<longrightarrow> ct_clientid t \<noteq> 5" "1 < length (ts_CellManager s)"
    using s(3,6) by simp_all
  have fr: "\<forall>m\<in>set [frame_a, frame_b]. frame_ok m" "concat ?bs = concat (map encode_frame [frame_a, frame_b])"
    using frame_ab_ok by simp_all
  have seg: "segments_fit (\<lambda>b. snd (cut_frames b)) [] ?bs"
    by (simp add: cut_frame_ab SYSRECVBUF_def flip: length_greater_0_conv)
  have feed: "hub_state (snd (hub_feed count_hub 5 [frame_a, frame_b])) = 2"
    by (simp add: count_hub_def hub_read_def Let_def)
  have k: "word_of_int 5 = (5 :: 32 word)" by simp
  from server_receives[OF s(1) zero_less_one s(2,7) count_hub_accepts quiet(2) s(4) c quiet(1) fr seg, of "[5]"]
  obtain s' where "tcpServer_loop_pass server_callbacks 1 [5] (Some (map (recv_event 5) ?bs)) s = Inr (True, s')"
    "ts_TNotify s' = Some (snd (hub_feed count_hub 5 [frame_a, frame_b]))"
    unfolding k by blast
  then show ?thesis using feed by blast
qed

end
