(* ===== verification/Client_Notify.thy ===== *)
theory Client_Notify
  imports Framing Notify_Interface
begin

text \<open>
  \<open>tcp_client_notify\<close> (common/src/tcp_client_notify.h, .cpp): the receive callback of the
  client.  It cuts the bytes into messages as the server's does, copies each payload,
  terminated by a zero byte, into a buffer and calls the virtual function \<open>handle_msg\<close>.
  The buffer is the member \<open>m_msg_cache\<close> (8 KiB) when the payload and its terminator fit,
  else a fresh allocation freed after the call.
\<close>

text \<open>
  \<open>atp_message\<close> (base/src/message_base.h): the two pointer members are options; what they
  point to is kept by value.
\<close>

record atp_message =
  am_type :: int
  am_param1 :: "byte list option"
  am_param2 :: "int option"

record 'c client_notify =
  cn_handle_msg :: "'c \<Rightarrow> atp_message \<Rightarrow> 'c"
  cn_state :: 'c
  cn_msg_cache :: "byte arr"
  cn_cache_size :: int

definition client_notify_new :: "('c \<Rightarrow> atp_message \<Rightarrow> 'c) \<Rightarrow> 'c \<Rightarrow> byte arr \<Rightarrow> 'c client_notify" where
  "client_notify_new f c fresh =
    \<lparr>cn_handle_msg = f, cn_state = c, cn_msg_cache = fresh, cn_cache_size = 1024 * 8\<rparr>"

text \<open>
  One complete message.  The member \<open>param2\<close> of the local \<open>msg\<close> is never assigned: \<open>junk\<close>
  stands for what the stack holds.  The fresh allocation is zeroed before it is read.
\<close>

definition client_dispatch :: "int option \<Rightarrow> 'c client_notify \<Rightarrow> frame \<Rightarrow> 'c client_notify" where
  "client_dispatch junk n m =
    (let ds = data_size (fst m);
         alloc = cn_cache_size n < ds + 1;
         msg_info0 = (if alloc then (\<lambda>_. 0) else cn_msg_cache n);
         msg_info1 = mem_write msg_info0 0 (replicate (nat (ds + 1)) 0);
         msg_info = mem_write msg_info1 0 (snd m);
         msg = \<lparr>am_type = hd_type (fst m), am_param1 = Some (mem_read msg_info 0 (nat (ds + 1))),
                am_param2 = junk\<rparr>
     in n\<lparr>cn_state := cn_handle_msg n (cn_state n) msg,
          cn_msg_cache := if alloc then cn_msg_cache n else msg_info\<rparr>)"

function client_read_loop :: "int option \<Rightarrow> 'c client_notify \<Rightarrow> byte list \<Rightarrow> nat \<Rightarrow> (nat \<times> 'c client_notify) outcome" where
  "client_read_loop junk n buf readpos =
    (if size_cast (int (length buf) - int readpos) > int m_msg_header_size then
       (if readpos + m_msg_header_size > length buf then Inl OutOfBounds
        else let m_header = header_at buf readpos in
          if data_size m_header \<le> 0 then Inr (readpos, n)
          else if size_cast (int (length buf) - int readpos - int m_msg_header_size
                    - data_size m_header) \<ge> 0 then
            (if readpos + m_msg_header_size + nat (data_size m_header) > length buf then Inl OutOfBounds
             else client_read_loop junk
               (client_dispatch junk n (m_header,
                  take (nat (data_size m_header)) (drop (readpos + m_msg_header_size) buf)))
               buf (readpos + m_msg_header_size + nat (data_size m_header)))
          else Inr (readpos, n))
     else Inr (readpos, n))"
  by pat_completeness auto
termination
  by (relation "measure (\<lambda>(junk, n, buf, readpos). length buf - readpos)")
    (auto simp: m_msg_header_size_def)

declare client_read_loop.simps [simp del]

definition client_OnRecvData :: "int option \<Rightarrow> 'c client_notify \<Rightarrow> byte list option \<Rightarrow> (64 word \<times> 'c client_notify) outcome" where
  "client_OnRecvData junk n recvbuf =
    (case recvbuf of
       None \<Rightarrow> Inr (- 1, n)
     | Some buf \<Rightarrow>
         if length buf \<le> 0 then Inr (- 1, n)
         else obind (client_read_loop junk n buf 0) (\<lambda>(readpos, n'). Inr (of_nat readpos, n')))"

section \<open>What the callback does\<close>

text \<open>
  The handler sees the payload with its terminating zero, whichever buffer is used, and
  \<open>param2\<close> is what happened to be on the stack.
\<close>

lemma client_dispatch_msg:
  assumes "data_size hdr = int (length payload)"
  shows "cn_state (client_dispatch junk n (hdr, payload)) =
    cn_handle_msg n (cn_state n)
      \<lparr>am_type = hd_type hdr, am_param1 = Some (payload @ [0]), am_param2 = junk\<rparr>"
proof -
  have "mem_read (mem_write (mem_write m 0 (replicate (Suc (length payload)) 0)) 0 payload) 0 (Suc (length payload))
      = payload @ [0]" for m :: "byte arr"
  proof -
    let ?m = "mem_write m 0 (replicate (Suc (length payload)) 0)"
    have "mem_read (mem_write ?m 0 payload) (length payload) 1 = mem_read ?m (length payload) 1"
      by (rule mem_read_write_disjoint) simp
    also have "\<dots> = [0]" by (simp add: mem_read_def mem_write_def del: replicate.simps)
    finally show ?thesis using mem_read_append[of "mem_write ?m 0 payload" 0 "length payload" 1] by simp
  qed
  moreover have "nat (data_size hdr + 1) = Suc (length payload)" using assms by simp
  ultimately show ?thesis by (simp add: client_dispatch_def Let_def del: replicate.simps)
qed

lemma client_dispatch_frame [simp]:
  "cn_handle_msg (client_dispatch junk n m) = cn_handle_msg n"
  "cn_cache_size (client_dispatch junk n m) = cn_cache_size n"
  by (simp_all add: client_dispatch_def Let_def)

text \<open>The member cache is only ever written inside its \<open>m_cache_size\<close> bytes.\<close>

lemma client_dispatch_cache_bounds:
  assumes "data_size hdr = int (length payload)" "cn_cache_size n \<le> int i"
  shows "cn_msg_cache (client_dispatch junk n (hdr, payload)) i = cn_msg_cache n i"
  using assms by (auto simp: client_dispatch_def Let_def mem_write_def)

lemma client_read_loop_stop:
  assumes "readpos \<le> length buf" "\<not> loop_guards buf readpos"
  shows "client_read_loop junk n buf readpos = Inr (readpos, n)"
  using assms header_guard_bounds[OF assms(1)]
  by (auto simp: client_read_loop.simps[of junk n buf readpos] loop_guards_def m_msg_header_size_def Let_def)

lemma client_read_loop_round:
  assumes "readpos \<le> length buf" "loop_guards buf readpos"
  shows "client_read_loop junk n buf readpos =
    client_read_loop junk (client_dispatch junk n (header_at buf readpos,
        take (nat (data_size (header_at buf readpos))) (drop (readpos + 8) buf)))
      buf (readpos + 8 + nat (data_size (header_at buf readpos)))"
  using assms loop_guards_bounds[OF assms]
  by (simp add: client_read_loop.simps[of junk n buf readpos] loop_guards_def m_msg_header_size_def Let_def)

definition client_feed :: "int option \<Rightarrow> 'c client_notify \<Rightarrow> frame list \<Rightarrow> 'c client_notify" where
  "client_feed junk n ms = foldl (client_dispatch junk) n ms"

lemma client_read_loop_feed:
  assumes "readpos \<le> length buf" "length buf < 2 ^ 31"
  shows "client_read_loop junk n buf readpos =
    Inr (readpos + frames_len (fst (cut_frames (drop readpos buf))),
         client_feed junk n (fst (cut_frames (drop readpos buf))))"
  using assms
proof (induction "length buf - readpos" arbitrary: readpos n rule: less_induct)
  case less
  show ?case
  proof (cases "complete_front (drop readpos buf)")
    case False
    then show ?thesis
      using less.prems client_read_loop_stop front_at[OF less.prems]
      by (simp add: cut_frames_stop frames_len_def client_feed_def)
  next
    case True
    note f = front_frame_at[OF True]
    let ?rp = "readpos + 8 + nat (data_size (header_at buf readpos))"
    have "length buf - ?rp < length buf - readpos" using f(3) by linarith
    from less.hyps[OF this f(3) less.prems(2), of "client_dispatch junk n (front_frame (drop readpos buf))"]
    show ?thesis
      using client_read_loop_round[OF less.prems(1), of junk n] front_at[OF less.prems] True f(1,4)
        cut_frames_front_at[OF True]
      by (simp add: frames_len_def client_feed_def)
  qed
qed

section \<open>The callback as a stream handler\<close>

definition client_absorb :: "int option \<Rightarrow> 'c client_notify \<Rightarrow> byte list \<Rightarrow> 'c client_notify \<times> byte list" where
  "client_absorb junk n bs = (client_feed junk n (fst (cut_frames bs)), snd (cut_frames bs))"

text \<open>\<open>MAX_BUF_SIZE\<close> of base/src/tcp_client/tcpClient.h: the size of the client's message buffer.\<close>

definition MAX_BUF_SIZE :: nat where
  "MAX_BUF_SIZE = 10240 * 5"

interpretation cn: stream_handler
  "\<lambda>junk n bs. client_OnRecvData junk n (Some bs)" MAX_BUF_SIZE "\<lambda>junk n. True" client_absorb
proof unfold_locales
  show "MAX_BUF_SIZE < 2 ^ 31" by (simp add: MAX_BUF_SIZE_def)
next
  fix k :: "int option" and h :: "'a client_notify" and bs :: "byte list"
  assume ne: "bs \<noteq> []" and le: "length bs \<le> MAX_BUF_SIZE"
  have "length bs < 2 ^ 31" using le by (simp add: MAX_BUF_SIZE_def)
  from client_read_loop_feed[OF _ this, of 0 k h] frames_len_cut[of bs] ne
  show "client_OnRecvData k h (Some bs) =
      Inr (of_nat (length bs - length (snd (client_absorb k h bs))), fst (client_absorb k h bs))"
    by (simp add: client_OnRecvData_def client_absorb_def) (metis add_diff_cancel_right' of_nat_add)
next
  fix k :: "int option" and h :: "'a client_notify" and bs :: "byte list"
  show "\<exists>used. bs = used @ snd (client_absorb k h bs)"
    using cut_frames_suffix[of bs] by (auto simp: client_absorb_def)
next
  fix k :: "int option" and h :: "'a client_notify" and a b :: "byte list"
  show "client_absorb k h (a @ b) =
      client_absorb k (fst (client_absorb k h a)) (snd (client_absorb k h a) @ b)"
    using cut_frames_append[of a b] by (simp add: client_absorb_def client_feed_def)
qed simp_all

end
