(* ===== verification/Tcp_Client.thy ===== *)
theory Tcp_Client
  imports Client_Notify Sockets
begin

text \<open>
  \<open>easyTcpClient\<close> (base/src/tcp_client/tcpClient.h, .cpp): the client connection, its message
  buffer \<open>_szMsgBuf\<close> with the read and write positions, and the receive loop of its thread.
  The results of \<open>socket\<close>, \<open>connect\<close>, \<open>select\<close>, \<open>recv\<close> and \<open>send\<close> are arguments.  The callback
  interface \<open>tCliNotify\<close> is a record of functions over the state of the callback object; the
  member \<open>m_Tcn\<close> is \<open>None\<close> until \<open>registerCallBack\<close>, because the constructor leaves it
  uninitialised.
\<close>

record 'h tCliNotify =
  cli_OnConnect :: "'h \<Rightarrow> 'h"
  cli_OnDisconnect :: "'h \<Rightarrow> 'h"
  cli_OnRecvData :: "'h \<Rightarrow> byte list option \<Rightarrow> (64 word \<times> 'h) outcome"

record 'h tcp_client =
  cl_sock :: int
  cl_buf :: "byte arr"
  cl_ReadIndex :: "32 word"
  cl_WriteIndex :: "32 word"
  cl_Tcn :: "'h option"
  cl_isConnect :: bool
  cl_thread :: bool
  cl_closed :: "int list" \<comment> \<open>descriptors given to \<open>close\<close>, newest first\<close>

definition INVALID_SOCKET :: int where
  "INVALID_SOCKET = - 1"

definition client_new :: "'h tcp_client" where
  "client_new = \<lparr>cl_sock = INVALID_SOCKET, cl_buf = (\<lambda>_. 0), cl_ReadIndex = 0, cl_WriteIndex = 0,
     cl_Tcn = None, cl_isConnect = False, cl_thread = False, cl_closed = []\<rparr>"

definition client_registerCallBack :: "'h \<Rightarrow> 'h tcp_client \<Rightarrow> 'h tcp_client" where
  "client_registerCallBack t c = c\<lparr>cl_Tcn := Some t\<rparr>"

definition client_isRun :: "'h tcp_client \<Rightarrow> bool" where
  "client_isRun c \<longleftrightarrow> cl_sock c \<noteq> INVALID_SOCKET \<and> cl_isConnect c"

definition client_Close :: "'h tCliNotify \<Rightarrow> 'h tcp_client \<Rightarrow> 'h tcp_client outcome" where
  "client_Close n c =
    (let c1 = (if cl_sock c \<noteq> INVALID_SOCKET
               then c\<lparr>cl_closed := cl_sock c # cl_closed c, cl_sock := INVALID_SOCKET\<rparr> else c);
         c2 = c1\<lparr>cl_isConnect := False\<rparr>
     in case cl_Tcn c2 of
          None \<Rightarrow> Inl Uninitialised
        | Some h \<Rightarrow> Inr (c2\<lparr>cl_Tcn := Some (cli_OnDisconnect n h)\<rparr>))"

text \<open>\<open>sock\<close> is what \<open>socket()\<close> returns.\<close>

definition client_InitSocket :: "'h tCliNotify \<Rightarrow> int \<Rightarrow> 'h tcp_client \<Rightarrow> 'h tcp_client outcome" where
  "client_InitSocket n sock c =
    obind (if cl_sock c \<noteq> INVALID_SOCKET then client_Close n c else Inr c)
      (\<lambda>c. Inr (c\<lparr>cl_sock := sock\<rparr>))"

text \<open>\<open>ret\<close> is what \<open>connect()\<close> returns, on the socket that stands for the current or the new one.\<close>

definition client_Connect :: "'h tCliNotify \<Rightarrow> int \<Rightarrow> int \<Rightarrow> 'h tcp_client \<Rightarrow> (int \<times> 'h tcp_client) outcome" where
  "client_Connect n sock ret c =
    obind (if cl_sock c = INVALID_SOCKET then client_InitSocket n sock c else Inr c)
      (\<lambda>c. if ret = - 1 then Inr (ret, c)
           else (case cl_Tcn c of
             None \<Rightarrow> Inl Uninitialised
           | Some h \<Rightarrow> Inr (ret, c\<lparr>cl_isConnect := True, cl_Tcn := Some (cli_OnConnect n h)\<rparr>)))"

text \<open>
  \<open>RecvData\<close>: one \<open>recv\<close> into the free end of the buffer, the callback on everything unread,
  and the move to the front when half of the buffer has been read.
\<close>

definition client_RecvData :: "'h tCliNotify \<Rightarrow> read_result \<Rightarrow> 'h tcp_client \<Rightarrow> (int \<times> 'h tcp_client) outcome" where
  "client_RecvData n r c =
    (case r of
       ReadErr e \<Rightarrow> Inr (- 1, c)
     | ReadData avail \<Rightarrow>
         let bs = take (unat (of_nat MAX_BUF_SIZE - cl_WriteIndex c)) avail in
         if unat (cl_WriteIndex c) + length bs > MAX_BUF_SIZE then Inl OutOfBounds
         else if bs = [] then Inr (- 1, c)
         else
           let c1 = c\<lparr>cl_buf := mem_write (cl_buf c) (unat (cl_WriteIndex c)) bs,
                      cl_WriteIndex := cl_WriteIndex c + of_nat (length bs)\<rparr>;
               len = unat (cl_WriteIndex c1 - cl_ReadIndex c1)
           in if unat (cl_ReadIndex c1) + len > MAX_BUF_SIZE then Inl OutOfBounds
              else (case cl_Tcn c1 of
                None \<Rightarrow> Inl Uninitialised
              | Some h \<Rightarrow>
                  obind (cli_OnRecvData n h (Some (mem_read (cl_buf c1) (unat (cl_ReadIndex c1)) len)))
                    (\<lambda>(retsize, h').
                      let c2 = c1\<lparr>cl_Tcn := Some h'\<rparr> in
                      if retsize \<le> 0 then Inr (- 1, c2)
                      else
                        let c3 = c2\<lparr>cl_ReadIndex := cl_ReadIndex c2 + ucast retsize\<rparr> in
                        if of_nat (MAX_BUF_SIZE div 2) \<le> cl_ReadIndex c3 then
                          let src = unat (cl_ReadIndex c3);
                              k = unat (cl_WriteIndex c3 - cl_ReadIndex c3)
                          in if src + k > MAX_BUF_SIZE then Inl OutOfBounds
                             else if \<not> memcpy_ok 0 src k then Inl MemcpyOverlap
                             else Inr (0, c3\<lparr>cl_buf := mem_copy (cl_buf c3) 0 src k,
                                             cl_WriteIndex := cl_WriteIndex c3 - cl_ReadIndex c3,
                                             cl_ReadIndex := 0\<rparr>)
                        else Inr (0, c3))))"

text \<open>
  \<open>OnRun\<close>, the loop of the receive thread, over what \<open>select\<close> reports: an error, a timeout,
  or that the socket is readable together with what \<open>recv\<close> then finds.  \<open>None\<close> is a thread
  still waiting when the script ends.  Putting a descriptor of \<open>FD_SETSIZE\<close> or more into an
  \<open>fd_set\<close> writes outside it.
\<close>

datatype sel_event = SelErr | SelTimeout | SelReadable read_result

fun client_OnRun :: "'h tCliNotify \<Rightarrow> sel_event list \<Rightarrow> 'h tcp_client \<Rightarrow> (bool option \<times> 'h tcp_client) outcome" where
  "client_OnRun n [] c = Inr (if client_isRun c then None else Some False, c)"
| "client_OnRun n (ev # evs) c =
    (if \<not> client_isRun c then Inr (Some False, c)
     else if cl_sock c < 0 \<or> 1024 \<le> cl_sock c then Inl OutOfBounds
     else (case ev of
        SelErr \<Rightarrow> obind (client_Close n c) (\<lambda>c'. Inr (Some False, c'))
      | SelTimeout \<Rightarrow> client_OnRun n evs c
      | SelReadable r \<Rightarrow>
          obind (client_RecvData n r c) (\<lambda>(ret, c').
            if ret = - 1 then obind (client_Close n c') (\<lambda>c''. Inr (Some False, c''))
            else client_OnRun n evs c')))"

text \<open>\<open>ret\<close> is what \<open>send()\<close> returns, \<open>buf\<close> is \<open>None\<close> for a null pointer.\<close>

definition client_SendData :: "'h tCliNotify \<Rightarrow> byte list option \<Rightarrow> int \<Rightarrow> 'h tcp_client \<Rightarrow> (int \<times> 'h tcp_client) outcome" where
  "client_SendData n buf ret c =
    (if client_isRun c \<and> buf \<noteq> None then
       (if ret = - 1 then obind (client_Close n c) (\<lambda>c'. Inr (ret, c')) else Inr (ret, c))
     else Inr (- 1, c))"

definition client_Start :: "'h tcp_client \<Rightarrow> 'h tcp_client" where
  "client_Start c = c\<lparr>cl_thread := True\<rparr>"

text \<open>\<open>Stop\<close>, also the body of the destructor: closing makes \<open>OnRun\<close> return, then its thread is joined.\<close>

definition client_Stop :: "'h tCliNotify \<Rightarrow> 'h tcp_client \<Rightarrow> 'h tcp_client outcome" where
  "client_Stop n c = obind (client_Close n c) (\<lambda>c'. Inr (c'\<lparr>cl_thread := False\<rparr>))"

section \<open>The message buffer\<close>

definition cl_inv :: "'h tcp_client \<Rightarrow> bool" where
  "cl_inv c \<longleftrightarrow> unat (cl_ReadIndex c) \<le> unat (cl_WriteIndex c)
     \<and> unat (cl_WriteIndex c) \<le> MAX_BUF_SIZE \<and> unat (cl_ReadIndex c) < MAX_BUF_SIZE div 2"

definition cl_unread :: "'h tcp_client \<Rightarrow> byte list" where
  "cl_unread c = mem_read (cl_buf c) (unat (cl_ReadIndex c)) (unat (cl_WriteIndex c) - unat (cl_ReadIndex c))"

text \<open>The free space \<open>recv\<close> is asked to fill.\<close>

definition cl_room :: "'h tcp_client \<Rightarrow> nat" where
  "cl_room c = MAX_BUF_SIZE - unat (cl_WriteIndex c)"

lemma cl_inv_new: "cl_inv client_new" "cl_unread client_new = []" "cl_room client_new = MAX_BUF_SIZE"
  by (simp_all add: cl_inv_def cl_unread_def cl_room_def client_new_def MAX_BUF_SIZE_def)

text \<open>The word arithmetic of \<open>RecvData\<close>, on positions inside the buffer.\<close>

lemma cl_word_facts:
  assumes inv: "cl_inv c" and bs: "unat (cl_WriteIndex c) + length bs \<le> MAX_BUF_SIZE"
    and d: "d \<le> unat (cl_WriteIndex c) - unat (cl_ReadIndex c) + length bs"
  shows "unat (of_nat MAX_BUF_SIZE - cl_WriteIndex c :: 32 word) = cl_room c"
    and "unat (cl_WriteIndex c + of_nat (length bs)) = unat (cl_WriteIndex c) + length bs"
    and "unat (cl_WriteIndex c + of_nat (length bs) - cl_ReadIndex c)
      = unat (cl_WriteIndex c) - unat (cl_ReadIndex c) + length bs"
    and "unat (cl_ReadIndex c + ucast (of_nat d :: 64 word)) = unat (cl_ReadIndex c) + d"
    and "unat (cl_WriteIndex c + of_nat (length bs) - (cl_ReadIndex c + ucast (of_nat d :: 64 word)))
      = unat (cl_WriteIndex c) + length bs - (unat (cl_ReadIndex c) + d)"
    and "(of_nat d :: 64 word) \<le> 0 \<longleftrightarrow> d = 0"
proof -
  have b: "unat (cl_ReadIndex c) \<le> unat (cl_WriteIndex c)" "unat (cl_WriteIndex c) + length bs \<le> 51200"
    "d \<le> 51200"
    using inv bs d by (simp_all add: cl_inv_def MAX_BUF_SIZE_def)
  show "unat (of_nat MAX_BUF_SIZE - cl_WriteIndex c :: 32 word) = cl_room c"
    using b by (subst unat_sub) (auto simp: cl_room_def MAX_BUF_SIZE_def word_le_nat_alt)
  show W1: "unat (cl_WriteIndex c + of_nat (length bs)) = unat (cl_WriteIndex c) + length bs"
    using b by (subst unat_add_small) (auto simp: unat_of_nat take_bit_nat_eq_self)
  show "unat (cl_WriteIndex c + of_nat (length bs) - cl_ReadIndex c)
      = unat (cl_WriteIndex c) - unat (cl_ReadIndex c) + length bs"
    using W1 b by (subst unat_sub) (auto simp: word_le_nat_alt)
  have d64: "unat (of_nat d :: 64 word) = d" using b(3) by (intro unat_of_nat_small) simp
  have d32: "unat (ucast (of_nat d :: 64 word) :: 32 word) = d"
    using b(3) by (simp only: unsigned_ucast_eq d64) (simp add: take_bit_nat_eq_self)
  show R1: "unat (cl_ReadIndex c + ucast (of_nat d :: 64 word)) = unat (cl_ReadIndex c) + d"
    using d32 b d by (subst unat_add_small) auto
  show "unat (cl_WriteIndex c + of_nat (length bs) - (cl_ReadIndex c + ucast (of_nat d :: 64 word)))
      = unat (cl_WriteIndex c) + length bs - (unat (cl_ReadIndex c) + d)"
    using W1 R1 b d by (subst unat_sub) (auto simp: word_le_nat_alt)
  show "(of_nat d :: 64 word) \<le> 0 \<longleftrightarrow> d = 0"
    using d64 by (simp add: word_le_0_iff word_eq_unat)
qed

text \<open>
  A call of \<open>RecvData\<close> that gets data and whose callback consumes \<open>d\<close> of the bytes it is
  offered: it fails exactly when \<open>d\<close> is zero, and the bytes not consumed are what is unread.
\<close>

lemma client_RecvData_call:
  assumes inv: "cl_inv c" and h: "cl_Tcn c = Some h"
    and avail: "avail \<noteq> []" "0 < cl_room c"
    and all: "all = cl_unread c @ take (cl_room c) avail"
    and cb: "cli_OnRecvData n h (Some all) = Inr (of_nat d, h')" and d: "d \<le> length all"
  shows "\<exists>c'. client_RecvData n (ReadData avail) c = Inr (if d = 0 then - 1 else 0, c')
      \<and> cl_inv c' \<and> cl_unread c' = drop d all \<and> cl_Tcn c' = Some h'
      \<and> cl_sock c' = cl_sock c \<and> cl_isConnect c' = cl_isConnect c \<and> cl_closed c' = cl_closed c"
proof -
  let ?R = "unat (cl_ReadIndex c)" and ?W = "unat (cl_WriteIndex c)"
  define bs where "bs = take (cl_room c) avail"
  let ?m = "mem_write (cl_buf c) ?W bs"
  have b: "?R \<le> ?W" "?W \<le> 51200" "?R < 25600"
    using inv by (simp_all add: cl_inv_def MAX_BUF_SIZE_def)
  have bs: "bs \<noteq> []" "?W + length bs \<le> MAX_BUF_SIZE"
    using avail b by (auto simp: bs_def cl_room_def MAX_BUF_SIZE_def)
  have len: "length all = ?W - ?R + length bs" by (simp add: all bs_def cl_unread_def)
  note w = cl_word_facts[OF inv bs(2), of d, folded len, OF d]
  have view: "mem_read ?m ?R (length all) = all"
    using mem_read_write_after[OF b(1), of "cl_buf c" bs] by (simp add: len all bs_def cl_unread_def)
  have view': "mem_read ?m (?R + d) (length all - d) = drop d all"
    using view by (metis drop_mem_read)
  have k: "?W + length bs - (?R + d) = length all - d" "?R + length all = ?W + length bs"
    "?R + d + (?W + length bs - (?R + d)) = ?W + length bs"
    using len b(1) d by simp_all
  have mc: "25600 \<le> ?R + d \<Longrightarrow> memcpy_ok 0 (?R + d) (?W + length bs - (?R + d))"
    using bs(2) by (simp add: memcpy_ok_def MAX_BUF_SIZE_def) linarith
  note facts = mc bs_def[symmetric] assms(2,3) bs w view len k(3) cb
  let ?c1 = "c\<lparr>cl_buf := ?m, cl_WriteIndex := cl_WriteIndex c + of_nat (length bs), cl_Tcn := Some h'\<rparr>"
  let ?c3 = "?c1\<lparr>cl_ReadIndex := cl_ReadIndex c + ucast (of_nat d :: 64 word)\<rparr>"
  let ?c4 = "?c3\<lparr>cl_buf := mem_copy ?m 0 (?R + d) (length all - d),
               cl_WriteIndex := cl_WriteIndex ?c3 - cl_ReadIndex ?c3, cl_ReadIndex := 0\<rparr>"
  have call: "client_RecvData n (ReadData avail) c =
      Inr (if d = 0 then - 1 else 0, if d = 0 then ?c1 else if 25600 \<le> ?R + d then ?c4 else ?c3)"
    using facts b d by (simp add: client_RecvData_def Let_def MAX_BUF_SIZE_def word_le_nat_alt)
  consider (none) "d = 0" | (move) "d \<noteq> 0" "25600 \<le> ?R + d" | (keep) "d \<noteq> 0" "?R + d < 25600" by linarith
  then show ?thesis
  proof cases
    case none
    have "cl_inv ?c1" using w(2) b bs(2) by (simp add: cl_inv_def MAX_BUF_SIZE_def)
    moreover have "cl_unread ?c1 = all" using view k(2) by (simp add: cl_unread_def w(2) len)
    ultimately show ?thesis using none call by simp
  next
    case move
    have "cl_inv ?c4" using w(5) b bs(2) by (simp add: cl_inv_def MAX_BUF_SIZE_def)
    moreover have "cl_unread ?c4 = drop d all"
      using w(5) by (simp add: cl_unread_def k(1) mem_read_copy view')
    ultimately show ?thesis using move call by simp
  next
    case keep
    have "cl_inv ?c3" using w(2,4) keep b bs(2) d len by (simp add: cl_inv_def MAX_BUF_SIZE_def)
    moreover have "cl_unread ?c3 = drop d all"
      using w(2,4) by (simp add: cl_unread_def k(1) view')
    ultimately show ?thesis using keep call by simp
  qed
qed

section \<open>The receive thread with a callback that is a stream handler\<close>

text \<open>
  Chunks that each bring at least one message to completion (\<open>done u b\<close> says the callback
  makes progress on \<open>b\<close>), and that fit into half of the buffer together with what was left.
\<close>

fun chunks_fit :: "(byte list \<Rightarrow> bool) \<Rightarrow> (byte list \<Rightarrow> byte list) \<Rightarrow> byte list \<Rightarrow> byte list list \<Rightarrow> bool" where
  "chunks_fit progress rest u [] = True"
| "chunks_fit progress rest u (b # bs) =
    (b \<noteq> [] \<and> length (u @ b) \<le> MAX_BUF_SIZE div 2 \<and> progress (u @ b)
     \<and> chunks_fit progress rest (rest (u @ b)) bs)"

context stream_handler
begin

text \<open>The call fails exactly when the callback leaves everything it was offered.\<close>

lemma client_RecvData_absorb:
  assumes cb: "\<And>h bs. cli_OnRecvData n h (Some bs) = on_recv k h bs"
    and lim: "MAX_BUF_SIZE \<le> limit"
    and inv: "cl_inv c" and h: "cl_Tcn c = Some h" "ready k h"
    and avail: "avail \<noteq> []" "0 < cl_room c"
    and all: "all = cl_unread c @ take (cl_room c) avail"
    and ab: "absorb k h all = (h', rest)"
  shows "\<exists>c'. client_RecvData n (ReadData avail) c = Inr (if rest = all then - 1 else 0, c')
      \<and> cl_inv c' \<and> cl_unread c' = rest \<and> cl_Tcn c' = Some h'
      \<and> cl_sock c' = cl_sock c \<and> cl_isConnect c' = cl_isConnect c \<and> cl_closed c' = cl_closed c"
proof -
  let ?d = "length all - length rest"
  have rest: "rest = drop ?d all" "length rest \<le> length all"
    using absorb_drop[of k h all] length_absorb[of k h all] ab by simp_all
  have ne: "all \<noteq> []" using avail all by simp
  have "length all \<le> MAX_BUF_SIZE"
    using inv by (auto simp: all cl_unread_def cl_inv_def cl_room_def)
  then have "cli_OnRecvData n h (Some all) = Inr (of_nat ?d, h')"
    using recv_absorb[OF h(2) ne] lim ab by (simp add: cb)
  from client_RecvData_call[OF inv h(1) avail all this diff_le_self]
  have "\<exists>c'. client_RecvData n (ReadData avail) c = Inr (if ?d = 0 then - 1 else 0, c')
      \<and> cl_inv c' \<and> cl_unread c' = rest \<and> cl_Tcn c' = Some h'
      \<and> cl_sock c' = cl_sock c \<and> cl_isConnect c' = cl_isConnect c \<and> cl_closed c' = cl_closed c"
    unfolding rest(1)[symmetric] .
  moreover have "?d = 0 \<longleftrightarrow> rest = all"
  proof
    assume "?d = 0"
    then have "drop ?d all = all" by (simp only: drop0)
    with rest(1) show "rest = all" by (rule trans)
  qed simp
  ultimately show ?thesis by simp
qed

lemma client_OnRun_chunks:
  assumes cb: "\<And>h bs. cli_OnRecvData n h (Some bs) = on_recv k h bs"
    and lim: "MAX_BUF_SIZE \<le> limit"
    and prog: "\<And>h b. progress b \<Longrightarrow> snd (absorb k h b) \<noteq> b"
    and rest: "\<And>h b. snd (absorb k h b) = rest b"
    and "cl_inv c" "cl_Tcn c = Some h" "ready k h"
    and "client_isRun c" "0 \<le> cl_sock c" "cl_sock c < 1024"
    and "chunks_fit progress rest (cl_unread c) chunks"
    and "absorb k h (cl_unread c) = (h, cl_unread c)"
  shows "\<exists>c'. client_OnRun n (map (\<lambda>b. SelReadable (ReadData b)) chunks) c = Inr (None, c')
      \<and> cl_inv c' \<and> client_isRun c' \<and> cl_Tcn c' = Some (fst (absorb k h (cl_unread c @ concat chunks)))
      \<and> cl_unread c' = snd (absorb k h (cl_unread c @ concat chunks))"
  using assms(5-)
proof (induction chunks arbitrary: c h)
  case Nil
  then show ?case by simp
next
  case (Cons b bs)
  let ?u = "cl_unread c"
  obtain h1 r1 where ab: "absorb k h (?u @ b) = (h1, r1)" by fastforce
  have fit: "b \<noteq> []" "length (?u @ b) \<le> MAX_BUF_SIZE div 2" "r1 \<noteq> ?u @ b" "chunks_fit progress rest r1 bs"
    using Cons.prems(7) prog[of "?u @ b" h] rest[of h "?u @ b"] ab by auto
  have room: "length b \<le> cl_room c" "0 < cl_room c"
    using fit(1,2) Cons.prems(1) by (auto simp: cl_inv_def cl_unread_def cl_room_def MAX_BUF_SIZE_def)
  then have "?u @ b = ?u @ take (cl_room c) b" by simp
  from client_RecvData_absorb[OF cb lim Cons.prems(1-3) fit(1) room(2) this ab]
  obtain c1 where c1: "client_RecvData n (ReadData b) c = Inr (0, c1)" "cl_inv c1" "cl_unread c1 = r1"
    "cl_Tcn c1 = Some h1" "client_isRun c1" "cl_sock c1 = cl_sock c"
    using fit(3) Cons.prems(4) by (auto simp: client_isRun_def)
  have "ready k h1" "absorb k h1 r1 = (h1, r1)"
    using absorb_ready[OF Cons.prems(3), of "?u @ b"] absorb_idle[OF Cons.prems(3), of "?u @ b"] ab by simp_all
  from Cons.IH[OF c1(2,4) this(1) c1(5) _ _ _ ] this(2) c1(3,6) fit(4) Cons.prems(5,6)
  obtain c2 where c2: "client_OnRun n (map (\<lambda>b. SelReadable (ReadData b)) bs) c1 = Inr (None, c2)"
    "cl_inv c2" "client_isRun c2" "cl_Tcn c2 = Some (fst (absorb k h1 (r1 @ concat bs)))"
    "cl_unread c2 = snd (absorb k h1 (r1 @ concat bs))"
    by auto
  moreover have "absorb k h (?u @ concat (b # bs)) = absorb k h1 (r1 @ concat bs)"
    using absorb_append[OF Cons.prems(3), of "?u @ b" "concat bs"] ab by simp
  ultimately show ?case using c1(1) Cons.prems(4-6) by simp
qed

end

section \<open>The client with the notify class of the library\<close>

definition client_callbacks :: "int option \<Rightarrow> 'c client_notify tCliNotify" where
  "client_callbacks junk = \<lparr>cli_OnConnect = (\<lambda>h. h), cli_OnDisconnect = (\<lambda>h. h),
     cli_OnRecvData = client_OnRecvData junk\<rparr>"

lemma client_callbacks_simps [simp]:
  "cli_OnConnect (client_callbacks junk) = (\<lambda>h. h)"
  "cli_OnDisconnect (client_callbacks junk) = (\<lambda>h. h)"
  "cli_OnRecvData (client_callbacks junk) = client_OnRecvData junk"
  by (simp_all add: client_callbacks_def)

lemma cut_frames_idle: "\<not> complete_front u \<Longrightarrow> client_absorb junk h u = (h, u)"
  by (simp add: client_absorb_def cut_frames_stop client_feed_def)

lemma cut_frames_shrinks: "complete_front b \<Longrightarrow> snd (cut_frames b) \<noteq> b"
proof
  assume c: "complete_front b" and eq: "snd (cut_frames b) = b"
  show False using cut_frames_rest[of b] c eq by simp
qed

text \<open>
  C19: The client's receive thread, with the library's notify class, hands the handler exactly
  the messages of the byte stream, in order, whatever the segments are, and keeps the
  incomplete rest for the next segment; this holds as long as every segment completes at
  least one message and fits into half of the buffer with what was left before it.
\<close>

theorem client_stream_delivered:
  assumes "cl_inv c" "cl_Tcn c = Some h" "client_isRun c" "0 \<le> cl_sock c" "cl_sock c < 1024"
    and "\<not> complete_front (cl_unread c)"
    and "chunks_fit complete_front (\<lambda>b. snd (cut_frames b)) (cl_unread c) chunks"
  shows "\<exists>c'. client_OnRun (client_callbacks junk) (map (\<lambda>b. SelReadable (ReadData b)) chunks) c = Inr (None, c')
    \<and> client_isRun c' \<and> cl_inv c'
    \<and> cl_Tcn c' = Some (client_feed junk h (fst (cut_frames (cl_unread c @ concat chunks))))
    \<and> cl_unread c' = snd (cut_frames (cl_unread c @ concat chunks))"
  using cn.client_OnRun_chunks[where n = "client_callbacks junk" and k = junk
      and progress = complete_front and rest = "\<lambda>b. snd (cut_frames b)", OF _ order_refl _ _ assms(1,2) _ assms(3-5,7)
        cut_frames_idle[OF assms(6)]]
  by (auto simp: client_absorb_def cut_frames_shrinks)

text \<open>A connected client without any bytes yet, whose handler collects the messages.\<close>

definition client_demo :: "atp_message list client_notify tcp_client" where
  "client_demo = client_new\<lparr>cl_sock := 3, cl_isConnect := True,
     cl_Tcn := Some (client_notify_new (\<lambda>c m. c @ [m]) [] (\<lambda>_. 0))\<rparr>"

lemma client_demo_state:
  "cl_inv client_demo" "client_isRun client_demo" "cl_sock client_demo = 3" "cl_unread client_demo = []"
  "cl_Tcn client_demo = Some (client_notify_new (\<lambda>c m. c @ [m]) [] (\<lambda>_. 0))"
  "cl_room client_demo = MAX_BUF_SIZE" "cl_closed client_demo = []"
  by (simp_all add: client_demo_def client_new_def cl_inv_def client_isRun_def INVALID_SOCKET_def cl_unread_def
      cl_room_def MAX_BUF_SIZE_def)

theorem client_stream_delivered_witness:
  "\<exists>c' h'. client_OnRun (client_callbacks None) (map (\<lambda>b. SelReadable (ReadData b))
        [encode_frame frame_a @ take 5 (encode_frame frame_b), drop 5 (encode_frame frame_b)]) client_demo = Inr (None, c')
    \<and> cl_Tcn c' = Some h' \<and> map am_type (cn_state h') = [1, 3] \<and> cl_unread c' = []"
proof -
  let ?chunks = "[encode_frame frame_a @ take 5 (encode_frame frame_b), drop 5 (encode_frame frame_b)]"
  have "chunks_fit complete_front (\<lambda>b. snd (cut_frames b)) (cl_unread client_demo) ?chunks"
    by (simp add: client_demo_state cut_frame_ab MAX_BUF_SIZE_def flip: length_greater_0_conv)
  moreover have "\<not> complete_front (cl_unread client_demo)" by (simp add: client_demo_state complete_front_def)
  ultimately have "\<exists>c'. client_OnRun (client_callbacks None) (map (\<lambda>b. SelReadable (ReadData b)) ?chunks) client_demo = Inr (None, c')
    \<and> client_isRun c' \<and> cl_inv c'
    \<and> cl_Tcn c' = Some (client_feed None (client_notify_new (\<lambda>c m. c @ [m]) [] (\<lambda>_. 0))
        (fst (cut_frames (cl_unread client_demo @ concat ?chunks))))
    \<and> cl_unread c' = snd (cut_frames (cl_unread client_demo @ concat ?chunks))"
    by (intro client_stream_delivered) (simp_all add: client_demo_state)
  then obtain c' where c': "client_OnRun (client_callbacks None) (map (\<lambda>b. SelReadable (ReadData b)) ?chunks) client_demo = Inr (None, c')"
    "cl_Tcn c' = Some (client_feed None (client_notify_new (\<lambda>c m. c @ [m]) [] (\<lambda>_. 0)) [frame_a, frame_b])"
    "cl_unread c' = []"
    by (auto simp only: client_demo_state concat.simps append_Nil append_Nil2 append_assoc append_take_drop_id
        cut_frame_ab fst_conv snd_conv)
  moreover have "map am_type (cn_state (client_feed None (client_notify_new (\<lambda>c m. c @ [m]) [] (\<lambda>_. 0)) [frame_a, frame_b])) = [1, 3]"
    by (simp add: client_feed_def client_dispatch_def client_notify_new_def Let_def frame_a_def frame_b_def)
  ultimately show ?thesis by (intro exI conjI)
qed

text \<open>
  C34: A segment that does not complete a message ends the connection: for any message and any
  proper, non-empty prefix of it arriving first, the receive thread takes the zero the
  callback returns for an error, closes the socket and returns.
\<close>

theorem client_partial_message_closes:
  assumes "frame_ok m" "0 < n" "n < length (encode_frame m)"
    and "cl_inv c" "cl_unread c = []" "n \<le> cl_room c" "cl_Tcn c = Some h"
    and "client_isRun c" "0 \<le> cl_sock c" "cl_sock c < 1024"
  shows "\<exists>c'. client_OnRun (client_callbacks junk) (SelReadable (ReadData (take n (encode_frame m))) # later) c
      = Inr (Some False, c')
    \<and> \<not> client_isRun c' \<and> cl_closed c' = cl_sock c # cl_closed c \<and> cl_Tcn c' = Some h"
proof -
  let ?b = "take n (encode_frame m)"
  have b: "?b \<noteq> []" "0 < cl_room c" "?b = cl_unread c @ take (cl_room c) ?b"
    using assms(2,3,5,6) by auto
  have ab: "client_absorb junk h ?b = (h, ?b)"
    by (rule cut_frames_idle) (rule partial_not_complete[OF assms(1,3)])
  from cn.client_RecvData_absorb[where n = "client_callbacks junk", OF _ order_refl assms(4,7) _ b ab]
  obtain c1 where c1: "client_RecvData (client_callbacks junk) (ReadData ?b) c = Inr (- 1, c1)"
    "cl_Tcn c1 = Some h" "cl_sock c1 = cl_sock c" "cl_closed c1 = cl_closed c"
    by auto
  then show ?thesis
    using assms(8-10) by (simp add: client_Close_def client_isRun_def Let_def)
qed

theorem client_partial_message_closes_witness:
  "\<exists>c'. client_OnRun (client_callbacks None) [SelReadable (ReadData (take 5 (encode_frame frame_b)))] client_demo
      = Inr (Some False, c')
    \<and> \<not> client_isRun c' \<and> cl_closed c' = [3]"
proof -
  have "\<exists>c'. client_OnRun (client_callbacks None) (SelReadable (ReadData (take 5 (encode_frame frame_b))) # []) client_demo
      = Inr (Some False, c')
    \<and> \<not> client_isRun c' \<and> cl_closed c' = cl_sock client_demo # cl_closed client_demo
    \<and> cl_Tcn c' = Some (client_notify_new (\<lambda>c m. c @ [m]) [] (\<lambda>_. 0))"
    by (intro client_partial_message_closes) (simp_all add: client_demo_state MAX_BUF_SIZE_def)
  then show ?thesis by (auto simp: client_demo_state)
qed

end
