(* ===== verification/End_To_End.thy ===== *)
theory End_To_End
  imports Tcp_Server_Recv Tcp_Client
begin

text \<open>
  From \<open>SendData\<close> on the server to the handler of the client: whatever the server does between, each
  connection carries the bytes its user has sent, and the client at the other end delivers the
  messages they are made of.
\<close>

section \<open>What a connection carries\<close>

text \<open>The bytes an operation of the server adds to the stream of connection \<open>fd\<close> of loop \<open>i\<close>.\<close>

fun srv_accepted :: "int \<Rightarrow> nat \<Rightarrow> srv_op \<Rightarrow> 'h tcpServer \<Rightarrow> byte list" where
  "srv_accepted fd i (SrvSend junk fd' p len) s =
    (case ts_CellManager s ! i of
       Dangling _ \<Rightarrow> []
     | Live l \<Rightarrow> if fd' = fd \<and> length (cm_tasks (lp_cm l)) < srt_cap (cm_cellTask (lp_cm l)) then take (nat len) p else [])"
| "srv_accepted fd i _ s = []"

text \<open>No pass of the loop finds the connection being closed or its ring without room.\<close>

definition srv_quiet :: "int \<Rightarrow> nat \<Rightarrow> srv_op \<Rightarrow> 'h tcpServer \<Rightarrow> bool" where
  "srv_quiet fd i op s \<longleftrightarrow>
    (\<forall>keys wait l. op = SrvLoop i keys wait \<longrightarrow> ts_CellManager s ! i = Live l \<longrightarrow> cm_quiet fd (lp_cm l))"

inductive srv_carries :: "'h tNotify \<Rightarrow> int \<Rightarrow> nat \<Rightarrow> 'h tcpServer \<Rightarrow> byte list \<Rightarrow> 'h tcpServer \<Rightarrow> bool" for n fd i s0 where
  none: "srv_carries n fd i s0 [] s0"
| op: "srv_carries n fd i s0 bs s \<Longrightarrow> srv_op_ok op s \<Longrightarrow> srv_quiet fd i op s \<Longrightarrow> srv_exec n op s = Inr s' \<Longrightarrow>
    srv_carries n fd i s0 (bs @ srv_accepted fd i op s) s'"

lemma on_loop_at:
  assumes "on_loop j f s = Inr (r, s')" "ts_CellManager s ! i = Live l"
  shows "j \<noteq> i \<and> ts_CellManager s' ! i = Live l
    \<or> j = i \<and> (\<exists>cm. f ((lp_cm l)\<lparr>cm_TNotify := ts_TNotify s\<rparr>) = Inr (r, cm) \<and> ts_CellManager s' ! i = Live (l\<lparr>lp_cm := cm\<rparr>))"
  using assms by (auto simp: on_loop_def obind_eq_Inr nth_list_update split: if_splits loop_ptr.splits)

lemma conn_stream_notify [simp]: "conn_stream (cm\<lparr>cm_TNotify := h\<rparr>) fd = conn_stream cm fd"
  by (simp add: conn_stream_def conn_list_notify)

text \<open>Posting the task for another connection.\<close>

lemma addTask_stream:
  assumes "addTask cell s = Inr s'" "cm_inv s" "cm_Cell s (ce_ClientFd cell) = None" "cell_ok (ce_ClientFd cell) cell"
    "ce_pending cell = []" "cm_Cell s fd \<noteq> None"
  shows "cm_Cell s' fd \<noteq> None \<and> conn_stream s' fd = conn_stream s fd"
proof -
  obtain c where c: "cm_Cell s fd = Some c" using assms(6) by blast
  have ne: "ce_ClientFd cell \<noteq> fd" using assms(3,6) by auto
  have s': "cm_Cell s' = (cm_Cell s)(ce_ClientFd cell \<mapsto> cell)" "cm_heap s' = cm_heap s" "cm_wire s' = cm_wire s"
    using assms(1) by (auto simp: addTask_def cm_push_def Let_def obind_eq_Inr)
  obtain ts where "cm_tasks s' = cm_tasks s @ ts" "\<forall>t\<in>set ts. ct_event t = CHR ''A''"
    using addTask_ok[OF assms(2,3)] assms(1,4,5) by (fastforce split: if_splits)
  then have "send_tasks fd (cm_tasks s') = send_tasks fd (cm_tasks s)" by (auto simp: send_tasks_def filter_empty_conv)
  then have "conn_list s' fd = conn_list s fd"
    by (intro stream_frame[OF c]) (use s' c ne in auto)
  then show ?thesis using s' c ne by (simp add: conn_stream_def)
qed

context safe_handler
begin

lemma srv_op_stream:
  assumes inv: "srv_inv ok s" and op: "srv_op_ok op s" "srv_quiet fd i op s" "srv_exec n op s = Inr s'"
    and l: "i < length (ts_CellManager s)" "ts_CellManager s ! i = Live l" "cm_Cell (lp_cm l) fd \<noteq> None"
  shows "\<exists>l'. ts_CellManager s' ! i = Live l' \<and> cm_Cell (lp_cm l') fd \<noteq> None
    \<and> conn_stream (lp_cm l') fd = conn_stream (lp_cm l) fd @ srv_accepted fd i op s \<and> length (ts_CellManager s') = length (ts_CellManager s)"
proof -
  let ?N = "length (ts_CellManager s)" and ?s = "(lp_cm l)\<lparr>cm_TNotify := ts_TNotify s\<rparr>"
  have lo: "cm_inv (lp_cm l)" "loop_of ?N i fd" using srv_invD(3)[OF inv l(1)] l(2,3) by (auto simp: loop_ok_def)
  then have s: "cm_inv ?s" "cm_Cell ?s fd \<noteq> None" "ok (cm_TNotify ?s)" using l(3) srv_invD(2)[OF inv] by simp_all
  have same: "length (ts_CellManager s') = ?N" if "on_loop j f s = Inr (r, s')" for j and f :: "_ \<Rightarrow> ('r \<times> _) outcome" and r
    using that by (auto simp: on_loop_def obind_eq_Inr split: if_splits loop_ptr.splits)
  show ?thesis
  proof (cases op)
    case (SrvListen port a)
    then show ?thesis using op(3) l by (auto simp: Listen_frame)
  next
    case SrvStart
    then show ?thesis using op(3) l
      by (auto simp: tcpServer_start_def each_loop_start[OF srv_inv_Live[OF inv]])
  next
    case SrvThreads
    then show ?thesis using op(3) l by (auto simp: srv_advance_def loop_advance_def)
  next
    case (SrvAccept wait a)
    show ?thesis
    proof (cases "s' = s")
      case False
      let ?f = "\<lambda>cm. obind (addTask (accepted_cell a) cm) (\<lambda>cm'. Inr ((), cm'))"
      from False obtain j where j: "on_loop j ?f s = Inr ((), s')"
        using op(3) SrvAccept by (auto simp: tcpServer_run_pass_def HandleAccept_def Let_def obind_eq_Inr split: listen_wait.splits if_splits)
      note same[OF j]
      moreover from on_loop_at[OF j l(2)] have "\<exists>l'. ts_CellManager s' ! i = Live l' \<and> cm_Cell (lp_cm l') fd \<noteq> None
          \<and> conn_stream (lp_cm l') fd = conn_stream (lp_cm l) fd"
      proof (elim disjE conjE exE)
        fix cm assume cm: "?f ?s = Inr ((), cm)" "ts_CellManager s' ! i = Live (l\<lparr>lp_cm := cm\<rparr>)"
        have "fd_unused (ac_fd a) s" using op(1) SrvAccept by simp
        then have "cm_Cell ?s (ac_fd a) = None" using l(1,2) by (auto simp: fd_unused_def dest: nth_mem)
        then have "cm_Cell cm fd \<noteq> None \<and> conn_stream cm fd = conn_stream ?s fd"
          by (intro addTask_stream[of "accepted_cell a", OF _ s(1) _ _ _ s(2)])
            (use cm(1) ce_inv_new in \<open>auto simp: obind_eq_Inr cell_ok_def accepted_cell_def clientCell_new_def\<close>)
        then show ?thesis using cm(2) by simp
      qed (use l(3) in simp)
      ultimately show ?thesis using SrvAccept by auto
    qed (use l SrvAccept in simp)
  next
    case (SrvSend junk fd' p len)
    let ?f = "sendTask fd' p (int_of_size (size_of_int len))"
    have len: "0 \<le> len" "len + 1 < 2 ^ 31" "nat len \<le> length p" using op(1) SrvSend by simp_all
    then have len': "int_of_size (size_of_int len) = len" using size_of_int_small(2)[of len] by simp
    from SrvSend obtain j r where j: "CurrCellManager fd' s = Inr j" "on_loop j ?f s = Inr (r, s')"
      using op(3) by (auto simp: tcpServer_SendData_def obind_eq_Inr)
    have own: "fd' = fd \<Longrightarrow> j = i"
      using CurrCellManager_eq[OF srv_invD(1)[OF inv], of fd] lo(2) j(1) by (simp add: loop_of_def)
    from on_loop_at[OF j(2) l(2)] have "\<exists>l'. ts_CellManager s' ! i = Live l' \<and> cm_Cell (lp_cm l') fd \<noteq> None
        \<and> conn_stream (lp_cm l') fd = conn_stream (lp_cm l) fd @ srv_accepted fd i op s"
    proof (elim disjE conjE exE)
      assume "j \<noteq> i" "ts_CellManager s' ! i = Live l"
      then show ?thesis using l(2,3) own SrvSend by auto
    next
      fix cm assume cm: "?f ?s = Inr (r, cm)" "ts_CellManager s' ! i = Live (l\<lparr>lp_cm := cm\<rparr>)"
      show ?thesis
      proof (cases "cm_Cell ?s fd' = None")
        case True
        then have "fd' \<noteq> fd" "cm = ?s" using s(2) cm(1) by (auto simp: sendTask_def)
        then show ?thesis using cm(2) l(2,3) SrvSend by auto
      next
        case False
        obtain s2 r2 where "sendTask fd' p len ?s = Inr (r2, s2)" "cm_Cell s2 = cm_Cell ?s" "cm_wire s2 = cm_wire ?s"
          "conn_list s2 fd = conn_list ?s fd @ (if length (cm_tasks ?s) < srt_cap (cm_cellTask ?s) \<and> fd = fd' then [take (nat len) p] else [])"
          using sendTask_stream[OF s(1) False len] by blast
        then show ?thesis using cm s(2) l(2) SrvSend
          by (simp add: len' conn_stream_def cm_tasks_def conn_list_notify) auto
      qed
    qed
    then show ?thesis using same[OF j(2)] by auto
  next
    case (SrvLoop j keys wait)
    let ?f = "\<lambda>cm. case run_pass n keys wait cm of None \<Rightarrow> Inl Diverges | Some r \<Rightarrow> r"
    from SrvLoop obtain b where b: "on_loop j ?f s = Inr (b, s')"
      using op(3) by (auto simp: tcpServer_loop_pass_def obind_eq_Inr)
    from on_loop_at[OF b l(2)] have "\<exists>l'. ts_CellManager s' ! i = Live l' \<and> cm_Cell (lp_cm l') fd \<noteq> None
        \<and> conn_stream (lp_cm l') fd = conn_stream (lp_cm l) fd"
    proof (elim disjE conjE exE)
      fix cm assume cm: "j = i" "?f ?s = Inr (b, cm)" "ts_CellManager s' ! i = Live (l\<lparr>lp_cm := cm\<rparr>)"
      have "cm_quiet fd ?s" using op(2) SrvLoop cm(1) l(2) by (simp add: srv_quiet_def cm_quiet_def cm_tasks_def)
      from run_pass_stream[OF s(1,3) this, of keys wait] cm(2,3) show ?thesis by auto
    qed (use l(3) in simp)
    then show ?thesis using same[OF b] SrvLoop by auto
  qed
qed

lemma srv_carries_stream:
  assumes "srv_carries n fd i s0 bs s" "srv_inv ok s0"
    and "i < length (ts_CellManager s0)" "ts_CellManager s0 ! i = Live l0" "cm_Cell (lp_cm l0) fd \<noteq> None"
  shows "srv_inv ok s \<and> length (ts_CellManager s) = length (ts_CellManager s0)
    \<and> (\<exists>l. ts_CellManager s ! i = Live l \<and> cm_Cell (lp_cm l) fd \<noteq> None \<and> conn_stream (lp_cm l) fd = conn_stream (lp_cm l0) fd @ bs)"
  using assms(1)
proof (induction rule: srv_carries.induct)
  case none
  then show ?case using assms(2-) by simp
next
  case (op bs s a s')
  then obtain l where l: "ts_CellManager s ! i = Live l" "cm_Cell (lp_cm l) fd \<noteq> None"
    "conn_stream (lp_cm l) fd = conn_stream (lp_cm l0) fd @ bs" "i < length (ts_CellManager s)" "srv_inv ok s"
    using assms(3) by auto
  from srv_op_stream[OF l(5) op.hyps(2-4) l(4,1,2)] srv_exec_ok[OF l(5) op.hyps(2)] op.hyps(4) op.IH l(3)
  show ?case by auto
qed

end

section \<open>From the server to the client\<close>

text \<open>Of the encoding of messages, what arrives first is cut into the first messages.\<close>

lemma cut_frames_prefix:
  assumes "\<forall>m\<in>set ms. frame_ok m" "bs @ rest = concat (map encode_frame ms)"
  shows "\<exists>k\<le>length ms. fst (cut_frames bs) = take k ms \<and> (rest = [] \<longrightarrow> k = length ms \<and> snd (cut_frames bs) = [])"
proof -
  have all: "cut_frames (bs @ rest) = (ms, [])"
    using cut_frames_encode[OF assms(1), of "[]"] assms(2) by (simp add: complete_front_def)
  then have "fst (cut_frames bs) @ fst (cut_frames (snd (cut_frames bs) @ rest)) = ms"
    using cut_frames_append[of bs rest] by simp
  moreover have "rest = [] \<longrightarrow> cut_frames bs = (ms, [])" using all by auto
  ultimately have "fst (cut_frames bs) = take (length (fst (cut_frames bs))) ms" "length (fst (cut_frames bs)) \<le> length ms"
    "rest = [] \<longrightarrow> fst (cut_frames bs) = ms \<and> snd (cut_frames bs) = []"
    by (metis append_eq_conv_conj, metis length_append le_add1, auto)
  then show ?thesis by (intro exI[of _ "length (fst (cut_frames bs))"]) auto
qed

text \<open>
  C1: messages from end to end.  On any state of a running server, take a connection with nothing
  on its way.  Whatever the server then does, in any order (messages to other connections, accepts,
  passes of any loop with any events and any answers of the kernel, threads starting), as long as
  the passes of its loop do not find the connection being closed or its ring full: if the bytes the
  server took for this connection are the encoding of messages, and a connected client is given
  what was written to the socket, or the first part of it, in chunks that its buffer can take and
  that each complete a message, then the client's thread stays in its loop and has handed to its
  handler the first of these messages, each once and in order; and all of them, when everything
  was written and received.
\<close>

theorem server_to_client:
  assumes "tcpServer_new (Some hub0) cpuN epfds = Inr s0" "0 < cpuN" "srv_reach server_callbacks s0 s"
    and "i < length (ts_CellManager s)" "ts_CellManager s ! i = Live l" "cm_Cell (lp_cm l) fd \<noteq> None" "conn_list (lp_cm l) fd = []"
    and "srv_carries server_callbacks fd i s (concat (map encode_frame ms)) s'" "\<forall>m\<in>set ms. frame_ok m"
    and "ts_CellManager s' ! i = Live l'" "cm_wire (lp_cm l') fd = cm_wire (lp_cm l) fd @ concat chunks @ later"
    and "cl_inv c" "cl_unread c = []" "cl_Tcn c = Some h" "client_isRun c" "0 \<le> cl_sock c" "cl_sock c < 1024"
    and "chunks_fit complete_front (\<lambda>b. snd (cut_frames b)) [] chunks"
  shows "\<exists>c' k. client_OnRun (client_callbacks junk) (map (\<lambda>b. SelReadable (ReadData b)) chunks) c = Inr (None, c')
    \<and> client_isRun c' \<and> cl_Tcn c' = Some (client_feed junk h (take k ms))
    \<and> (conn_list (lp_cm l') fd = [] \<and> later = [] \<longrightarrow> take k ms = ms \<and> cl_unread c' = [])"
proof -
  have "srv_inv (\<lambda>m. m \<noteq> None) s" using srv_started_inv[of hub0 cpuN s] assms(1-3) by blast
  from sh.srv_carries_stream[OF assms(8) this assms(4-6)] assms(7,10)
  have "conn_stream (lp_cm l') fd = cm_wire (lp_cm l) fd @ concat (map encode_frame ms)" by (auto simp: conn_stream_def)
  then have stream: "concat chunks @ later @ concat (conn_list (lp_cm l') fd) = concat (map encode_frame ms)"
    using assms(11) by (simp add: conn_stream_def)
  from cut_frames_prefix[OF assms(9) this] obtain k where
    k: "fst (cut_frames (concat chunks)) = take k ms" "later @ concat (conn_list (lp_cm l') fd) = [] \<longrightarrow>
      k = length ms \<and> snd (cut_frames (concat chunks)) = []" by blast
  have "\<not> complete_front []" by (simp add: complete_front_def)
  from cn.client_OnRun_chunks[where n = "client_callbacks junk" and k = junk and progress = complete_front
      and rest = "\<lambda>b. snd (cut_frames b)" and chunks = chunks, OF _ order_refl _ _ assms(12,14) _ assms(15-17)] assms(13,18)
    cut_frames_idle[OF this]
  obtain c' where "client_OnRun (client_callbacks junk) (map (\<lambda>b. SelReadable (ReadData b)) chunks) c = Inr (None, c')"
    "client_isRun c'" "cl_Tcn c' = Some (fst (client_absorb junk h (concat chunks)))" "cl_unread c' = snd (client_absorb junk h (concat chunks))"
    by (auto simp: client_absorb_def cut_frames_shrinks)
  then show ?thesis using k by (intro exI[of _ c'] exI[of _ k]) (simp add: client_absorb_def)
qed

text \<open>Both short messages go in one call of \<open>SendData\<close> and leave with one pass of the loop.\<close>

lemma srv_demo_carries:
  obtains epfds s0 s l s' l' where "tcpServer_new (Some count_hub) 1 epfds = Inr s0" "srv_reach server_callbacks s0 s"
    "length (ts_CellManager s) = 4" "ts_CellManager s ! 1 = Live l" "cm_Cell (lp_cm l) 5 \<noteq> None" "conn_list (lp_cm l) 5 = []"
    "srv_carries server_callbacks 5 1 s (concat (map encode_frame [frame_a, frame_b])) s'"
    "ts_CellManager s' ! 1 = Live l'" "conn_list (lp_cm l') 5 = []"
    "cm_wire (lp_cm l') 5 = cm_wire (lp_cm l) 5 @ encode_frame frame_a @ encode_frame frame_b"
proof -
  let ?m = "encode_frame frame_a @ encode_frame frame_b" and ?A = "cellTask_new\<lparr>ct_event := CHR ''A'', ct_clientid := 5\<rparr>"
  obtain s l epfds s0 where s: "tcpServer_new (Some count_hub) 1 epfds = Inr s0" "srv_reach server_callbacks s0 s"
    "length (ts_CellManager s) = 4" "ts_CellManager s ! 1 = Live l" "cm_Cell (lp_cm l) = [5 \<mapsto> accepted_cell demo_accepted]"
    "cm_tasks (lp_cm l) = [?A]" "length (cm_tasks (lp_cm l)) < srt_cap (cm_cellTask (lp_cm l))" "ts_TNotify s = Some count_hub"
    using srv_demo by blast
  let ?cm = "(lp_cm l)\<lparr>cm_TNotify := Some count_hub\<rparr>"
  have inv: "srv_inv (\<lambda>m. m \<noteq> None) s" using srv_started_inv[of count_hub 1 s] s(1,2) by auto
  then have li: "cm_inv ?cm" using srv_invD(3)[OF inv, of 1] s(3,4) by (auto simp: loop_ok_def)
  have addrs: "cell_addrs (accepted_cell demo_accepted) = []"
    using ce_inv_new(2) by (simp add: cell_addrs_def accepted_cell_def)
  have l0: "conn_list ?cm 5 = []"
    using s(5,6) addrs by (simp add: conn_list_def conn_unsent_def queue_unsent_def unsent_def cm_tasks_def)
  have room: "length (cm_tasks ?cm) < srt_cap (cm_cellTask ?cm)" using s(7) by (simp add: cm_tasks_def)
  have len: "(0::int) \<le> 19" "(19::int) + 1 < 2 ^ 31" "nat 19 \<le> length ?m" by simp_all
  have c: "cm_Cell ?cm 5 \<noteq> None" using s(5) by simp
  from sendTask_stream[OF li c len] room obtain r cm1 where cm1: "sendTask 5 ?m 19 ?cm = Inr (r, cm1)" "cm_inv cm1" "cm_Cell cm1 = cm_Cell ?cm"
    "cm_wire cm1 = cm_wire ?cm" "cm_TNotify cm1 = cm_TNotify ?cm"
    "cm_tasks cm1 = cm_tasks ?cm @ [cellTask_new\<lparr>ct_event := CHR ''S'', ct_clientid := 5, ct_sC := Some (cm_next ?cm)\<rparr>]"
    "conn_list cm1 5 = [take (nat 19) ?m]"
    using l0 by auto
  have take: "take (nat 19) ?m = ?m" by simp
  have ne: "ts_CellManager s \<noteq> []" using s(3) by (metis list.size(3) zero_neq_numeral)
  have i: "1 < length (ts_CellManager s)" "CurrCellManager 5 s = Inr 1" using CurrCellManager_eq[OF ne, of 5] s(3) by simp_all
  have l19: "int_of_size (size_of_int 19) = 19" using size_of_int_small(2)[of 19] by simp
  let ?l1 = "l\<lparr>lp_cm := cm1\<rparr>"
  let ?s1 = "s\<lparr>ts_CellManager := (ts_CellManager s)[1 := Live ?l1], ts_TNotify := cm_TNotify cm1\<rparr>"
  have send: "srv_exec server_callbacks (SrvSend 0 5 ?m 19) s = Inr ?s1"
    using on_loop_eq[OF i(1) s(4), of "sendTask 5 ?m 19" r cm1] cm1(1) i(2) l19 s(8) by (simp add: tcpServer_SendData_def)
  have acc: "srv_accepted 5 1 (SrvSend 0 5 ?m 19) s = ?m" using s(4,7) by simp
  have "srv_carries server_callbacks 5 1 s ([] @ srv_accepted 5 1 (SrvSend 0 5 ?m 19) s) ?s1"
    by (rule srv_carries.op[OF srv_carries.none _ _ send]) (simp_all add: srv_quiet_def)
  then have c1: "srv_carries server_callbacks 5 1 s ?m ?s1" by (simp only: acc append_Nil)
  have l1: "1 < length (ts_CellManager ?s1)" "ts_CellManager ?s1 ! 1 = Live ?l1" using i(1) by simp_all
  have quiet: "cm_quiet 5 cm1"
    using s(5,6) cm1(3,6) addrs by (auto simp: cm_quiet_def SYSSENDBUF_def cm_tasks_def)
  obtain cm2 where cm2: "run_pass server_callbacks [5] (Some [send_event 5 (\<lambda>_. WriteOk 100)]) cm1 = Some (Inr (True, cm2))"
    "cm_wire cm2 5 = cm_wire cm1 5 @ concat (conn_list cm1 5)" "conn_list cm2 5 = []"
    using run_pass_sends_all[of cm1 5 "\<lambda>_. WriteOk 100" "[5]"] cm1(2,5,7) quiet
    by (auto simp: take serverMaxSendTimes_def simp flip: length_greater_0_conv)
  let ?l2 = "?l1\<lparr>lp_cm := cm2\<rparr>"
  let ?f = "\<lambda>cm. case run_pass server_callbacks [5] (Some [send_event 5 (\<lambda>_. WriteOk 100)]) cm of None \<Rightarrow> Inl Diverges | Some r \<Rightarrow> r"
  let ?s2 = "?s1\<lparr>ts_CellManager := (ts_CellManager ?s1)[1 := Live ?l2], ts_TNotify := cm_TNotify cm2\<rparr>"
  have "?f ((lp_cm ?l1)\<lparr>cm_TNotify := ts_TNotify ?s1\<rparr>) = Inr (True, cm2)" using cm2(1) by simp
  from on_loop_eq[where f = ?f, OF l1 this]
  have pass: "srv_exec server_callbacks (SrvLoop 1 [5] (Some [send_event 5 (\<lambda>_. WriteOk 100)])) ?s1 = Inr ?s2"
    by (simp add: tcpServer_loop_pass_def)
  have "srv_carries server_callbacks 5 1 s (?m @ []) ?s2"
    using srv_carries.op[OF c1 _ _ pass] l1 i(1) quiet by (simp add: srv_quiet_def)
  moreover have "conn_list (lp_cm l) 5 = []" using l0 by (simp add: conn_list_notify)
  ultimately show thesis
    by (intro that[OF s(1-4), of ?s2 ?l2]) (use i(1) c cm1(4,7) cm2(2,3) take in simp_all)
qed

theorem server_to_client_witness:
  "\<exists>(s' :: nat server_notify tcpServer) l' w c' h'. ts_CellManager s' ! 1 = Live l'
    \<and> cm_wire (lp_cm l') 5 = w @ encode_frame frame_a @ encode_frame frame_b
    \<and> client_OnRun (client_callbacks None) (map (\<lambda>b. SelReadable (ReadData b))
        [encode_frame frame_a @ take 5 (encode_frame frame_b), drop 5 (encode_frame frame_b)]) client_demo = Inr (None, c')
    \<and> cl_Tcn c' = Some h' \<and> map am_type (cn_state h') = [1, 3] \<and> cl_unread c' = []"
proof -
  let ?chunks = "[encode_frame frame_a @ take 5 (encode_frame frame_b), drop 5 (encode_frame frame_b)]"
  obtain epfds s0 s l s' l' where s: "tcpServer_new (Some count_hub) 1 epfds = Inr s0" "srv_reach server_callbacks s0 s"
    "length (ts_CellManager s) = 4" "ts_CellManager s ! 1 = Live l" "cm_Cell (lp_cm l) 5 \<noteq> None" "conn_list (lp_cm l) 5 = []"
    "srv_carries server_callbacks 5 1 s (concat (map encode_frame [frame_a, frame_b])) s'"
    "ts_CellManager s' ! 1 = Live l'" "conn_list (lp_cm l') 5 = []"
    "cm_wire (lp_cm l') 5 = cm_wire (lp_cm l) 5 @ encode_frame frame_a @ encode_frame frame_b"
    by (rule srv_demo_carries)
  have i: "1 < length (ts_CellManager s)" using s(3) by simp
  have ok: "\<forall>m\<in>set [frame_a, frame_b]. frame_ok m" by simp
  have wire: "cm_wire (lp_cm l') 5 = cm_wire (lp_cm l) 5 @ concat ?chunks @ []" using s(10) by simp
  have fit: "chunks_fit complete_front (\<lambda>b. snd (cut_frames b)) [] ?chunks"
    by (simp add: cut_frame_ab MAX_BUF_SIZE_def flip: length_greater_0_conv)
  have sock: "0 \<le> cl_sock client_demo" "cl_sock client_demo < 1024" by (simp_all add: client_demo_state)
  from server_to_client[OF s(1) zero_less_one s(2) i s(4-7) ok s(8) wire client_demo_state(1,4,5,2) sock fit, of None] s(9)
  obtain c' where "client_OnRun (client_callbacks None) (map (\<lambda>b. SelReadable (ReadData b)) ?chunks) client_demo = Inr (None, c')"
    "cl_Tcn c' = Some (client_feed None (client_notify_new (\<lambda>c m. c @ [m]) [] (\<lambda>_. 0)) [frame_a, frame_b])" "cl_unread c' = []"
    by auto
  moreover have "map am_type (cn_state (client_feed None (client_notify_new (\<lambda>c m. c @ [m]) [] (\<lambda>_. 0)) [frame_a, frame_b])) = [1, 3]"
    by (simp add: client_feed_def client_dispatch_def client_notify_new_def Let_def frame_a_def frame_b_def)
  ultimately show ?thesis using s(8,10) by (intro exI conjI)
qed

end
