(* ===== verification/Cell_Manager_Close.thy ===== *)
theory Cell_Manager_Close
  imports Cell_Manager_Stream
begin

text \<open>
  How a connection ends: the hang-up of the peer, or the end of its stream, posts a task, and the
  handler of this task closes and forgets the connection; and what becomes of a new connection that
  the listener is given in the middle of this.
\<close>

section \<open>After the end\<close>

text \<open>A number without a connection, and not watched, that has been closed \<open>k\<close> times.\<close>

definition fd_lost :: "int \<Rightarrow> nat \<Rightarrow> 'h cellManager \<Rightarrow> bool" where
  "fd_lost fd k s \<longleftrightarrow> cm_Cell s fd = None \<and> cm_epoll s fd = None \<and> count_list (cm_closed s) fd = k"

text \<open>No task changes this: the handlers of \<open>'S'\<close> and \<open>'D'\<close> find nothing, that of \<open>'A'\<close> posts a \<open>'D'\<close>.\<close>

lemma handleOne_lost:
  assumes inv: "cm_inv (s\<lparr>cm_cellTask := q\<rparr>)" and lost: "fd_lost fd k s" and one: "handleOne n ct (s\<lparr>cm_cellTask := q\<rparr>) = Inr s1"
  shows "fd_lost fd k s1"
proof -
  let ?s = "s\<lparr>cm_cellTask := q\<rparr>" and ?fd = "ct_clientid ct"
  have l: "cm_Cell s fd = None" "cm_epoll s fd = None" "count_list (cm_closed s) fd = k" using lost by (simp_all add: fd_lost_def)
  have fd: "ce_ClientFd c = ?fd" "?fd \<noteq> fd" if "cm_Cell s ?fd = Some c" for c
    using cm_invD(3)[OF inv, of ?fd c] that l(1) by (auto simp: cell_ok_def)
  consider "ct_event ct = CHR ''S''" | "ct_event ct = CHR ''D''" | "ct_event ct = CHR ''A''" "cm_Cell s ?fd = None"
    | c where "ct_event ct = CHR ''A''" "cm_Cell s ?fd = Some c"
    | "ct_event ct \<noteq> CHR ''S''" "ct_event ct \<noteq> CHR ''D''" "ct_event ct \<noteq> CHR ''A''" by blast
  then show ?thesis
  proof cases
    case 1
    then show ?thesis using one l
      by (auto simp: handleOne_def handleSend_def Let_def obind_eq_Inr fd_lost_def split: if_splits option.splits)
  next
    case 2
    then show ?thesis using one l fd
      by (auto simp: handleOne_def handleDel_def delClientCell_def obind_eq_Inr epoll_del_def fd_lost_def split: option.splits)
  next
    case 3
    then have "delTask ?fd ?s = Inr s1" using one by (simp add: handleOne_def handleAdd_def)
    from delTask_frame[OF inv this] l show ?thesis by (simp add: fd_lost_def)
  next
    case 4
    then show ?thesis using one l fd[OF 4(2)]
      by (auto simp: handleOne_def handleAdd_def Let_def epoll_add_def fd_lost_def split: if_splits)
  next
    case 5
    then show ?thesis using one lost by (auto simp: handleOne_def fd_lost_def)
  qed
qed

section \<open>Closing\<close>

text \<open>A connection that a task will close, or that has been closed.\<close>

definition closing :: "int \<Rightarrow> nat \<Rightarrow> 'h cellManager \<Rightarrow> bool" where
  "closing fd k s \<longleftrightarrow> fd_lost fd (Suc k) s \<or>
     (cm_Cell s fd \<noteq> None \<and> count_list (cm_closed s) fd = k \<and> (\<exists>t\<in>set (cm_tasks s). ct_event t = CHR ''D'' \<and> ct_clientid t = fd))"

lemma handleOne_closes:
  assumes inv: "cm_inv (s\<lparr>cm_cellTask := q\<rparr>)" and cl: "closing fd k s"
    and ts: "cm_tasks s = ct # ts" "cm_tasks (s\<lparr>cm_cellTask := q\<rparr>) = ts"
    and one: "handleOne n ct (s\<lparr>cm_cellTask := q\<rparr>) = Inr s1"
  shows "closing fd k s1"
proof (cases "fd_lost fd (Suc k) s")
  case True
  then show ?thesis using handleOne_lost[OF inv _ one] by (simp add: closing_def)
next
  case False
  let ?s = "s\<lparr>cm_cellTask := q\<rparr>" and ?k = "ct_clientid ct"
  have o: "cm_Cell s fd \<noteq> None" "count_list (cm_closed s) fd = k"
    "ct_event ct = CHR ''D'' \<and> ?k = fd \<or> (\<exists>t\<in>set ts. ct_event t = CHR ''D'' \<and> ct_clientid t = fd)"
    using cl False ts(1) by (auto simp: closing_def)
  have cfd: "ce_ClientFd c = ?k" if "cm_Cell s ?k = Some c" for c
    using cm_invD(3)[OF inv, of ?k c] that by (simp add: cell_ok_def)
  have kept: "closing fd k s1"
    if "cm_Cell s1 fd \<noteq> None" "count_list (cm_closed s1) fd = k" "cm_tasks s1 = ts @ new" "\<not> (ct_event ct = CHR ''D'' \<and> ?k = fd)" for new
    using that o(3) by (auto simp: closing_def)
  consider "ct_event ct = CHR ''S''" | "ct_event ct = CHR ''D''" "?k = fd" | "ct_event ct = CHR ''D''" "?k \<noteq> fd"
    | "ct_event ct = CHR ''A''" "cm_Cell s ?k = None" | c where "ct_event ct = CHR ''A''" "cm_Cell s ?k = Some c"
    | "ct_event ct \<noteq> CHR ''S''" "ct_event ct \<noteq> CHR ''D''" "ct_event ct \<noteq> CHR ''A''" by blast
  then show ?thesis
  proof cases
    case 1
    then have "cm_Cell s1 fd \<noteq> None" "cm_closed s1 = cm_closed s" "cm_tasks s1 = ts"
      using one ts(2) o(1) by (auto simp: handleOne_def handleSend_def Let_def obind_eq_Inr cm_tasks_def split: if_splits option.splits)
    then show ?thesis using kept[of "[]"] 1 o(2) by simp
  next
    case 2
    obtain c where "cm_Cell s ?k = Some c" using o(1) 2(2) by auto
    then have "fd_lost fd (Suc k) s1" using one 2 o(2) cfd
      by (auto simp: handleOne_def handleDel_def delClientCell_def obind_eq_Inr epoll_del_def fd_lost_def)
    then show ?thesis by (simp add: closing_def)
  next
    case 3
    then have "cm_Cell s1 fd \<noteq> None \<and> count_list (cm_closed s1) fd = k \<and> cm_tasks s1 = ts" using one o(1,2) ts(2) cfd
      by (auto simp: handleOne_def handleDel_def delClientCell_def obind_eq_Inr cm_tasks_def split: option.splits)
    then show ?thesis using kept[of "[]"] 3 by simp
  next
    case 4
    then have d: "delTask ?k ?s = Inr s1" using one by (simp add: handleOne_def handleAdd_def)
    note f = delTask_frame[OF inv d]
    obtain new where "cm_tasks s1 = cm_tasks ?s @ new" using f(6) by blast
    then show ?thesis using kept[of new] 4 f(1,5) o(1,2) ts(2) by simp
  next
    case 5
    then have "cm_Cell s1 fd \<noteq> None" "cm_closed s1 = cm_closed s" "cm_tasks s1 = ts"
      using one o(1) ts(2) by (auto simp: handleOne_def handleAdd_def Let_def cm_tasks_def)
    then show ?thesis using kept[of "[]"] 5 o(2) by simp
  next
    case 6
    then have "s1 = ?s" using one by (simp add: handleOne_def)
    then show ?thesis using kept[of "[]"] 6 o(1,2) ts(2) by simp
  qed
qed

text \<open>An event that means the peer has hung up.\<close>

definition hangup :: "io_event \<Rightarrow> bool" where
  "hangup e \<longleftrightarrow> ev_events e AND (EPOLLHUP OR EPOLLERR OR EPOLLRDHUP) \<noteq> 0"

text \<open>
  C12: a connection whose peer hangs up is closed once.  In any reachable state with room in the task
  queue, the event posts a task, and the next \<open>handleTask\<close>, whatever else is queued, returns with the
  connection gone from the map, no longer watched, and its descriptor closed exactly once more.
\<close>

theorem hangup_closes_once:
  assumes "cm_reach server_callbacks (cellManager_new epfd (Some hub) cpuN) s" "cm_Cell s (ev_fd e) \<noteq> None" "hangup e"
    and "length (cm_tasks s) < srt_cap (cm_cellTask s)"
  shows "\<exists>s1 s2. doEvent server_callbacks e s = Inr (RecvDone 0, s1) \<and> handleTask server_callbacks s1 = Some (Inr s2)
    \<and> cm_tasks s2 = [] \<and> cm_Cell s2 (ev_fd e) = None \<and> cm_epoll s2 (ev_fd e) = None
    \<and> count_list (cm_closed s2) (ev_fd e) = Suc (count_list (cm_closed s) (ev_fd e))"
proof -
  let ?fd = "ev_fd e" and ?k = "count_list (cm_closed s) (ev_fd e)"
  have inv: "cm_inv s" "cm_TNotify s \<noteq> None" using cm_started_inv[of hub s] assms(1) by blast+
  obtain s1 where s1: "delTask ?fd s = Inr s1" "cm_inv s1" "cm_TNotify s1 = cm_TNotify s"
    "cm_tasks s1 = cm_tasks s @ [cellTask_new\<lparr>ct_event := CHR ''D'', ct_clientid := ?fd\<rparr>]"
    using delTask_ok[OF inv(1), of ?fd] srt_room_tasks[OF inv(1)] assms(4) by auto
  note f = delTask_frame[OF inv(1) s1(1)]
  have ev: "doEvent server_callbacks e s = Inr (RecvDone 0, s1)" using assms(3) s1(1) by (simp add: doEvent_def hangup_def)
  have cl: "closing ?fd ?k s1" using f(1,5) assms(2) s1(4) by (auto simp: closing_def)
  have h: "cm_TNotify s1 \<noteq> None" using s1(3) inv(2) by simp
  have "\<exists>s2. handleTask server_callbacks s1 = Some (Inr s2) \<and> cm_inv s2 \<and> cm_TNotify s2 \<noteq> None \<and> cm_tasks s2 = [] \<and> closing ?fd ?k s2"
    by (rule sh.handleTask_induct[OF s1(2) h, of "closing ?fd ?k", OF cl]) (rule handleOne_closes)
  then show ?thesis using ev by (fastforce simp: closing_def fd_lost_def)
qed

theorem hangup_closes_once_witness:
  "\<exists>s s1 s2. cm_Cell (s :: nat server_notify cellManager) 5 \<noteq> None
     \<and> doEvent server_callbacks \<lparr>ev_fd = 5, ev_events = EPOLLHUP, ev_reads = [], ev_writes = (\<lambda>_. WriteOk 0)\<rparr> s = Inr (RecvDone 0, s1)
     \<and> handleTask server_callbacks s1 = Some (Inr s2) \<and> cm_Cell s2 5 = None"
proof -
  let ?e = "\<lparr>ev_fd = 5, ev_events = EPOLLHUP, ev_reads = [], ev_writes = (\<lambda>_. WriteOk 0)\<rparr>"
  obtain s where s: "cm_reach server_callbacks (cellManager_new 3 (Some count_hub) 0) s" "cm_Cell s 5 \<noteq> None"
    "length (cm_tasks s) < srt_cap (cm_cellTask s)"
    using cm_demo_accept by fastforce
  have "hangup ?e" by (simp add: hangup_def EPOLLHUP_def EPOLLERR_def EPOLLRDHUP_def)
  from hangup_closes_once[OF s(1) _ this s(3)] s(2) show ?thesis by auto
qed

section \<open>An accept in the middle of a delete\<close>

text \<open>
  \<open>handleDel\<close> closes the descriptor of a connection before it erases the connection from \<open>m_Cell\<close>,
  and \<open>addTask\<close> writes \<open>m_Cell\<close> from the listening thread.  Here \<open>handleDel\<close> is split at this point,
  and the listener is let in between: the kernel is free to hand out the number just closed.
\<close>

text \<open>What \<open>handleDel\<close> does after \<open>delClientCell\<close>.\<close>

definition handleDel_erase :: "'h tNotify \<Rightarrow> int \<Rightarrow> 'h cellManager \<Rightarrow> 'h cellManager" where
  "handleDel_erase n fd s = s\<lparr>cm_Cell := (cm_Cell s)(fd := None), cm_TNotify := OnDisconnect n (cm_TNotify s) (word_of_int fd)\<rparr>"

lemma handleDel_split:
  assumes "cm_Cell s (ct_clientid ct) = Some c"
  shows "handleDel n ct s = obind (delClientCell c s) (\<lambda>s1. Inr (handleDel_erase n (ct_clientid ct) s1))"
  using assms by (simp add: handleDel_def handleDel_erase_def)

lemma cm_inv_erase:
  assumes inv: "cm_inv s" and c: "cm_Cell s fd = Some c" "cell_addrs c = []"
  shows "cm_inv (s\<lparr>cm_Cell := (cm_Cell s)(fd := None)\<rparr>)"
proof -
  let ?s = "s\<lparr>cm_Cell := (cm_Cell s)(fd := None)\<rparr>"
  have "cm_refs ?s = cm_refs s" by (rule cm_refs_eqI) (auto simp: cm_refs_simps cm_tasks_def c)
  then show ?thesis using inv by (auto simp: cm_inv_def cm_tasks_def)
qed

text \<open>
  C31: a connection accepted onto a number whose old connection is just being deleted is lost.  In any
  reachable state, if the listener gets the number back from the kernel after \<open>delClientCell\<close> has
  closed it and before \<open>handleDel\<close> has erased the map entry, the erasure removes the new connection:
  every task left, its \<open>'A'\<close> included, is then handled without a fault, and afterwards the connection is
  in no map, is not watched, and its descriptor has not been closed again, so that its peer waits for
  ever.
\<close>

theorem accept_during_delete_lost:
  assumes "cm_reach server_callbacks (cellManager_new epfd (Some hub) cpuN) s" "cm_Cell s fd = Some c"
  shows "\<exists>s1 s2 s3. delClientCell c s = Inr s1 \<and> addTask (clientCell_new fd rb sb ev ip port) s1 = Inr s2
    \<and> handleTask server_callbacks (handleDel_erase server_callbacks fd s2) = Some (Inr s3)
    \<and> cm_tasks s3 = [] \<and> cm_Cell s3 fd = None \<and> cm_epoll s3 fd = None
    \<and> count_list (cm_closed s3) fd = Suc (count_list (cm_closed s) fd)"
proof -
  let ?new = "clientCell_new fd rb sb ev ip port"
  have inv: "cm_inv s" "cm_TNotify s \<noteq> None" using cm_started_inv[of hub s] assms(1) by blast+
  obtain s1 where s1: "delClientCell c s = Inr s1" "cm_inv (s1\<lparr>cm_Cell := (cm_Cell s1)(fd := None)\<rparr>)"
    "cm_closed s1 = fd # cm_closed s" "cm_epoll s1 = epoll_del fd (cm_epoll s)" "cm_TNotify s1 = cm_TNotify s"
    using delClientCell_ok[OF inv(1) assms(2)] by blast
  let ?e1 = "s1\<lparr>cm_Cell := (cm_Cell s1)(fd := None)\<rparr>"
  have new: "ce_ClientFd ?new = fd" "cell_ok fd ?new" "ce_pending ?new = []"
    using ce_inv_new by (simp_all add: clientCell_new_def cell_ok_def)
  obtain s2 where s2: "addTask ?new ?e1 = Inr s2" "cm_inv s2" "cm_Cell s2 = (cm_Cell ?e1)(fd \<mapsto> ?new)" "cm_TNotify s2 = cm_TNotify ?e1"
    using addTask_ok[OF s1(2), of ?new] new by auto
  have same: "addTask ?new s1 = Inr s2" using s2(1) new(1) by (simp add: addTask_def Let_def)
  have frame: "cm_closed s2 = cm_closed s1" "cm_epoll s2 = cm_epoll s1"
    using same by (auto simp: addTask_def cm_push_def Let_def obind_eq_Inr)
  let ?e2 = "handleDel_erase server_callbacks fd s2"
  have "cm_inv (s2\<lparr>cm_Cell := (cm_Cell s2)(fd := None)\<rparr>)"
    by (rule cm_inv_erase[OF s2(2)]) (use s2(3) new(3) in \<open>simp_all add: cell_addrs_def\<close>)
  then have i: "cm_inv ?e2" using cm_inv_other(1)[of "s2\<lparr>cm_Cell := (cm_Cell s2)(fd := None)\<rparr>"] by (simp add: handleDel_erase_def)
  have h: "cm_TNotify ?e2 \<noteq> None" using s2(4) s1(5) inv(2) by (simp add: handleDel_erase_def server_callbacks_def)
  have l: "fd_lost fd (Suc (count_list (cm_closed s) fd)) ?e2"
    using frame s1(3,4) by (simp add: fd_lost_def handleDel_erase_def epoll_del_def)
  have "\<exists>s3. handleTask server_callbacks ?e2 = Some (Inr s3) \<and> cm_inv s3 \<and> cm_TNotify s3 \<noteq> None \<and> cm_tasks s3 = []
      \<and> fd_lost fd (Suc (count_list (cm_closed s) fd)) s3"
    by (rule sh.handleTask_induct[OF i h, of "fd_lost fd (Suc (count_list (cm_closed s) fd))", OF l]) (rule handleOne_lost)
  then show ?thesis using s1(1) same by (auto simp: fd_lost_def)
qed

theorem accept_during_delete_lost_witness:
  "\<exists>s c s1 s2 s3. cm_Cell (s :: nat server_notify cellManager) 5 = Some c \<and> delClientCell c s = Inr s1
     \<and> addTask (clientCell_new 5 (\<lambda>_. 0) (\<lambda>_. None) 0 ''new'' 81) s1 = Inr s2
     \<and> handleTask server_callbacks (handleDel_erase server_callbacks 5 s2) = Some (Inr s3) \<and> cm_Cell s3 5 = None"
proof -
  obtain s where s: "cm_reach server_callbacks (cellManager_new 3 (Some count_hub) 0) s"
    "cm_Cell s = [5 \<mapsto> clientCell_new 5 (\<lambda>_. 0) (\<lambda>_. None) 0 ''peer'' 80]"
    using cm_demo_accept by blast
  then have c: "cm_Cell s 5 = Some (clientCell_new 5 (\<lambda>_. 0) (\<lambda>_. None) 0 ''peer'' 80)" by simp
  from accept_during_delete_lost[OF s(1) c, of "\<lambda>_. 0" "\<lambda>_. None" 0 "''new''" 81] c show ?thesis by blast
qed

end
