(* ===== verification/Cell_Manager_Memory.thy ===== *)
theory Cell_Manager_Memory
  imports Cell_Manager_Stream
begin

text \<open>
  The memory of the messages to send: \<open>sendTask\<close> allocates one, and it is freed when it has been
  written or with its connection.  As long as the task queue has room, and every task to send finds
  its connection with room in the ring, each message allocated and not yet freed is owned by exactly
  one task or connection, so that the destructor frees everything; in the other cases it is lost.
\<close>

section \<open>Messages without an owner\<close>

definition cm_lost :: "'h cellManager \<Rightarrow> nat set" where
  "cm_lost s = {a. cm_heap s a \<noteq> None \<and> (\<forall>x. a \<notin> set (cm_refs s x))}"

definition cm_saves :: "'h cellManager \<Rightarrow> 'h cellManager \<Rightarrow> bool" where
  "cm_saves s s' \<longleftrightarrow> cm_lost s' \<subseteq> cm_lost s"

lemma cm_savesI:
  assumes "\<And>a. cm_heap s a = None \<Longrightarrow> cm_heap s' a = None"
    and "\<And>a x. a \<in> set (cm_refs s x) \<Longrightarrow> cm_heap s' a \<noteq> None \<Longrightarrow> \<exists>y. a \<in> set (cm_refs s' y)"
  shows "cm_saves s s'"
  unfolding cm_saves_def cm_lost_def using assms by (smt (verit) mem_Collect_eq subsetI)

lemma cm_saves_refl [simp]: "cm_saves s s"
  by (simp add: cm_saves_def)

lemma cm_saves_trans: "cm_saves s s' \<Longrightarrow> cm_saves s' s'' \<Longrightarrow> cm_saves s s''"
  by (auto simp: cm_saves_def)

lemma cm_saves_refs: "cm_refs s' = cm_refs s \<Longrightarrow> cm_heap s' = cm_heap s \<Longrightarrow> cm_saves s s'"
  by (auto simp: cm_saves_def cm_lost_def)

lemma cm_refs_cell:
  assumes "cm_Cell s fd = Some c" "cell_addrs c' = cell_addrs c" "cm_Cell s' = (cm_Cell s)(fd \<mapsto> c')"
    "task_addrs (cm_tasks s') = task_addrs (cm_tasks s)"
  shows "cm_refs s' = cm_refs s"
  by (rule cm_refs_eqI) (use assms in \<open>auto simp: cm_refs_simps\<close>)

lemma task_addrs_quiet: "\<forall>t\<in>set ts. ct_event t \<noteq> CHR ''S'' \<Longrightarrow> task_addrs (us @ ts) = task_addrs us"
  by (simp add: task_addrs_def filter_empty_conv)

lemma cm_refs_post:
  assumes "cm_Cell s' = cm_Cell s" "cm_tasks s' = cm_tasks s @ ts" "\<forall>t\<in>set ts. ct_event t \<noteq> CHR ''S''"
  shows "cm_refs s' = cm_refs s"
  by (rule cm_refs_eqI) (use assms(1,2) task_addrs_quiet[OF assms(3)] in \<open>auto simp: cm_refs_simps\<close>)

section \<open>Sending\<close>

text \<open>What leaves the ring has been freed.\<close>

lemma send_loop_frees:
  assumes "send_loop k ws c h out = Inr (c', h', out')" "ce_inv c" "ce_pending c = map Some as" "h' a \<noteq> None"
  shows "h a \<noteq> None \<and> (a \<in> set as \<longrightarrow> Some a \<in> set (ce_pending c'))"
  using assms
proof (induction k arbitrary: ws c h out "as")
  case 0
  then show ?case by auto
next
  case (Suc k)
  show ?case
  proof (cases "ce_SendWritePos c = ce_SendReadPos c")
    case True
    then show ?thesis using Suc.IH[OF _ Suc.prems(2-4)] Suc.prems(1) by simp
  next
    case ne: False
    let ?c = "c\<lparr>ce_SendBuf := (ce_SendBuf c)(unat (ce_SendReadPos c) := None), ce_SendReadPos := send_next (ce_SendReadPos c)\<rparr>"
    note pop = ce_pending_pop[OF Suc.prems(2) ne[symmetric] refl, of None]
    obtain b as' where b: "as = b # as'" "ce_SendBuf c (unat (ce_SendReadPos c)) = Some b" "ce_pending ?c = map Some as'"
      using pop(1) Suc.prems(3) by (cases "as") auto
    have run: "send_loop (Suc k) ws c h out = Inr (c', h', out') \<Longrightarrow>
        (\<exists>ws'. send_loop k ws' c h out = Inr (c', h', out')) \<or> c' = c \<and> (h' = h \<or> (\<exists>sc. h b \<noteq> None \<and> h' = h(b \<mapsto> sc)))
        \<or> (\<exists>ws' out2. send_loop k ws' ?c (h(b := None)) out2 = Inr (c', h', out'))"
      using ne b(2) by (auto simp: send_slot_def obind_eq_Inr split: option.splits sum.splits if_splits)
    then consider ws' where "send_loop k ws' c h out = Inr (c', h', out')" | "c' = c" "h' = h"
      | sc where "c' = c" "h b \<noteq> None" "h' = h(b \<mapsto> sc)"
      | ws' out2 where "send_loop k ws' ?c (h(b := None)) out2 = Inr (c', h', out')"
      using Suc.prems(1) by blast
    then show ?thesis
    proof cases
      case 1
      then show ?thesis by (rule Suc.IH[OF _ Suc.prems(2-4)])
    next
      case 2
      then show ?thesis using Suc.prems(3,4) by auto
    next
      case 3
      then show ?thesis using Suc.prems(3,4) by (auto split: if_splits)
    next
      case 4
      from Suc.IH[OF this pop(2) b(3) Suc.prems(4)] show ?thesis using b(1) by (auto split: if_splits)
    qed
  qed
qed

lemma doSend_saves:
  assumes inv: "cm_inv s" and d: "doSend fd ws s = Inr s'"
  shows "cm_saves s s'"
proof (cases "cm_Cell s fd")
  case None
  then show ?thesis using d by (simp add: doSend_def)
next
  case (Some c)
  note live = cell_addrs_live[OF inv Some]
  obtain c' h' out where l: "send_loop serverMaxSendTimes ws c (cm_heap s) [] = Inr (c', h', out)"
    and s': "cm_Cell s' = (cm_Cell s)(fd \<mapsto> c')" "cm_heap s' = h'" "cm_tasks s' = cm_tasks s"
    using d Some by (auto simp: doSend_def obind_eq_Inr cm_tasks_def)
  note free = send_loop_frees[OF l live(1,2)]
  show ?thesis
  proof (rule cm_savesI)
    show "cm_heap s' a = None" if "cm_heap s a = None" for a
      by (rule ccontr) (use that free[of a] s'(2) in simp)
    show "\<exists>y. a \<in> set (cm_refs s' y)" if a: "a \<in> set (cm_refs s x)" "cm_heap s' a \<noteq> None" for a x
    proof (cases "x = InCell fd")
      case True
      then have "Some a \<in> set (ce_pending c')" using a free[of a] s'(2) Some by (simp add: cm_refs_simps)
      then have "a \<in> set (cm_refs s' (InCell fd))" using s'(1) by (force simp: cm_refs_simps cell_addrs_def image_iff)
      then show ?thesis by blast
    next
      case False
      then have "a \<in> set (cm_refs s' x)" using a(1) s' by (cases x) (auto simp: cm_refs_simps)
      then show ?thesis by blast
    qed
  qed
qed

sublocale safe_handler < saves: event_frame n ok cm_saves
proof unfold_locales
  show "cm_saves s s'" if "cm_Cell s fd = Some c" "cell_addrs c' = cell_addrs c" "cm_Cell s' = (cm_Cell s)(fd \<mapsto> c')"
    "cm_heap s' = cm_heap s" "cm_tasks s' = cm_tasks s" for s s' :: "'h cellManager" and fd c c'
    using cm_saves_refs[OF cm_refs_cell[OF that(1-3)] that(4)] that(5) by simp
  show "cm_saves s s'" if "cm_Cell s' = cm_Cell s" "cm_heap s' = cm_heap s"
    "cm_tasks s' = cm_tasks s @ ts" "\<forall>t\<in>set ts. ct_event t = CHR ''D'' \<and> ct_clientid t = fd" for s s' :: "'h cellManager" and ts fd
    by (rule cm_saves_refs[OF cm_refs_post[OF that(1,3)] that(2)]) (use that(4) in auto)
qed (blast intro: cm_saves_refl cm_saves_trans doSend_saves)+

section \<open>Tasks\<close>

text \<open>Every task to send finds its connection, with room for all messages on their way to it.\<close>

definition cm_deliverable :: "'h cellManager \<Rightarrow> bool" where
  "cm_deliverable s \<longleftrightarrow> (\<forall>t\<in>set (cm_tasks s). ct_event t = CHR ''S'' \<longrightarrow> cm_quiet (ct_clientid t) s)"

lemma handleSend_saves:
  fixes s :: "'h cellManager" and q :: "cellTask srt_queue"
  defines "s0 \<equiv> s\<lparr>cm_cellTask := q\<rparr>"
  assumes inv: "cm_inv s" and t: "cm_tasks s = ct # ts" and t0: "cm_tasks s0 = ts"
    and S: "ct_event ct = CHR ''S''" "ct_sC ct = Some a" and one: "handleSend ct s0 = Inr s1" and quiet: "cm_quiet (ct_clientid ct) s"
  shows "cm_saves s s1"
proof -
  let ?fd = "ct_clientid ct"
  obtain c where c: "cm_Cell s ?fd = Some c" "length (cell_addrs c) + length (send_tasks ?fd (ct # ts)) < SYSSENDBUF"
    using cm_quietD[OF quiet] t by metis
  have ci: "ce_inv c" by (rule cell_addrs_live(1)[OF inv c(1)])
  have "\<not> send_full c" using send_full_length[OF ci] c(2) S(1) by auto
  from handleSend_push[of s0 ct c, OF _ ci this S(2)] c(1) obtain c' where
    c': "handleSend ct s0 = Inr (s0\<lparr>cm_Cell := (cm_Cell s0)(?fd \<mapsto> c')\<rparr>)" "cell_addrs c' = cell_addrs c @ [a]"
    by (auto simp: s0_def)
  then have s1: "cm_Cell s1 = (cm_Cell s)(?fd \<mapsto> c')" "cm_heap s1 = cm_heap s" "cm_tasks s1 = ts"
    using one t0 by (auto simp: s0_def cm_tasks_def)
  have "\<exists>y. b \<in> set (cm_refs s1 y)" if b: "b \<in> set (cm_refs s x)" for b x
  proof (cases "b = a")
    case True
    then have "b \<in> set (cm_refs s1 (InCell ?fd))" using s1(1) c'(2) by (simp add: cm_refs_simps)
    then show ?thesis by blast
  next
    case False
    then have "b \<in> set (cm_refs s1 x)"
      using b s1 c(1) c'(2) t S by (cases x) (auto simp: cm_refs_simps task_addrs_def split: if_splits)
    then show ?thesis by blast
  qed
  then show ?thesis using s1(2) by (intro cm_savesI) auto
qed

context safe_handler
begin

lemma handleOne_saves:
  fixes s :: "'h cellManager" and q :: "cellTask srt_queue"
  defines "s0 \<equiv> s\<lparr>cm_cellTask := q\<rparr>"
  assumes inv: "cm_inv s" and t: "cm_tasks s = ct # ts" and inv0: "cm_inv s0" and t0: "cm_tasks s0 = ts"
    and S: "ct_event ct = CHR ''S'' \<longrightarrow> (\<exists>a sc. ct_sC ct = Some a \<and> cm_heap s a = Some sc \<and> sc_ok sc
        \<and> (\<forall>x. a \<notin> set (cm_refs s0 x)))"
    and one: "handleOne n ct s0 = Inr s1" and quiet: "ct_event ct = CHR ''S'' \<Longrightarrow> cm_quiet (ct_clientid ct) s"
  shows "cm_saves s s1"
proof -
  have pop: "cm_saves s s0" if "ct_event ct \<noteq> CHR ''S''"
  proof (rule cm_saves_refs)
    show "cm_refs s0 = cm_refs s"
      by (rule cm_refs_eqI) (use that t t0 in \<open>auto simp: cm_refs_simps task_addrs_def s0_def\<close>)
  qed (simp add: s0_def)
  consider (S) "ct_event ct = CHR ''S''" | (D) "ct_event ct = CHR ''D''" | (A) "ct_event ct = CHR ''A''"
    | (none) "ct_event ct \<noteq> CHR ''S''" "ct_event ct \<noteq> CHR ''D''" "ct_event ct \<noteq> CHR ''A''" by blast
  then show ?thesis
  proof cases
    case S
    then show ?thesis
      using handleSend_saves[OF inv t, of q] t0 one quiet assms(6) by (auto simp: handleOne_def s0_def)
  next
    case D
    then have h: "handleDel n ct s0 = Inr s1" using one by (simp add: handleOne_def)
    have "cm_saves s0 s1"
    proof (cases "cm_Cell s0 (ct_clientid ct)")
      case None
      then show ?thesis using h by (simp add: handleDel_def)
    next
      case (Some c)
      obtain s2 where s2: "delClientCell c s0 = Inr s2" "cm_Cell s2 = cm_Cell s0" "cm_cellTask s2 = cm_cellTask s0"
        "cm_heap s2 = free_all (cell_addrs c) (cm_heap s0)"
        using delClientCell_ok[OF inv0 Some] by blast
      have s1: "cm_Cell s1 = (cm_Cell s0)(ct_clientid ct := None)" "cm_heap s1 = free_all (cell_addrs c) (cm_heap s0)"
        "cm_tasks s1 = cm_tasks s0"
        using h s2 Some by (auto simp: handleDel_def cm_tasks_def)
      show ?thesis
      proof (rule cm_savesI)
        show "\<exists>y. a \<in> set (cm_refs s1 y)" if "a \<in> set (cm_refs s0 x)" "cm_heap s1 a \<noteq> None" for a x
          using that s1 Some by (intro exI[of _ x]) (cases x, auto simp: cm_refs_simps free_all_def split: if_splits)
      qed (simp add: s1(2) free_all_def)
    qed
    then show ?thesis using cm_saves_trans[OF pop] D by simp
  next
    case A
    then have h: "handleAdd n ct s0 = Inr s1" using one by (simp add: handleOne_def)
    have "cm_saves s0 s1"
    proof (cases "cm_Cell s0 (ct_clientid ct)")
      case None
      then show ?thesis using h saves.R_delTask[OF inv0] by (auto simp: handleAdd_def)
    next
      case (Some c)
      let ?c = "c\<lparr>ce_Events := EPOLLET OR EPOLLIN OR EPOLLPRI OR EPOLLRDHUP OR EPOLLERR\<rparr>"
      have a: "cell_addrs ?c = cell_addrs c" by (simp add: cell_addrs_def ce_pending_def)
      have "cm_Cell s1 = (cm_Cell s0)(ct_clientid ct \<mapsto> ?c)" "cm_heap s1 = cm_heap s0" "cm_wire s1 = cm_wire s0" "cm_tasks s1 = cm_tasks s0"
        using h Some by (auto simp: handleAdd_def Let_def cm_tasks_def)
      from saves.R_cell[OF Some a this] show ?thesis .
    qed
    then show ?thesis using cm_saves_trans[OF pop] A by simp
  next
    case none
    then show ?thesis using one pop by (simp add: handleOne_def)
  qed
qed

lemma run_pass_saves:
  assumes inv: "cm_inv s" "ok (cm_TNotify s)" and dl: "cm_deliverable s" and run: "run_pass n keys wait s = Some (Inr (b, s'))"
  shows "cm_saves s s'"
proof -
  let ?P = "\<lambda>s'. cm_saves s s' \<and> cm_deliverable s' \<and> ok (cm_TNotify s')"
  have "?P s" using dl inv(2) by simp
  moreover have "?P s1"
    if "cm_inv t" "?P t" "cm_tasks t = ct # ts" "cm_inv (t\<lparr>cm_cellTask := q\<rparr>)" "cm_tasks (t\<lparr>cm_cellTask := q\<rparr>) = ts"
      "ct_event ct = CHR ''S'' \<longrightarrow> (\<exists>a sc. ct_sC ct = Some a \<and> cm_heap t a = Some sc \<and> sc_ok sc
        \<and> (\<forall>x. a \<notin> set (cm_refs (t\<lparr>cm_cellTask := q\<rparr>) x)))"
      "handleOne n ct (t\<lparr>cm_cellTask := q\<rparr>) = Inr s1" for t ct ts q s1
  proof -
    note hyp = that
    have quiet: "cm_quiet (ct_clientid u) t" if "u \<in> set (ct # ts)" "ct_event u = CHR ''S''" for u
      using \<open>?P t\<close> \<open>cm_tasks t = ct # ts\<close> that by (auto simp: cm_deliverable_def)
    have "cm_saves t s1" by (rule handleOne_saves[OF hyp(1,3-7)]) (use quiet in auto)
    moreover obtain new where new: "cm_tasks s1 = ts @ new" "\<forall>t\<in>set new. ct_event t = CHR ''D''" "ok (cm_TNotify s1)"
      using handleOne_ok[OF hyp(4), of ct] hyp(2,5-7) cm_invD(2)[OF hyp(1)] hyp(3) by fastforce
    moreover have "cm_deliverable s1"
      using handleOne_stream[OF hyp(1,3-7)] quiet new by (auto simp: cm_deliverable_def)
    ultimately show ?thesis using hyp(2) cm_saves_trans by blast
  qed
  ultimately have "\<exists>s1. handleTask n s = Some (Inr s1) \<and> cm_inv s1 \<and> ok (cm_TNotify s1) \<and> cm_tasks s1 = [] \<and> ?P s1"
    by (rule handleTask_induct[OF inv])
  then obtain s1 where
    s1: "handleTask n s = Some (Inr s1)" "cm_inv s1" "ok (cm_TNotify s1)" "cm_saves s s1" by blast
  have s2: "cm_inv (checkWrite keys s1)" "ok (cm_TNotify (checkWrite keys s1))"
    using checkWrite_ok[OF s1(2), of keys] s1(3) by simp_all
  note k = cm_saves_trans[OF s1(4) saves.R_checkWrite[of s1 keys]]
  show ?thesis
  proof (cases wait)
    case None
    then show ?thesis using run s1(1) k by (simp add: run_pass_def)
  next
    case (Some es)
    then have "doEvents n es (checkWrite keys s1) = Inr (b, s')" using run s1(1) by (simp add: run_pass_def)
    from cm_saves_trans[OF k saves.R_doEvents[OF s2 this]] show ?thesis .
  qed
qed

end

section \<open>Runs in which nothing is lost\<close>

lemma sendTask_lost:
  assumes inv: "cm_inv s" and c: "cm_Cell s fd \<noteq> None" and len: "0 \<le> len" "len + 1 < 2 ^ 31" "nat len \<le> length p"
    and s': "sendTask fd p len s = Inr (r, s')"
  shows "cm_lost s' = (if length (cm_tasks s) < srt_cap (cm_cellTask s) then cm_lost s else insert (cm_next s) (cm_lost s))"
proof -
  let ?a = "cm_next s" and ?ok = "length (cm_tasks s) < srt_cap (cm_cellTask s)"
  let ?ct = "cellTask_new\<lparr>ct_event := CHR ''S'', ct_clientid := fd, ct_sC := Some ?a\<rparr>"
  obtain sc where sc: "sendCell_make p len = Inr sc" using sendCell_make_ok[OF len] by blast
  have t: "cm_Cell s' = cm_Cell s" "cm_tasks s' = cm_tasks s @ (if ?ok then [?ct] else [])"
    using sendTask_stream[OF inv c len] s' by auto
  have h: "cm_heap s' = (cm_heap s)(?a \<mapsto> sc)"
    using s' c sc by (auto simp: sendTask_def cm_push_def Let_def obind_eq_Inr split: if_splits)
  have refs: "cm_refs s' = (if ?ok then (cm_refs s)(InQueue := cm_refs s InQueue @ [?a]) else cm_refs s)"
    by (rule cm_refs_eqI) (auto simp: cm_refs_simps t task_addrs_append task_addrs_def)
  have new: "cm_heap s ?a = None" "?a \<notin> set (cm_refs s x)" for x
    using ownedD(3)[OF cm_invD(4)[OF inv], of ?a x] cm_invD(5)[OF inv, of ?a] by (cases "cm_heap s ?a"; auto)+
  have new': "?a \<notin> cm_lost s" using new(1) by (simp add: cm_lost_def)
  show ?thesis
  proof (cases ?ok)
    case True
    have "cm_lost s' = cm_lost s"
    proof (rule set_eqI)
      show "a \<in> cm_lost s' \<longleftrightarrow> a \<in> cm_lost s" for a
        using new new' True by (cases "a = ?a") (auto simp: cm_lost_def h refs split: if_splits)
    qed
    then show ?thesis using True by simp
  next
    case False
    then show ?thesis using new(2) by (auto simp: cm_lost_def h refs)
  qed
qed

text \<open>The operations that lose no message.\<close>

fun cm_saving :: "'h cellManager \<Rightarrow> cm_op \<Rightarrow> bool" where
  "cm_saving s (OpAccept fd rb sb ev ip port) \<longleftrightarrow> True"
| "cm_saving s (OpSend fd p len) \<longleftrightarrow> cm_Cell s fd = None \<or> length (cm_tasks s) < srt_cap (cm_cellTask s)"
| "cm_saving s (OpDisconnect fd) \<longleftrightarrow> True"
| "cm_saving s (OpPass keys wait) \<longleftrightarrow> cm_deliverable s"

inductive cm_saving_reach :: "'h tNotify \<Rightarrow> 'h cellManager \<Rightarrow> 'h cellManager \<Rightarrow> bool" for n s0 where
  start: "cm_saving_reach n s0 s0"
| step: "cm_saving_reach n s0 s \<Longrightarrow> cm_op_ok s op \<Longrightarrow> cm_saving s op \<Longrightarrow> cm_exec n op s = Some (Inr s') \<Longrightarrow>
    cm_saving_reach n s0 s'"

context safe_handler
begin

lemma cm_exec_saves:
  assumes inv: "cm_inv s" "ok (cm_TNotify s)" and op: "cm_op_ok s op" "cm_saving s op" "cm_exec n op s = Some (Inr s')"
  shows "cm_saves s s'"
proof (cases op)
  case (OpAccept fd rb sb ev ip port)
  let ?c = "clientCell_new fd rb sb ev ip port"
  have fd: "ce_ClientFd ?c = fd" by (simp add: clientCell_new_def)
  have add: "addTask ?c s = Inr s'" "cm_Cell s fd = None" using op(1,3) OpAccept by simp_all
  have ok: "cell_ok (ce_ClientFd ?c) ?c" using ce_inv_new fd by (simp add: cell_ok_def)
  have t: "cm_Cell s' = (cm_Cell s)(fd \<mapsto> ?c)"
    "cm_tasks s' = cm_tasks s @ (if srt_room (cm_cellTask s) then [cellTask_new\<lparr>ct_event := CHR ''A'', ct_clientid := fd\<rparr>] else [])"
    using addTask_ok[OF inv(1) _ ok ce_inv_new(2)] add fd by auto
  have h: "cm_heap s' = cm_heap s" using add(1) by (auto simp: addTask_def cm_push_def Let_def obind_eq_Inr)
  have addrs: "cell_addrs ?c = []" by (simp add: cell_addrs_def ce_inv_new(2))
  have "cm_refs s' = cm_refs s"
    by (rule cm_refs_eqI) (auto simp: cm_refs_simps t task_addrs_append add(2) addrs, simp_all add: task_addrs_def)
  then show ?thesis using h by (rule cm_saves_refs)
next
  case (OpSend fd p len)
  then obtain r where s': "sendTask fd p len s = Inr (r, s')" using op(3) by (auto simp: obind_eq_Inr)
  show ?thesis
  proof (cases "cm_Cell s fd = None")
    case True
    then show ?thesis using s' by (simp add: sendTask_def)
  next
    case False
    then have "length (cm_tasks s) < srt_cap (cm_cellTask s)" using op(2) OpSend False by fastforce
    then show ?thesis using sendTask_lost[OF inv(1) False _ _ _ s'] op(1) OpSend by (simp add: cm_saves_def)
  qed
next
  case (OpDisconnect fd)
  then show ?thesis using saves.R_delTask[OF inv(1)] op(3) by simp
next
  case (OpPass keys wait)
  then obtain b where "run_pass n keys wait s = Some (Inr (b, s'))" using op(3) by (auto simp: obind_eq_Inr)
  then show ?thesis using run_pass_saves[OF inv] op(2) OpPass by simp
qed

lemma cm_saving_reach_lost:
  assumes "cm_saving_reach n s0 s" "cm_inv s0" "ok (cm_TNotify s0)"
  shows "cm_inv s \<and> ok (cm_TNotify s) \<and> cm_lost s \<subseteq> cm_lost s0"
  using assms
proof (induction rule: cm_saving_reach.induct)
  case start
  then show ?case by simp
next
  case (step s op s')
  then have "cm_saves s s'" using cm_exec_saves[of s op s'] by blast
  then show ?case using cm_exec_ok[of s op] step by (auto simp: cm_saves_def)
qed

end

text \<open>
  C8: no message leaks.  As long as \<open>sendTask\<close> finds room in the task queue, and a pass of the loop
  finds for every task to send the connection, open and with room in its ring: every message
  allocated and not freed is owned by exactly one connection or by the queue, and the destructor,
  at any time, leaves none.
\<close>

theorem messages_never_leak:
  assumes "cm_saving_reach server_callbacks (cellManager_new epfd (Some hub) cpuN) s"
    and "distinct keys" "set keys = {fd. cm_Cell s fd \<noteq> None}"
  shows "(\<forall>a. cm_heap s a \<noteq> None \<longrightarrow> (\<exists>!x. a \<in> set (cm_refs s x)))
    \<and> (\<exists>s'. cellManager_delete keys s = Some (Inr s') \<and> cm_heap s' = (\<lambda>_. None))"
proof -
  have "cm_heap (cellManager_new epfd (Some hub) cpuN) = (\<lambda>_. None)" "cm_TNotify (cellManager_new epfd (Some hub) cpuN) \<noteq> None"
    by (simp_all add: cellManager_new_def fun_eq_iff)
  then have inv: "cm_inv s" "cm_lost s = {}"
    using sh.cm_saving_reach_lost[OF assms(1) cm_inv_new(1)] by (auto simp: cm_lost_def)
  have one: "\<exists>!x. a \<in> set (cm_refs s x)" if "cm_heap s a \<noteq> None" for a
  proof -
    from that inv(2) obtain x where "a \<in> set (cm_refs s x)" unfolding cm_lost_def by blast
    then show ?thesis using ownedD(2)[OF cm_invD(4)[OF inv(1)], of a] by blast
  qed
  obtain s' where s': "cellManager_delete keys s = Some (Inr s')" "\<And>x a. a \<in> set (cm_refs s x) \<Longrightarrow> cm_heap s' a = None"
    "\<And>a. cm_heap s a = None \<Longrightarrow> cm_heap s' a = None"
    using cellManager_delete_ok[OF inv(1) assms(2,3)] by blast
  have "cm_heap s' a = None" for a using s'(2)[of a] s'(3)[of a] one[of a] by blast
  then show ?thesis using one s'(1) by blast
qed

theorem messages_never_leak_witness:
  "\<exists>(s :: nat server_notify cellManager) s'. cm_heap s 0 \<noteq> None \<and> (\<exists>!x. 0 \<in> set (cm_refs s x))
     \<and> cellManager_delete [5] s = Some (Inr s') \<and> cm_heap s' = (\<lambda>_. None)"
proof -
  let ?n = "server_callbacks :: nat server_notify tNotify" and ?s = "cellManager_new 3 (Some count_hub) 0"
  let ?c = "clientCell_new 5 (\<lambda>_. 0) (\<lambda>_. None) 0 ''peer'' 80"
  obtain s1 where s1: "cm_exec ?n (OpAccept 5 (\<lambda>_. 0) (\<lambda>_. None) 0 ''peer'' 80) ?s = Some (Inr s1)" "cm_inv s1"
    using sh.cm_exec_ok[OF cm_inv_new(1), of 3 "Some count_hub" 0 "OpAccept 5 (\<lambda>_. 0) (\<lambda>_. None) 0 ''peer'' 80"]
    by (auto simp: cellManager_new_def)
  have ok: "cell_ok (ce_ClientFd ?c) ?c" "ce_ClientFd ?c = 5" using ce_inv_new by (simp_all add: cell_ok_def clientCell_new_def)
  have add: "addTask ?c ?s = Inr s1" using s1(1) by simp
  have c1: "cm_Cell s1 = [5 \<mapsto> ?c]" "length (cm_tasks s1) \<le> 1" "srt_cap (cm_cellTask s1) = (2 ^ 15 - 1) * 2 ^ 16"
    using addTask_ok[OF cm_inv_new(1) _ ok(1) ce_inv_new(2), of 3 "Some count_hub" 0] add
    by (auto simp: ok(2) cm_inv_new(2,3) cm_cap_new)
  have next1: "cm_next s1 = 0"
    using add by (auto simp: addTask_def cm_push_def Let_def obind_eq_Inr cellManager_new_def)
  have r1: "cm_saving_reach ?n ?s s1"
    by (rule cm_saving_reach.step[OF cm_saving_reach.start _ _ s1(1)]) (simp_all add: cm_inv_new(3))
  have room: "length (cm_tasks s1) < srt_cap (cm_cellTask s1)" using c1(2,3) by simp
  obtain r s2 where s2: "sendTask 5 [1, 2, 3] 3 s1 = Inr (r, s2)" "cm_Cell s2 = cm_Cell s1"
    using sendTask_stream[OF s1(2), of 5 3 "[1, 2, 3]"] c1(1) by auto
  then have h: "cm_heap s2 0 \<noteq> None"
    using c1(1) next1 by (auto simp: sendTask_def cm_push_def Let_def obind_eq_Inr split: if_splits)
  have "cm_saving_reach ?n ?s s2"
    by (rule cm_saving_reach.step[OF r1, of "OpSend 5 [1, 2, 3] 3"]) (use room s2(1) in simp_all)
  moreover have "set [5] = {fd. cm_Cell s2 fd \<noteq> None}" using s2(2) c1(1) by auto
  ultimately have "(\<forall>a. cm_heap s2 a \<noteq> None \<longrightarrow> (\<exists>!x. a \<in> set (cm_refs s2 x)))
      \<and> (\<exists>s'. cellManager_delete [5] s2 = Some (Inr s') \<and> cm_heap s' = (\<lambda>_. None))"
    by (intro messages_never_leak) simp_all
  then show ?thesis using h by blast
qed

text \<open>
  The two ways to lose a message: \<open>sendTask\<close> on a full queue (lemma \<open>sendTask_lost\<close>), and the task of
  a message whose connection is gone, or has a full ring.
\<close>

lemma handleSend_loses:
  assumes inv: "cm_inv s" and t: "cm_tasks s = ct # ts" and S: "ct_event ct = CHR ''S''"
    and c: "case cm_Cell s (ct_clientid ct) of None \<Rightarrow> True | Some c \<Rightarrow> send_full c"
  shows "\<exists>q a s1. srt_pop (cm_cellTask s) = Inr (Some ct, q) \<and> handleSend ct (s\<lparr>cm_cellTask := q\<rparr>) = Inr s1
    \<and> ct_sC ct = Some a \<and> a \<in> cm_lost s1"
proof -
  obtain q sc where q: "srt_pop (cm_cellTask s) = Inr (Some ct, q)" "cm_heap s (the (ct_sC ct)) = Some sc"
    "\<forall>x. the (ct_sC ct) \<notin> set (cm_refs (s\<lparr>cm_cellTask := q\<rparr>) x)"
    using cm_pop_ok[OF inv t] S by auto
  moreover have "ct_sC ct \<noteq> None" using cm_invD(2)[OF inv, of ct] t S by (simp add: task_ok_def)
  moreover have "handleSend ct (s\<lparr>cm_cellTask := q\<rparr>) = Inr (s\<lparr>cm_cellTask := q\<rparr>)"
    using c by (auto simp: handleSend_def split: option.splits)
  ultimately show ?thesis by (auto simp: cm_lost_def)
qed

end
