(* ===== verification/Cell_Manager_Stale.thy ===== *)
theory Cell_Manager_Stale
  imports Cell_Manager_Stream
begin

text \<open>
  The loop of \<open>handleTask\<close> one round at a time, with the listener and user threads let in between the
  rounds.  No order of these is a fault; but a number can change hands between two rounds, and tasks
  name connections by their number.
\<close>

section \<open>Rounds\<close>

text \<open>One round of the loop; false if the queue was empty and the loop ends.\<close>

definition handleTask_round :: "'h tNotify \<Rightarrow> 'h cellManager \<Rightarrow> (bool \<times> 'h cellManager) outcome" where
  "handleTask_round n s =
    obind (srt_pop (cm_cellTask s)) (\<lambda>(t, q).
      case t of
        None \<Rightarrow> Inr (False, s\<lparr>cm_cellTask := q\<rparr>)
      | Some cT \<Rightarrow> obind (handleOne n cT (s\<lparr>cm_cellTask := q\<rparr>)) (\<lambda>s'. Inr (True, s')))"

lemma handleTask_rounds:
  "handleTask n s =
    (case handleTask_round n s of
       Inl e \<Rightarrow> Some (Inl e)
     | Inr (again, s') \<Rightarrow> if again then handleTask n s' else Some (Inr s'))"
  by (subst handleTask.simps) (auto simp: handleTask_round_def split: sum.split option.split prod.split)

inductive round_reach :: "'h tNotify \<Rightarrow> 'h cellManager \<Rightarrow> 'h cellManager \<Rightarrow> bool" for n s0 where
  start: "round_reach n s0 s0"
| op: "round_reach n s0 s \<Longrightarrow> cm_op_ok s op \<Longrightarrow> cm_exec n op s = Some (Inr s') \<Longrightarrow> round_reach n s0 s'"
| round: "round_reach n s0 s \<Longrightarrow> handleTask_round n s = Inr (again, s') \<Longrightarrow> round_reach n s0 s'"

lemma round_reach_cm: "cm_reach n s0 s \<Longrightarrow> round_reach n s0 s"
  by (induction rule: cm_reach.induct) (auto intro: round_reach.intros)

context safe_handler
begin

lemma handleTask_round_ok:
  assumes inv: "cm_inv s" and h: "ok (cm_TNotify s)"
  shows "\<exists>again s'. handleTask_round n s = Inr (again, s') \<and> cm_inv s' \<and> ok (cm_TNotify s')"
proof (cases "cm_tasks s")
  case Nil
  then have "srt_pop (cm_cellTask s) = Inr (None, cm_cellTask s)"
    using sq.pop_empty[OF cm_invD(1)[OF inv]] by (simp add: cm_tasks_def)
  then have "handleTask_round n s = Inr (False, s)" by (simp add: handleTask_round_def)
  then show ?thesis using assms by blast
next
  case (Cons ct ts)
  obtain q where q: "srt_pop (cm_cellTask s) = Inr (Some ct, q)" "cm_inv (s\<lparr>cm_cellTask := q\<rparr>)"
    "ct_event ct = CHR ''S'' \<longrightarrow> (\<exists>sc. cm_heap s (the (ct_sC ct)) = Some sc \<and> sc_ok sc)
        \<and> (\<forall>x. the (ct_sC ct) \<notin> set (cm_refs (s\<lparr>cm_cellTask := q\<rparr>) x))"
    using cm_pop_ok[OF inv Cons] by blast
  have "task_ok ct" using cm_invD(2)[OF inv] Cons by simp
  then obtain s' where "handleOne n ct (s\<lparr>cm_cellTask := q\<rparr>) = Inr s'" "cm_inv s'" "ok (cm_TNotify s')"
    using handleOne_ok[OF q(2), of ct] h q(3) by auto
  then show ?thesis using q(1) by (intro exI[of _ True] exI[of _ s']) (simp add: handleTask_round_def)
qed

lemma round_reach_inv:
  assumes "round_reach n s0 s" "cm_inv s0" "ok (cm_TNotify s0)"
  shows "cm_inv s \<and> ok (cm_TNotify s)"
  using assms
proof (induction rule: round_reach.induct)
  case start
  then show ?case by simp
next
  case (op s a s')
  then show ?case using cm_exec_ok[of s a] by auto
next
  case (round s again s')
  then show ?case using handleTask_round_ok[of s] by auto
qed

end

lemma round_started_inv:
  assumes "round_reach server_callbacks (cellManager_new epfd (Some hub) cpuN) s"
  shows "cm_inv s" "cm_TNotify s \<noteq> None"
  using sh.round_reach_inv[OF assms cm_inv_new(1)] by (simp_all add: cellManager_new_def)

section \<open>A number that changes hands\<close>

lemma round_handles:
  assumes inv: "cm_inv s" and t: "cm_tasks s = ct # ts"
  obtains q where "handleTask_round n s = obind (handleOne n ct (s\<lparr>cm_cellTask := q\<rparr>)) (\<lambda>s'. Inr (True, s'))"
    "cm_inv (s\<lparr>cm_cellTask := q\<rparr>)" "cm_tasks (s\<lparr>cm_cellTask := q\<rparr>) = ts" "srt_cap q = srt_cap (cm_cellTask s)"
  using cm_pop_ok[OF inv t] by (auto simp: handleTask_round_def)

text \<open>
  C30: a message can reach the wrong client.  In any state with accepts, sends and disconnects between
  the rounds: when the task that closes a connection is followed by that of a message to it, and the
  kernel gives the number, just closed, to a new connection that the listener hands over between the
  two rounds, then the message is put in the ring of the new connection, as the first it will send.
\<close>

theorem stale_message_misdelivered:
  assumes "round_reach server_callbacks (cellManager_new epfd (Some hub) cpuN) s"
    and "cm_tasks s = d # m # ts" "cm_Cell s fd = Some old"
    and "ct_event d = CHR ''D''" "ct_clientid d = fd" "ct_event m = CHR ''S''" "ct_clientid m = fd" "ct_sC m = Some a"
  shows "\<exists>s1 s2 s3 c. handleTask_round server_callbacks s = Inr (True, s1) \<and> cm_Cell s1 fd = None \<and> cm_closed s1 = fd # cm_closed s
    \<and> addTask (clientCell_new fd rb sb ev ip port) s1 = Inr s2
    \<and> handleTask_round server_callbacks s2 = Inr (True, s3) \<and> cm_Cell s3 fd = Some c \<and> ce_Ip c = ip \<and> ce_Port c = port
    \<and> conn_unsent s3 fd = [sc_unsent (the (cm_heap s a))]"
proof -
  let ?n = "server_callbacks" and ?new = "clientCell_new fd rb sb ev ip port"
  have inv: "cm_inv s" "cm_TNotify s \<noteq> None" by (rule round_started_inv[OF assms(1)])+
  obtain q where q: "handleTask_round ?n s = obind (handleOne ?n d (s\<lparr>cm_cellTask := q\<rparr>)) (\<lambda>s'. Inr (True, s'))"
    "cm_inv (s\<lparr>cm_cellTask := q\<rparr>)" "cm_tasks (s\<lparr>cm_cellTask := q\<rparr>) = m # ts"
    by (rule round_handles[OF inv(1) assms(2)])
  obtain s0 where s0: "delClientCell old (s\<lparr>cm_cellTask := q\<rparr>) = Inr s0" "cm_inv (s0\<lparr>cm_Cell := (cm_Cell s0)(fd := None)\<rparr>)"
    "cm_Cell s0 = cm_Cell s" "cm_cellTask s0 = q" "cm_closed s0 = fd # cm_closed s" "cm_heap s0 = free_all (cell_addrs old) (cm_heap s)"
    using delClientCell_ok[OF q(2), of fd old] assms(3) by auto
  let ?s1 = "s0\<lparr>cm_Cell := (cm_Cell s0)(fd := None), cm_TNotify := OnDisconnect ?n (cm_TNotify s0) (word_of_int fd)\<rparr>"
  have one: "handleTask_round ?n s = Inr (True, ?s1)"
    using q(1) s0(1) assms(3-5) by (simp add: handleOne_def handleDel_def)
  have i1: "cm_inv ?s1" using cm_inv_other(1)[of "s0\<lparr>cm_Cell := (cm_Cell s0)(fd := None)\<rparr>"] s0(2) by simp
  have t1: "cm_tasks ?s1 = m # ts" using q(3) s0(4) by (simp add: cm_tasks_def)
  have "a \<in> set (send_tasks fd (cm_tasks s))" using assms(2,6-8) by simp
  then have "a \<notin> set (cell_addrs old)" using addrs_disjoint(2)[OF inv(1) assms(3)] by blast
  then have ha: "cm_heap ?s1 a = cm_heap s a" using s0(6) by (simp add: free_all_def)
  have new: "ce_ClientFd ?new = fd" "cell_ok fd ?new" "ce_pending ?new = []" "cell_addrs ?new = []" "ce_Ip ?new = ip" "ce_Port ?new = port"
    using ce_inv_new by (simp_all add: clientCell_new_def cell_ok_def cell_addrs_def)
  have none: "cm_Cell ?s1 fd = None" by simp
  obtain s2 new_task where s2: "addTask ?new ?s1 = Inr s2" "cm_inv s2" "cm_Cell s2 = (cm_Cell ?s1)(fd \<mapsto> ?new)"
    "cm_tasks s2 = m # ts @ new_task"
    using addTask_ok[OF i1, of ?new] new none t1 by auto
  have h2: "cm_heap s2 = cm_heap ?s1" using s2(1) by (auto simp: addTask_def cm_push_def Let_def obind_eq_Inr)
  obtain q2 where q2: "handleTask_round ?n s2 = obind (handleOne ?n m (s2\<lparr>cm_cellTask := q2\<rparr>)) (\<lambda>s'. Inr (True, s'))"
    by (rule round_handles[OF s2(2,4)])
  let ?c = "?new\<lparr>ce_SendBuf := (ce_SendBuf ?new)(unat (ce_SendWritePos ?new) := ct_sC m), ce_SendWritePos := send_next (ce_SendWritePos ?new)\<rparr>"
  have ci: "ce_inv ?new" using new(2) by (simp add: cell_ok_def)
  have full: "\<not> send_full ?new" using send_full_length[OF ci] new(4) by (auto simp: SYSSENDBUF_def)
  have "ce_pending ?c = [Some a]"
    using ce_pending_push(1)[OF ci _ refl, of "ct_sC m"] send_full_iff[OF ci] full new(3) assms(8) by simp
  then have addrs: "cell_addrs ?c = [a]" by (simp add: cell_addrs_def)
  have w: "unat (ce_SendWritePos ?new) < CLIENTCELLSENDBUF" using ci by (simp add: ce_inv_def SYSSENDBUF_def CLIENTCELLSENDBUF_def)
  let ?s3 = "s2\<lparr>cm_cellTask := q2, cm_Cell := (cm_Cell s2)(fd \<mapsto> ?c)\<rparr>"
  have "handleTask_round ?n s2 = Inr (True, ?s3)"
    using q2 s2(3) full w assms(6,7) by (simp add: handleOne_def handleSend_def Let_def)
  moreover have "conn_unsent ?s3 fd = [sc_unsent (the (cm_heap s a))]"
    using addrs h2 ha by (simp add: conn_unsent_def unsent_def)
  moreover have "ce_Ip ?c = ip" "ce_Port ?c = port" using new(5,6) by simp_all
  ultimately show ?thesis using one s2(1) s0(5) by (intro exI[of _ ?s1] exI[of _ s2] exI[of _ ?s3] exI[of _ ?c]) simp
qed

theorem stale_message_misdelivered_witness:
  "\<exists>(s :: nat server_notify cellManager) s1 s2 s3 c. conn_list s 5 = [[7, 8]] \<and> handleTask_round server_callbacks s = Inr (True, s1)
     \<and> addTask (clientCell_new 5 (\<lambda>_. 0) (\<lambda>_. None) 0 ''other'' 81) s1 = Inr s2 \<and> handleTask_round server_callbacks s2 = Inr (True, s3)
     \<and> cm_Cell s3 5 = Some c \<and> ce_Ip c = ''other'' \<and> conn_unsent s3 5 = [[7, 8]]"
proof -
  let ?n = "server_callbacks :: nat server_notify tNotify" and ?new = "cellManager_new 3 (Some count_hub) 0"
  let ?A = "cellTask_new\<lparr>ct_event := CHR ''A'', ct_clientid := 5\<rparr>" and ?D = "cellTask_new\<lparr>ct_event := CHR ''D'', ct_clientid := 5\<rparr>"
  obtain s c0 where s: "round_reach ?n ?new s" "cm_Cell s = [5 \<mapsto> c0]" "cell_addrs c0 = []" "cm_tasks s = [?A]"
    "srt_cap (cm_cellTask s) = (2 ^ 15 - 1) * 2 ^ 16"
    using cm_demo_accept round_reach_cm ce_inv_new(2) by (metis cell_addrs_def list.simps(8))
  have i0: "cm_inv s" by (rule round_started_inv(1)[OF s(1)])
  obtain q where q: "handleTask_round ?n s = obind (handleOne ?n ?A (s\<lparr>cm_cellTask := q\<rparr>)) (\<lambda>s'. Inr (True, s'))"
    "cm_tasks (s\<lparr>cm_cellTask := q\<rparr>) = []" "srt_cap q = srt_cap (cm_cellTask s)"
    by (rule round_handles[OF i0 s(4)])
  obtain s1 where s1: "handleTask_round ?n s = Inr (True, s1)" "cm_Cell s1 5 \<noteq> None" "cm_tasks s1 = []"
    "srt_cap (cm_cellTask s1) = (2 ^ 15 - 1) * 2 ^ 16" "\<forall>c. cm_Cell s1 5 = Some c \<longrightarrow> cell_addrs c = []"
    using q s(2,3,5) by (simp add: handleOne_def handleAdd_def Let_def cm_tasks_def cell_addrs_def ce_pending_def)
  have r1: "round_reach ?n ?new s1" by (rule round_reach.round[OF s(1) s1(1)])
  note i1 = round_started_inv(1)[OF r1]
  obtain s2 where s2: "delTask 5 s1 = Inr s2" "cm_Cell s2 = cm_Cell s1" "cm_tasks s2 = [?D]"
    "srt_cap (cm_cellTask s2) = (2 ^ 15 - 1) * 2 ^ 16"
    using delTask_ok[OF i1, of 5] srt_room_tasks[OF i1] s1(3,4) by auto
  have r2: "round_reach ?n ?new s2" by (rule round_reach.op[OF r1, of "OpDisconnect 5"]) (simp_all add: s2(1))
  have l2: "conn_list s2 5 = []"
    using s1(2,5) s2(2,3) by (auto simp: conn_list_def conn_unsent_def queue_unsent_def unsent_def)
  have c2: "cm_Cell s2 5 \<noteq> None" using s1(2) s2(2) by simp
  obtain s3 a where s3: "sendTask 5 [7, 8] 2 s2 = Inr (error_code NAUT_AT_S_OK, s3)" "cm_Cell s3 = cm_Cell s2" "conn_list s3 5 = [[7, 8]]"
    "cm_tasks s3 = [?D, cellTask_new\<lparr>ct_event := CHR ''S'', ct_clientid := 5, ct_sC := Some a\<rparr>]"
    using sendTask_stream[OF round_started_inv(1)[OF r2] c2, of 2 "[7, 8]"] s2(3,4) l2 by auto
  have r3: "round_reach ?n ?new s3" by (rule round_reach.op[OF r2, of "OpSend 5 [7, 8] 2"]) (simp_all add: s3(1))
  obtain c where c: "cm_Cell s3 5 = Some c" "cell_addrs c = []" using s1(2,5) s2(2) s3(2) by auto
  have msg: "sc_unsent (the (cm_heap s3 a)) = [7, 8]"
    using s3(3,4) c by (simp add: conn_list_def conn_unsent_def queue_unsent_def unsent_def)
  from stale_message_misdelivered[OF r3 s3(4) c(1), of a "\<lambda>_. 0" "\<lambda>_. None" 0 "''other''" 81] msg s3(3)
  show ?thesis by auto
qed

end
