(* ===== verification/Tcp_Server_Lifecycle.thy ===== *)
theory Tcp_Server_Lifecycle
  imports Tcp_Server_Props
begin

text \<open>
  The life of a server: the outcomes of \<open>Listen\<close>, what \<open>stop\<close> releases once the threads are up,
  what it does while they are not, and the wrapper \<open>tcp_server\<close> around all this.
\<close>

section \<open>Listen\<close>

text \<open>
  C27: every outcome of \<open>Listen\<close> on a server that has no socket.  Port 0 is refused with its code and
  no effect; a failing system call ends the process with the code of this call and, but for a
  failing \<open>socket\<close>, after closing the socket (an epoll descriptor 0 counts as a failure and stays open); else \<open>Listen\<close> returns 0, the socket is bound to the low
  16 bits of the port and watched for input by the new epoll descriptor.
\<close>

theorem tcpServer_Listen_outcomes:
  assumes "ts_SocketFd srv = ts_INVALID_SOCKET"
  shows "case tcpServer_Listen port a srv of
      (ListenRet c, s) \<Rightarrow>
        if port = 0 then c = 101001 \<and> s = srv
        else c = 0 \<and> 0 < la_socket a \<and> la_bind a = 0 \<and> la_listen a = 0 \<and> 0 < la_epoll a
          \<and> ts_bound s = Some (ucast port) \<and> ts_open s = la_epoll a # la_socket a # ts_open srv
          \<and> ts_ListenFd s = la_epoll a \<and> ts_epoll s = [la_socket a \<mapsto> EPOLLIN OR EPOLLPRI]
    | (ListenExit c, s) \<Rightarrow> port \<noteq> 0 \<and>
        (if la_socket a \<le> 0 then c = 101101
         else ts_open s = (if la_bind a = 0 \<and> la_listen a = 0 \<and> la_epoll a = 0 then 0 # ts_open srv
             else ts_open srv)
           \<and> (if la_bind a \<noteq> 0 then c = 101102 else if la_listen a \<noteq> 0 then c = 101103 else la_epoll a \<le> 0 \<and> c = 101104))"
proof (cases "port = 0")
  case True
  then show ?thesis by (simp add: tcpServer_Listen_def)
next
  case False
  then have p: "\<not> port \<le> 0" by (simp add: word_le_nat_alt unat_eq_0)
  note defs = tcpServer_Listen_def Let_def ts_opens_def ts_closes_def epoll_add_def
  consider "la_socket a \<le> 0" | "0 < la_socket a" "la_bind a \<noteq> 0" | "0 < la_socket a" "la_bind a = 0" "la_listen a \<noteq> 0"
    | "0 < la_socket a" "la_bind a = 0" "la_listen a = 0" "la_epoll a < 0"
    | "0 < la_socket a" "la_bind a = 0" "la_listen a = 0" "la_epoll a = 0"
    | "0 < la_socket a" "la_bind a = 0" "la_listen a = 0" "0 < la_epoll a" by linarith
  then show ?thesis using p False assms by cases (simp_all add: defs)
qed

theorem tcpServer_Listen_outcomes_witness:
  "\<exists>s. ts_SocketFd s = ts_INVALID_SOCKET \<and> fst (tcpServer_Listen 9000 (demo_answers\<lparr>la_bind := - 1\<rparr>) s) = ListenExit 101102
     \<and> ts_open (snd (tcpServer_Listen 9000 (demo_answers\<lparr>la_bind := - 1\<rparr>) (s :: nat server_notify tcpServer))) = []"
proof -
  obtain s where "tcpServer_new (Some count_hub) 1 (\<lambda>_. 3) = Inr s" by (simp add: tcpServer_new_def)
  then have s: "ts_SocketFd s = ts_INVALID_SOCKET" "ts_open s = []" by (auto simp: tcpServer_new_def)
  obtain r s' where r: "tcpServer_Listen 9000 (demo_answers\<lparr>la_bind := - 1\<rparr>) s = (r, s')" by fastforce
  from tcpServer_Listen_outcomes[OF s(1), of 9000 "demo_answers\<lparr>la_bind := - 1\<rparr>"] r s show ?thesis
    by (intro exI[of _ s]) (auto simp: demo_answers_def split: listen_result.splits)
qed

text \<open>A port is only compared with zero: one beyond 16 bits is accepted and its low half bound.\<close>

lemma tcpServer_Listen_port_wraps:
  assumes "0 < la_socket a" "la_bind a = 0" "la_listen a = 0" "0 < la_epoll a"
  shows "fst (tcpServer_Listen 65536 a srv) = ListenRet 0" "ts_bound (snd (tcpServer_Listen 65536 a srv)) = Some 0"
  using assms by (simp_all add: tcpServer_Listen_def Let_def ts_opens_def ts_closes_def)

text \<open>A second \<open>Listen\<close> closes the old socket and forgets the old epoll descriptor without closing it.\<close>

lemma tcpServer_Listen_again_leaks:
  assumes "ts_open s = [ep, sk]" "ts_ListenFd s = ep" "ts_SocketFd s = sk" "0 < sk" "ep \<noteq> sk"
    and "0 < la_socket a" "la_bind a = 0" "la_listen a = 0" "0 < la_epoll a"
  shows "ts_open (snd (tcpServer_Listen 80 a s)) = [la_epoll a, la_socket a, ep]"
  using assms by (simp add: tcpServer_Listen_def Let_def ts_opens_def ts_closes_def ts_INVALID_SOCKET_def)

section \<open>Stop\<close>

text \<open>A thread that is in its loop.\<close>

definition thread_up :: "process_thread \<Rightarrow> bool" where
  "thread_up p \<longleftrightarrow> pt_is_running p \<and> pt_thread p = Some 0 \<and> pt_pcs p = [TLoop]"

lemma thread_up_stop: "thread_up p \<Longrightarrow> pt_pcs (process_thread_stop_call raised p) = [TExited]"
  by (simp add: thread_up_def process_thread_stop_call_def)

text \<open>What is left of a loop after its destructor ran.\<close>

definition loop_freed :: "'h cell_loop \<Rightarrow> 'h loop_ptr \<Rightarrow> bool" where
  "loop_freed l p \<longleftrightarrow> (\<exists>cm. p = Dangling cm \<and> cm_Cell cm = (\<lambda>_. None) \<and> cm_tasks cm = []
     \<and> (\<forall>fd. cm_Cell (lp_cm l) fd \<noteq> None \<longrightarrow> fd \<in> set (cm_closed cm))
     \<and> (\<forall>x a. a \<in> set (cm_refs (lp_cm l) x) \<longrightarrow> cm_heap cm a = None))"

lemma cell_loop_delete_ok:
  assumes "cm_inv (lp_cm l)" "thread_up (lp_thread l)"
    and "distinct (keys (lp_cm l))" "set (keys (lp_cm l)) = {fd. cm_Cell (lp_cm l) fd \<noteq> None}"
  shows "\<exists>p. cell_loop_delete keys l = Inr p \<and> loop_freed l p"
proof -
  obtain cm where cm: "cellManager_delete (keys (lp_cm l)) (lp_cm l) = Some (Inr cm)" "cm_Cell cm = (\<lambda>_. None)" "cm_tasks cm = []"
    "set (keys (lp_cm l)) \<subseteq> set (cm_closed cm)" "\<forall>x a. a \<in> set (cm_refs (lp_cm l) x) \<longrightarrow> cm_heap cm a = None"
    using cellManager_delete_ok[OF assms(1,3,4)] by blast
  moreover have "pt_is_running (lp_thread l)" using assms(2) by (simp add: thread_up_def)
  ultimately have "cell_loop_delete keys l = Inr (Dangling cm)"
    using thread_up_stop[OF assms(2), of False] by (simp add: cell_loop_delete_def)
  then show ?thesis using cm assms(4) by (auto simp: loop_freed_def)
qed

lemma each_loop_ok:
  assumes "\<forall>p\<in>set ls. \<exists>l. p = Live l \<and> (\<exists>p'. f l = Inr p' \<and> P l p')"
  shows "\<exists>ls'. each_loop f ls = Inr ls' \<and> length ls' = length ls \<and> (\<forall>i<length ls. \<exists>l. ls ! i = Live l \<and> P l (ls' ! i))"
  using assms
proof (induction ls)
  case Nil
  then show ?case by simp
next
  case (Cons p ls)
  obtain l p' where l: "p = Live l" "f l = Inr p'" "P l p'" using Cons.prems by auto
  obtain ls' where ls': "each_loop f ls = Inr ls'" "length ls' = length ls" "\<forall>i<length ls. \<exists>l. ls ! i = Live l \<and> P l (ls' ! i)"
    using Cons.IH Cons.prems by auto
  then have "\<forall>i<length (p # ls). \<exists>l. (p # ls) ! i = Live l \<and> P l ((p' # ls') ! i)"
    using l by (auto simp: nth_Cons split: nat.split)
  then show ?case using l ls' by simp
qed

lemma SendData_dangling:
  assumes "ts_CellManager srv \<noteq> []" "\<And>i. i < length (ts_CellManager srv) \<Longrightarrow> \<exists>cm. ts_CellManager srv ! i = Dangling cm"
  shows "tcpServer_SendData junk fd p len srv = Inl UseAfterFree"
proof -
  let ?i = "unat (size_of_int fd) mod length (ts_CellManager srv)"
  have i: "?i < length (ts_CellManager srv)" using assms(1) by simp
  obtain cm where "ts_CellManager srv ! ?i = Dangling cm" using assms(2)[OF i] by blast
  then have "on_loop ?i (sendTask fd p (int_of_size len)) srv = Inl UseAfterFree"
    using i unfolding on_loop_def by (simp only: not_le[symmetric] if_False loop_ptr.case)
  then show ?thesis using assms(1) by (simp add: tcpServer_SendData_def CurrCellManager_def)
qed

lemma tcpServer_stop_ok:
  assumes inv: "srv_inv ok s"
    and "thread_up (ts_thread s)" "\<forall>l. Live l \<in> set (ts_CellManager s) \<longrightarrow> thread_up (lp_thread l)"
    and "\<forall>l. Live l \<in> set (ts_CellManager s) \<longrightarrow>
      distinct (keys (lp_cm l)) \<and> set (keys (lp_cm l)) = {fd. cm_Cell (lp_cm l) fd \<noteq> None}"
  shows "\<exists>s'. tcpServer_stop raised keys s = Inr s' \<and> pt_pcs (ts_thread s') = [TExited]
    \<and> ts_open s' = remove1 (ts_SocketFd s) (remove1 (ts_ListenFd s) (ts_open s))
    \<and> ts_closed s' = ts_SocketFd s # ts_ListenFd s # ts_closed s \<and> ts_TNotify s' = ts_TNotify s
    \<and> (\<forall>i<length (ts_CellManager s). \<exists>l. ts_CellManager s ! i = Live l \<and> loop_freed l (ts_CellManager s' ! i))
    \<and> tcpServer_SendData junk fd p len s' = Inl UseAfterFree \<and> tcpServer_start s' = Inl UseAfterFree
    \<and> \<not> pt_is_running (ts_thread s')"
proof -
  have "\<exists>p'. cell_loop_delete keys l = Inr p' \<and> loop_freed l p'" if l: "Live l \<in> set (ts_CellManager s)" for l
  proof -
    obtain i where "i < length (ts_CellManager s)" "ts_CellManager s ! i = Live l" using l by (auto simp: in_set_conv_nth)
    then have "cm_inv (lp_cm l)" using srv_invD(3)[OF inv] by (fastforce simp: loop_ok_def)
    then show ?thesis using cell_loop_delete_ok assms(3,4) l by blast
  qed
  then have "\<forall>p\<in>set (ts_CellManager s). \<exists>l. p = Live l \<and> (\<exists>p'. cell_loop_delete keys l = Inr p' \<and> loop_freed l p')"
    using srv_inv_Live[OF inv] by metis
  then obtain ls' where ls': "each_loop (cell_loop_delete keys) (ts_CellManager s) = Inr ls'" "length ls' = length (ts_CellManager s)"
    "\<forall>i<length (ts_CellManager s). \<exists>l. ts_CellManager s ! i = Live l \<and> loop_freed l (ls' ! i)"
    using each_loop_ok by blast
  let ?s1 = "s\<lparr>ts_thread := process_thread_stop_call raised (ts_thread s), ts_CellManager := ls'\<rparr>"
  let ?s' = "(ts_closes (ts_SocketFd s) (ts_closes (ts_ListenFd s) ?s1))\<lparr>ts_SocketFd := ts_INVALID_SOCKET, ts_ListenFd := - 1\<rparr>"
  have stop: "tcpServer_stop raised keys s = Inr ?s'"
    using ls'(1) by (simp add: tcpServer_stop_def Let_def ts_closes_def)
  have ls: "ts_CellManager ?s' = ls'" by (simp add: ts_closes_def)
  have ne: "ls' \<noteq> []" using ls'(2) srv_invD(1)[OF inv] by auto
  have dang: "\<exists>cm. ls' ! i = Dangling cm" if "i < length ls'" for i
    using ls'(2,3) that by (auto simp: loop_freed_def)
  obtain cm rest where "ls' = Dangling cm # rest" using dang[of 0] ne by (cases ls') auto
  then have "tcpServer_start ?s' = Inl UseAfterFree" using ls by (simp add: tcpServer_start_def)
  moreover have "tcpServer_SendData junk fd p len ?s' = Inl UseAfterFree"
    by (rule SendData_dangling) (simp_all only: ls ne dang not_False_eq_True)
  moreover have "pt_pcs (ts_thread ?s') = [TExited]" "ts_open ?s' = remove1 (ts_SocketFd s) (remove1 (ts_ListenFd s) (ts_open s))"
    "ts_closed ?s' = ts_SocketFd s # ts_ListenFd s # ts_closed s" "ts_TNotify ?s' = ts_TNotify s"
    using thread_up_stop[OF assms(2)] by (simp_all add: ts_closes_def)
  moreover have "\<not> pt_is_running (ts_thread ?s')"
    using assms(2) by (simp add: thread_up_def process_thread_stop_call_def ts_closes_def)
  ultimately show ?thesis using stop ls ls'(3) by (intro exI[of _ ?s']) simp
qed

text \<open>
  C21: \<open>stop\<close>, once all threads are in their loops and with the iteration of each map visiting every
  connection once, returns: the listening thread has ended, every loop has been deleted with all
  its connections closed and every message still waiting freed, and the socket and the epoll
  descriptor of the listener are closed.  The vector keeps the pointers, though: a send or a start
  afterwards uses a deleted object.
\<close>

theorem tcpServer_stop_frees:
  assumes "tcpServer_new (Some hub) cpuN epfds = Inr s0" "0 < cpuN" "srv_reach server_callbacks s0 s"
    and "thread_up (ts_thread s)" "\<forall>l. Live l \<in> set (ts_CellManager s) \<longrightarrow> thread_up (lp_thread l)"
    and "\<forall>l. Live l \<in> set (ts_CellManager s) \<longrightarrow>
      distinct (keys (lp_cm l)) \<and> set (keys (lp_cm l)) = {fd. cm_Cell (lp_cm l) fd \<noteq> None}"
    and "ts_open s = [ts_ListenFd s, ts_SocketFd s]"
  shows "\<exists>s'. tcpServer_stop raised keys s = Inr s' \<and> pt_pcs (ts_thread s') = [TExited] \<and> ts_open s' = []
    \<and> (\<forall>i<length (ts_CellManager s). \<exists>l. ts_CellManager s ! i = Live l \<and> loop_freed l (ts_CellManager s' ! i))
    \<and> tcpServer_SendData junk fd p len s' = Inl UseAfterFree \<and> tcpServer_start s' = Inl UseAfterFree"
proof -
  have "srv_inv (\<lambda>m. m \<noteq> None) s" using srv_started_inv[of hub cpuN s] assms(1-3) by blast
  from tcpServer_stop_ok[OF this assms(4-6), of raised junk fd p len] show ?thesis using assms(7) by auto
qed

text \<open>A server whose loops are as the constructor made them, started, with all threads up.\<close>

definition fresh_loops :: "'h tcpServer \<Rightarrow> bool" where
  "fresh_loops s \<longleftrightarrow> ts_CellManager s \<noteq> [] \<and> ts_thread s = process_thread_new
     \<and> (\<forall>p\<in>set (ts_CellManager s). \<exists>e n c. p = Live (cell_loop_new e n c))"

lemma fresh_loops_new:
  assumes "tcpServer_new n cpuN epfds = Inr s" "0 < cpuN"
  shows "fresh_loops s" "fresh_loops (snd (tcpServer_Listen port a s))"
proof -
  show f: "fresh_loops s" using assms by (auto simp: tcpServer_new_def fresh_loops_def) blast
  have "ts_thread (snd (tcpServer_Listen port a s)) = ts_thread s"
    by (simp add: tcpServer_Listen_def Let_def ts_opens_def ts_closes_def)
  then show "fresh_loops (snd (tcpServer_Listen port a s))" using f by (simp add: fresh_loops_def Listen_frame)
qed

text \<open>The thread of an object after \<open>start\<close>, and in its loop.\<close>

definition started_thread :: process_thread where
  "started_thread = process_thread_start True process_thread_new"

lemma started_thread_up: "thread_up (thread_advance started_thread)"
  by (simp add: thread_up_def thread_advance_def started_thread_def process_thread_start_def process_thread_new_def thread_proc_step_def)

lemma fresh_start:
  assumes "fresh_loops s"
  shows "\<exists>s2. tcpServer_start s = Inr s2 \<and> ts_open s2 = ts_open s \<and> ts_ListenFd s2 = ts_ListenFd s \<and> ts_SocketFd s2 = ts_SocketFd s
    \<and> ts_TNotify s2 = ts_TNotify s \<and> ts_closed s2 = ts_closed s \<and> ts_epoll s2 = ts_epoll s \<and> ts_thread s2 = started_thread \<and> ts_CellManager s2 \<noteq> []
    \<and> (\<forall>p\<in>set (ts_CellManager s2). \<exists>e n c. p = Live ((cell_loop_new e n c)\<lparr>lp_thread := started_thread\<rparr>))"
proof -
  have live: "\<forall>p\<in>set (ts_CellManager s). \<exists>l. p = Live l" using assms by (auto simp: fresh_loops_def)
  show ?thesis
    using assms unfolding tcpServer_start_def each_loop_start[OF live]
    by (fastforce simp: fresh_loops_def cell_loop_new_def cellManager_start_def process_thread_new_def started_thread_def)
qed

lemma fresh_up:
  assumes "fresh_loops s" "tcpServer_start s = Inr s2"
  shows "srv_inv (\<lambda>_. True) (srv_advance s2)" "thread_up (ts_thread (srv_advance s2))"
    "\<forall>l. Live l \<in> set (ts_CellManager (srv_advance s2)) \<longrightarrow> thread_up (lp_thread l) \<and> cm_Cell (lp_cm l) = (\<lambda>_. None)"
proof -
  have s2: "ts_thread s2 = started_thread" "ts_CellManager s2 \<noteq> []"
    "\<forall>p\<in>set (ts_CellManager s2). \<exists>e n c. p = Live ((cell_loop_new e n c)\<lparr>lp_thread := started_thread\<rparr>)"
    using fresh_start[OF assms(1)] assms(2) by auto
  show "thread_up (ts_thread (srv_advance s2))" using started_thread_up s2(1) by (simp add: srv_advance_def)
  have l: "thread_up (lp_thread l) \<and> cm_Cell (lp_cm l) = (\<lambda>_. None) \<and> cm_inv (lp_cm l)"
    if asm: "Live l \<in> set (ts_CellManager (srv_advance s2))" for l
  proof -
    obtain p where p: "p \<in> set (ts_CellManager s2)" "Live l = loop_advance p" using asm by (auto simp: srv_advance_def)
    obtain e n c where "p = Live ((cell_loop_new e n c)\<lparr>lp_thread := started_thread\<rparr>)" using s2(3) p(1) by blast
    then show ?thesis using p(2) started_thread_up by (simp add: loop_advance_def cell_loop_new_def cm_inv_new)
  qed
  then show "\<forall>l. Live l \<in> set (ts_CellManager (srv_advance s2)) \<longrightarrow> thread_up (lp_thread l) \<and> cm_Cell (lp_cm l) = (\<lambda>_. None)"
    by blast
  have ne: "ts_CellManager (srv_advance s2) \<noteq> []" using s2(2) by (simp add: srv_advance_def)
  have "\<exists>l. ts_CellManager (srv_advance s2) ! i = Live l \<and> loop_ok N i l" if "i < length (ts_CellManager (srv_advance s2))" for i N
  proof -
    have "ts_CellManager (srv_advance s2) ! i \<in> set (ts_CellManager (srv_advance s2))" using that by (rule nth_mem)
    moreover have "\<forall>p\<in>set (ts_CellManager (srv_advance s2)). \<exists>l. p = Live l"
      using s2(3) by (auto simp: srv_advance_def loop_advance_def)
    ultimately show ?thesis using l by (fastforce simp: loop_ok_def)
  qed
  then show "srv_inv (\<lambda>_. True) (srv_advance s2)" using ne by (simp add: srv_inv_def)
qed

theorem tcpServer_stop_frees_witness:
  "\<exists>s s'. ts_open s = [8, 7] \<and> length (ts_CellManager s) = 4
     \<and> tcpServer_stop True (\<lambda>_. []) (s :: nat server_notify tcpServer) = Inr s' \<and> ts_open s' = []"
proof -
  obtain s where "srv_started count_hub 1 s" and s: "ts_SocketFd s = 7" "ts_ListenFd s = 8" "ts_open s = [8, 7]"
    "ts_CellManager s = map (\<lambda>i. Live (cell_loop_new 3 (Some count_hub) 0)) [0..<4]" "ts_thread s = process_thread_new"
    using srv_demo_listen by blast
  then obtain epfds s0 where s0: "tcpServer_new (Some count_hub) 1 epfds = Inr s0" "srv_reach server_callbacks s0 s" by blast
  have fr: "fresh_loops s" using s(4,5) by (auto simp: fresh_loops_def)
  obtain s2 where s2: "tcpServer_start s = Inr s2" "ts_open s2 = [8, 7]" "ts_ListenFd s2 = 8" "ts_SocketFd s2 = 7"
    using fresh_start[OF fr] s by auto
  let ?s = "srv_advance s2"
  have r2: "srv_reach server_callbacks s0 s2" by (rule srv_reach.does[OF s0(2), of SrvStart]) (simp_all add: s2(1))
  have "srv_reach server_callbacks s0 ?s" by (rule srv_reach.does[OF r2, of SrvThreads]) simp_all
  moreover note up = fresh_up[OF fr s2(1)]
  ultimately have "\<exists>s'. tcpServer_stop True (\<lambda>_. []) ?s = Inr s' \<and> pt_pcs (ts_thread s') = [TExited] \<and> ts_open s' = []
    \<and> (\<forall>i<length (ts_CellManager ?s). \<exists>l. ts_CellManager ?s ! i = Live l \<and> loop_freed l (ts_CellManager s' ! i))
    \<and> tcpServer_SendData 0 5 [] 0 s' = Inl UseAfterFree \<and> tcpServer_start s' = Inl UseAfterFree"
    by (intro tcpServer_stop_frees[OF s0(1)]) (use s2 up in \<open>simp_all add: srv_advance_def\<close>)
  moreover have "length (ts_CellManager ?s) = 4"
  proof -
    have live: "\<forall>p\<in>set (ts_CellManager s). \<exists>l. p = Live l" using s(4) by auto
    show ?thesis using s2(1) s(4) unfolding tcpServer_start_def each_loop_start[OF live] by (auto simp: srv_advance_def)
  qed
  moreover have "ts_open ?s = [8, 7]" using s2(2) by (simp add: srv_advance_def)
  ultimately show ?thesis by blast
qed

text \<open>
  \<open>stop\<close> right after \<open>start\<close>, before the new threads have raised their flags: no loop is asked to
  stop, so each is deleted while its thread has yet to enter the loop, and this thread then runs on
  a deleted object.
\<close>

lemma tcpServer_stop_early:
  assumes "tcpServer_new n cpuN epfds = Inr s0" "0 < cpuN"
  shows "\<exists>s. tcpServer_start (snd (tcpServer_Listen port a s0)) = Inr s \<and> tcpServer_stop raised keys s = Inl UseAfterFree"
proof -
  obtain s where s: "tcpServer_start (snd (tcpServer_Listen port a s0)) = Inr s" "ts_CellManager s \<noteq> []"
    "\<forall>p\<in>set (ts_CellManager s). \<exists>e n c. p = Live ((cell_loop_new e n c)\<lparr>lp_thread := started_thread\<rparr>)"
    using fresh_start[OF fresh_loops_new(2)[OF assms, of port a]] by blast
  obtain e m c ps where "ts_CellManager s = Live ((cell_loop_new e m c)\<lparr>lp_thread := started_thread\<rparr>) # ps"
    using s(2,3) by (cases "ts_CellManager s") auto
  then have "tcpServer_stop raised keys s = Inl UseAfterFree"
    by (simp add: tcpServer_stop_def Let_def cell_loop_delete_def started_thread_def process_thread_start_def process_thread_new_def)
  then show ?thesis using s(1) by blast
qed

lemma tcpServer_stop_early_example:
  "\<exists>s0 s. tcpServer_new (Some count_hub) 1 (\<lambda>_. 3) = Inr s0 \<and> tcpServer_start (snd (tcpServer_Listen 9000 demo_answers s0)) = Inr s
     \<and> tcpServer_stop False (\<lambda>_. []) s = Inl UseAfterFree"
proof -
  obtain s0 where s0: "tcpServer_new (Some count_hub) 1 (\<lambda>_. 3) = Inr s0" by (simp add: tcpServer_new_def)
  show ?thesis using tcpServer_stop_early[OF s0, of 9000 demo_answers False "\<lambda>_. []"] s0 by auto
qed

section \<open>The wrapper\<close>

definition answers_ok :: "listen_answers \<Rightarrow> bool" where
  "answers_ok a \<longleftrightarrow> 0 < la_socket a \<and> la_bind a = 0 \<and> la_listen a = 0 \<and> 0 < la_epoll a"

lemma Listen_ok:
  assumes "tcpServer_new n cpuN epfds = Inr s0" "0 < cpuN" "port \<noteq> 0" "answers_ok a"
  shows "\<exists>s. tcpServer_Listen port a s0 = (ListenRet 0, s) \<and> ts_open s = [la_epoll a, la_socket a] \<and> ts_ListenFd s = la_epoll a
    \<and> ts_SocketFd s = la_socket a \<and> ts_TNotify s = n \<and> ts_epoll s (la_socket a) \<noteq> None"
proof -
  have "\<not> port \<le> 0" using assms(3) by (simp add: word_le_nat_alt unat_eq_0)
  moreover have "ts_SocketFd s0 = ts_INVALID_SOCKET" "ts_open s0 = []" "ts_TNotify s0 = n"
    using assms(1,2) by (auto simp: tcpServer_new_def)
  ultimately show ?thesis
    using assms(4) by (simp add: tcpServer_Listen_def Let_def ts_opens_def ts_closes_def answers_ok_def epoll_add_def)
qed

lemma tcp_server_start_ok:
  assumes "0 < cpuN" "word_of_int port \<noteq> (0 :: 32 word)" "answers_ok a"
  shows "\<exists>s w. tcp_server_start cpuN epfds a (tcp_server_init port hub w0) = Inr (None, w) \<and> tw_tcpserver w = Some s
    \<and> ts_open s = [la_epoll a, la_socket a] \<and> ts_ListenFd s = la_epoll a \<and> ts_SocketFd s = la_socket a
    \<and> ts_TNotify s = Some hub \<and> ts_closed s = [] \<and> ts_epoll s (la_socket a) \<noteq> None \<and> (\<exists>s1. fresh_loops s1 \<and> tcpServer_start s1 = Inr s)"
proof -
  obtain s0 where s0: "tcpServer_new (Some hub) cpuN epfds = Inr s0" using assms(1) by (simp add: tcpServer_new_def)
  obtain s1 where s1: "tcpServer_Listen (word_of_int port) a s0 = (ListenRet 0, s1)" "ts_open s1 = [la_epoll a, la_socket a]"
    "ts_ListenFd s1 = la_epoll a" "ts_SocketFd s1 = la_socket a" "ts_TNotify s1 = Some hub" "ts_epoll s1 (la_socket a) \<noteq> None"
    using Listen_ok[OF s0 assms(1-3)] by blast
  have c: "ts_closed s1 = []"
    using s1(1) s0 assms(1) by (auto simp: tcpServer_Listen_def Let_def tcpServer_new_def ts_opens_def ts_closes_def ts_INVALID_SOCKET_def split: if_splits)
  have f: "fresh_loops s1" using fresh_loops_new(2)[OF s0 assms(1), of "word_of_int port" a] s1(1) by simp
  obtain s2 where "tcpServer_start s1 = Inr s2" "ts_open s2 = ts_open s1" "ts_ListenFd s2 = ts_ListenFd s1" "ts_SocketFd s2 = ts_SocketFd s1"
    "ts_TNotify s2 = ts_TNotify s1" "ts_closed s2 = ts_closed s1" "ts_epoll s2 = ts_epoll s1"
    using fresh_start[OF f] by blast
  then show ?thesis
    using s0 s1 c f by (auto simp: tcp_server_start_def tcp_server_init_def server_notify_init_def Let_def)
qed

text \<open>
  C29: the life of the wrapper.  After \<open>init\<close> with a port other than 0 and successful system calls,
  \<open>start\<close> leaves a listening server; once its threads are up, \<open>stop\<close> returns without a fault, with both
  descriptors of the listener closed before the server is dropped, and the hub is back with its
  owner; then sending dereferences the null pointer, a second \<open>stop\<close> does nothing, and \<open>start\<close> works
  again.
\<close>

theorem tcp_server_life:
  assumes "0 < cpuN" "word_of_int port \<noteq> (0 :: 32 word)" "answers_ok a"
  shows "\<exists>w1 s1 w2. tcp_server_start cpuN epfds a (tcp_server_init port hub tcp_server_new) = Inr (None, w1)
    \<and> tw_tcpserver w1 = Some s1 \<and> ts_epoll s1 (la_socket a) \<noteq> None
    \<and> (\<exists>s2. tcpServer_stop raised (\<lambda>_. []) (srv_advance s1) = Inr s2 \<and> ts_open s2 = [])
    \<and> tcp_server_stop raised (\<lambda>_. []) (w1\<lparr>tw_tcpserver := Some (srv_advance s1)\<rparr>) = Inr w2
    \<and> tw_tcpserver w2 = None \<and> tw_mdpt w2 = Some hub
    \<and> tcp_server_senddata junk fd p len w2 = Inl NullDeref \<and> tcp_server_stop raised keys w2 = Inr w2
    \<and> (\<exists>w3. tcp_server_start cpuN epfds a (tcp_server_init port hub w2) = Inr (None, w3) \<and> tw_tcpserver w3 \<noteq> None)"
proof -
  obtain s1 w1 s0 where s1: "tcp_server_start cpuN epfds a (tcp_server_init port hub tcp_server_new) = Inr (None, w1)"
    "tw_tcpserver w1 = Some s1" "ts_open s1 = [la_epoll a, la_socket a]" "ts_ListenFd s1 = la_epoll a" "ts_SocketFd s1 = la_socket a"
    "ts_TNotify s1 = Some hub" "ts_epoll s1 (la_socket a) \<noteq> None" "fresh_loops s0" "tcpServer_start s0 = Inr s1"
    using tcp_server_start_ok[OF assms, of epfds hub tcp_server_new] by blast
  note up = fresh_up[OF s1(8,9)]
  obtain s2 where s2: "tcpServer_stop raised (\<lambda>_. []) (srv_advance s1) = Inr s2" "pt_pcs (ts_thread s2) = [TExited]" "ts_open s2 = []"
    "ts_TNotify s2 = Some hub" "\<not> pt_is_running (ts_thread s2)"
    using tcpServer_stop_ok[OF up(1,2), of "\<lambda>_. []" raised] up(3) s1(3-6) by (fastforce simp: srv_advance_def)
  let ?w1 = "w1\<lparr>tw_tcpserver := Some (srv_advance s1)\<rparr>"
  let ?w2 = "?w1\<lparr>tw_mdpt := Some hub, tw_notify := Some hub, tw_tcpserver := None\<rparr>"
  have stop: "tcp_server_stop raised (\<lambda>_. []) ?w1 = Inr ?w2"
    using s2 by (simp add: tcp_server_stop_def tcpServer_delete_def)
  obtain w3 where w3: "tcp_server_start cpuN epfds a (tcp_server_init port hub ?w2) = Inr (None, w3)" "tw_tcpserver w3 \<noteq> None"
    using tcp_server_start_ok[OF assms, of epfds hub ?w2] by blast
  have off: "tcp_server_senddata junk fd p len ?w2 = Inl NullDeref" "tcp_server_stop raised keys ?w2 = Inr ?w2"
    by (simp_all add: tcp_server_senddata_def tcp_server_stop_def)
  show ?thesis
    by (rule exI[of _ w1], rule exI[of _ s1], rule exI[of _ ?w2]) (use s1(1,2,7) s2(1,3) stop off w3 in simp)
qed

theorem tcp_server_life_witness:
  "\<exists>w s. tcp_server_start 1 (\<lambda>_. 3) demo_answers (tcp_server_init 9000 count_hub tcp_server_new) = Inr (None, w)
     \<and> tw_tcpserver w = Some s \<and> ts_epoll s 7 \<noteq> None"
proof -
  have a: "answers_ok demo_answers" "la_socket demo_answers = 7" by (simp_all add: answers_ok_def demo_answers_def)
  show ?thesis using tcp_server_life[OF _ _ a(1), of 1 9000 "\<lambda>_. 3" count_hub True 0 0 "[]" 0 "\<lambda>_. []"] unfolding a(2) by auto
qed

text \<open>
  Port 0 slips through the wrapper.  \<open>start\<close> ignores the code \<open>Listen\<close> returns and starts all
  threads of a server without a socket; and when this server is stopped, it closes descriptor 0,
  which its constructor stored as \<open>m_ListenFd\<close> and which is not its own.
\<close>

lemma tcp_server_port_zero:
  assumes "0 < cpuN"
  shows "\<exists>w s s2. tcp_server_start cpuN epfds a (tcp_server_init 0 hub tcp_server_new) = Inr (None, w) \<and> tw_tcpserver w = Some s
    \<and> ts_SocketFd s = ts_INVALID_SOCKET \<and> pt_thread (ts_thread s) \<noteq> None \<and> ts_open s = []
    \<and> tcpServer_stop raised (\<lambda>_. []) (srv_advance s) = Inr s2 \<and> 0 \<in> set (ts_closed s2)"
proof -
  obtain s0 where s0: "tcpServer_new (Some hub) cpuN epfds = Inr s0" "ts_SocketFd s0 = ts_INVALID_SOCKET" "ts_open s0 = []" "ts_ListenFd s0 = 0"
    using assms by (auto simp: tcpServer_new_def)
  have l: "tcpServer_Listen 0 a s0 = (ListenRet 101001, s0)" by (simp add: tcpServer_Listen_def)
  have f: "fresh_loops s0" by (rule fresh_loops_new(1)[OF s0(1) assms])
  obtain s where s: "tcpServer_start s0 = Inr s" "ts_open s = []" "ts_ListenFd s = 0" "ts_SocketFd s = ts_INVALID_SOCKET"
    "ts_thread s = started_thread"
    using fresh_start[OF f] s0 by auto
  note up = fresh_up[OF f s(1)]
  obtain s2 where s2: "tcpServer_stop raised (\<lambda>_. []) (srv_advance s) = Inr s2" "0 \<in> set (ts_closed s2)"
    using tcpServer_stop_ok[OF up(1,2), of "\<lambda>_. []" raised] up(3) s(3) by (fastforce simp: srv_advance_def)
  have "pt_thread (ts_thread s) \<noteq> None" by (simp add: s(5) started_thread_def process_thread_start_def)
  then show ?thesis
    using s0(1) l s s2 by (auto simp: tcp_server_start_def tcp_server_init_def server_notify_init_def Let_def)
qed

lemma tcp_server_port_zero_example:
  "\<exists>w s. tcp_server_start 1 (\<lambda>_. 3) demo_answers (tcp_server_init 0 count_hub tcp_server_new) = Inr (None, w)
     \<and> tw_tcpserver w = Some s \<and> ts_SocketFd s = - 1"
  using tcp_server_port_zero[of 1 "\<lambda>_. 3" demo_answers count_hub True] by (auto simp: ts_INVALID_SOCKET_def)

end
