(* ===== verification/Client_To_Server.thy ===== *)
theory Client_To_Server
  imports End_To_End
begin

text \<open>
  From \<open>SendData\<close> of the client to the hub of the server.  The client hands each message to one call
  of \<open>send\<close> and passes its result on to the caller; a socket that takes a part of the message only,
  which \<open>send\<close> on a full buffer with a signal may do, is not noticed, and the receiver then
  cuts the stream at the wrong places.
\<close>

section \<open>A user who sends messages one after the other\<close>

text \<open>
  Calls of \<open>SendData\<close>, each with the value \<open>send\<close> returns for it, and the bytes that have gone into
  the socket: a positive result is the number of bytes taken, in front.
\<close>

fun client_sends :: "'h tCliNotify \<Rightarrow> (byte list \<times> int) list \<Rightarrow> 'h tcp_client \<Rightarrow> (byte list \<times> 'h tcp_client) outcome" where
  "client_sends n [] c = Inr ([], c)"
| "client_sends n ((buf, ret) # calls) c =
    obind (client_SendData n (Some buf) ret c) (\<lambda>(r, c').
      obind (client_sends n calls c') (\<lambda>(w, c'').
        Inr ((if client_isRun c then take (nat ret) buf else []) @ w, c'')))"

lemma client_sends_closed: "\<not> client_isRun c \<Longrightarrow> client_sends n calls c = Inr ([], c)"
  by (induction calls) (auto simp: client_SendData_def)

text \<open>A result other than an error leaves the client as it is.\<close>

lemma client_sends_open:
  "client_isRun c \<Longrightarrow> ret \<noteq> - 1 \<Longrightarrow> client_sends n ((buf, ret) # calls) c =
    obind (client_sends n calls c) (\<lambda>(w, c'). Inr (take (nat ret) buf @ w, c'))"
  by (simp add: client_SendData_def)

lemma client_Close_closed: "cl_Tcn c = Some h \<Longrightarrow> \<exists>c'. client_Close n c = Inr c' \<and> \<not> client_isRun c'"
  by (simp add: client_Close_def client_isRun_def Let_def)

text \<open>The number of messages before the first call that fails.\<close>

definition sends_before :: "int list \<Rightarrow> nat" where
  "sends_before rets = length (takeWhile (\<lambda>r. r \<noteq> - 1) rets)"

text \<open>
  When the socket takes whole messages or fails, the bytes are those of the messages before the
  first failure, which ends the connection.
\<close>

lemma client_sends_whole:
  assumes "client_isRun c" "cl_Tcn c = Some h"
    and "list_all2 (\<lambda>b r. r = - 1 \<or> r = int (length b)) bufs rets"
  shows "\<exists>c'. client_sends n (zip bufs rets) c = Inr (concat (take (sends_before rets) bufs), c')
    \<and> (client_isRun c' \<longleftrightarrow> - 1 \<notin> set rets)"
  using assms(3)
proof (induction rule: list_all2_induct)
  case Nil
  then show ?case using assms(1) by simp
next
  case (Cons b bs r rs)
  show ?case
  proof (cases "r = - 1")
    case True
    obtain c' where "client_Close n c = Inr c'" "\<not> client_isRun c'" using client_Close_closed[OF assms(2)] by blast
    then show ?thesis using True assms(1) by (simp add: client_SendData_def client_sends_closed sends_before_def)
  next
    case False
    then show ?thesis using Cons client_sends_open[OF assms(1) False] by (auto simp: sends_before_def)
  qed
qed

section \<open>To the hub of the server\<close>



section \<open>A message that goes out in part\<close>


text \<open>A hub that keeps the payloads.\<close>

definition payload_hub :: "byte list list tcp_server_hub" where
  "payload_hub = \<lparr>hub_on_read = (\<lambda>c clientid payload h. (True, c @ [payload])), hub_state = []\<rparr>"


end
