(* ===== verification/Server_Delivery.thy ===== *)
theory Server_Delivery
  imports End_To_End
begin

text \<open>
  The sending side of the server from \<open>SendData\<close> to the socket: messages passed to \<open>SendData\<close> are
  queued with the loop that owns the connection, and its next pass writes them.
\<close>

section \<open>A user who sends messages to one connection\<close>

fun server_sends :: "64 word \<Rightarrow> int \<Rightarrow> byte list list \<Rightarrow> 'h tcpServer \<Rightarrow> 'h tcpServer outcome" where
  "server_sends junk fd [] s = Inr s"
| "server_sends junk fd (p # ps) s =
    obind (tcpServer_SendData junk fd p (size_of_int (int (length p))) s) (\<lambda>(r, s'). server_sends junk fd ps s')"

lemma length_conn_list:
  "cm_Cell s fd = Some c \<Longrightarrow> length (conn_list s fd) = length (cell_addrs c) + length (send_tasks fd (cm_tasks s))"
  by (simp add: conn_list_def conn_unsent_def queue_unsent_def unsent_def)

text \<open>Posting one more message to a connection in use, as long as its ring will have room.\<close>

lemma sendTask_quiet:
  assumes "cm_inv s" "cm_quiet fd s" "length p + 1 < 2 ^ 31"
    and "length (cm_tasks s) < srt_cap (cm_cellTask s)" "Suc (length (conn_list s fd)) < SYSSENDBUF"
  shows "\<exists>r s'. sendTask fd p (int (length p)) s = Inr (r, s') \<and> cm_inv s' \<and> cm_quiet fd s' \<and> cm_TNotify s' = cm_TNotify s
    \<and> conn_list s' fd = conn_list s fd @ [p] \<and> cm_wire s' = cm_wire s
    \<and> length (cm_tasks s') = Suc (length (cm_tasks s)) \<and> srt_cap (cm_cellTask s') = srt_cap (cm_cellTask s)"
proof -
  obtain c where c: "cm_Cell s fd = Some c" "\<And>t. t \<in> set (cm_tasks s) \<Longrightarrow> ct_event t = CHR ''D'' \<Longrightarrow> ct_clientid t \<noteq> fd"
    using cm_quietD[OF assms(2)] by metis
  have "int (length p + 1) < int (2 ^ 31)" using assms(3) by (simp only: of_nat_less_iff)
  then have len: "0 \<le> int (length p)" "int (length p) + 1 < 2 ^ 31" "nat (int (length p)) \<le> length p" by simp_all
  from sendTask_stream[OF assms(1) _ len, of fd] c(1) assms(4) obtain r s' where
    s': "sendTask fd p (int (length p)) s = Inr (r, s')" "cm_inv s'" "cm_Cell s' = cm_Cell s" "cm_wire s' = cm_wire s"
      "cm_TNotify s' = cm_TNotify s" "conn_list s' fd = conn_list s fd @ [p]"
      "cm_tasks s' = cm_tasks s @ [cellTask_new\<lparr>ct_event := CHR ''S'', ct_clientid := fd, ct_sC := Some (cm_next s)\<rparr>]"
    by auto
  have cap: "srt_cap (cm_cellTask s') = srt_cap (cm_cellTask s)"
    using s'(1) by (auto simp: sendTask_def cm_push_def Let_def obind_eq_Inr sq.cap_push split: option.splits if_splits)
  have "cm_quiet fd s'"
    using c length_conn_list[of s fd c] s'(3,7) assms(5) by (auto simp: cm_quiet_def)
  then show ?thesis using s' cap by (intro exI[of _ r] exI[of _ s']) simp
qed

context safe_handler
begin

lemma server_sends_post:
  assumes "srv_inv ok s" "i < length (ts_CellManager s)" "ts_CellManager s ! i = Live l" "cm_quiet fd (lp_cm l)"
    and "length (cm_tasks (lp_cm l)) + length ps \<le> srt_cap (cm_cellTask (lp_cm l))"
    and "length (conn_list (lp_cm l) fd) + length ps < SYSSENDBUF" "\<forall>p\<in>set ps. length p + 1 < 2 ^ 31"
  shows "\<exists>s' l'. server_sends junk fd ps s = Inr s' \<and> srv_inv ok s' \<and> ts_CellManager s' = (ts_CellManager s)[i := Live l']
    \<and> cm_quiet fd (lp_cm l') \<and> conn_list (lp_cm l') fd = conn_list (lp_cm l) fd @ ps
    \<and> cm_wire (lp_cm l') = cm_wire (lp_cm l) \<and> ts_TNotify s' = ts_TNotify s"
  using assms
proof (induction ps arbitrary: s l)
  case Nil
  then show ?case using list_update_id[of "ts_CellManager s" i] by (intro exI[of _ s] exI[of _ l]) simp
next
  case (Cons p ps)
  let ?N = "length (ts_CellManager s)" and ?cm = "(lp_cm l)\<lparr>cm_TNotify := ts_TNotify s\<rparr>"
  have lo: "cm_inv ?cm" "loop_of ?N i fd"
    using srv_invD(3)[OF Cons.prems(1,2)] Cons.prems(3,4) by (auto simp: loop_ok_def cm_quiet_def)
  have cm: "cm_quiet fd ?cm" "length (cm_tasks ?cm) < srt_cap (cm_cellTask ?cm)" "Suc (length (conn_list ?cm fd)) < SYSSENDBUF"
    "length p + 1 < 2 ^ 31"
    using Cons.prems(4-7) by (simp_all add: cm_quiet_def cm_tasks_def conn_list_notify)
  obtain r cm' where cm': "sendTask fd p (int (length p)) ?cm = Inr (r, cm')" "cm_quiet fd cm'" "cm_TNotify cm' = ts_TNotify s"
    "conn_list cm' fd = conn_list (lp_cm l) fd @ [p]" "cm_wire cm' = cm_wire (lp_cm l)"
    "length (cm_tasks cm') = Suc (length (cm_tasks (lp_cm l)))" "srt_cap (cm_cellTask cm') = srt_cap (cm_cellTask (lp_cm l))"
    using sendTask_quiet[OF lo(1) cm(1,4,2,3)] by (auto simp: cm_tasks_def conn_list_notify)
  have i: "CurrCellManager fd s = Inr i"
    using CurrCellManager_eq[OF srv_invD(1)[OF Cons.prems(1)], of fd] lo(2) by (simp add: loop_of_def)
  have "int (length p + 1) < int (2 ^ 31)" using cm(4) by (simp only: of_nat_less_iff)
  then have len: "int_of_size (size_of_int (int (length p))) = int (length p)" using size_of_int_small(2)[of "int (length p)"] by simp
  let ?l = "l\<lparr>lp_cm := cm'\<rparr>"
  let ?s = "s\<lparr>ts_CellManager := (ts_CellManager s)[i := Live ?l], ts_TNotify := cm_TNotify cm'\<rparr>"
  have one: "tcpServer_SendData junk fd p (size_of_int (int (length p))) s = Inr (junk, ?s)"
    using on_loop_eq[OF Cons.prems(2,3), of "sendTask fd p (int (length p))" r cm'] cm'(1) i len by (simp add: tcpServer_SendData_def)
  have "srv_inv ok ?s" using SendData_ok[OF Cons.prems(1), of "int (length p)" p junk fd] one cm(4) by auto
  from Cons.IH[OF this, of ?l] Cons.prems(2,5-7) cm' obtain s' l' where
    "server_sends junk fd ps ?s = Inr s'" "srv_inv ok s'" "ts_CellManager s' = (ts_CellManager s)[i := Live l']"
    "cm_quiet fd (lp_cm l')" "conn_list (lp_cm l') fd = conn_list (lp_cm l) fd @ p # ps"
    "cm_wire (lp_cm l') = cm_wire (lp_cm l)" "ts_TNotify s' = ts_TNotify s"
    by auto
  then show ?case using one by (intro exI[of _ s'] exI[of _ l']) simp
qed

end

section \<open>One pass of the loop writes them\<close>

text \<open>
  C3: what users send arrives at the socket.  On any state of a running server, take a connection in
  use and messages, none of them empty, that are given to \<open>SendData\<close> one after the other; at most
  \<open>serverMaxSendTimes\<close>, together with those that were on their way to the connection before, and no
  more than the loop's task queue has room for.  Then every call returns, and if the kernel takes
  whatever it is given, the next pass of the loop that owns the connection, with the connection's
  \<open>EPOLLOUT\<close> event, writes all of them, completely and in order, and leaves nothing in the ring or
  the queue.  No other loop has changed.
\<close>

theorem server_sends_arrive:
  assumes "tcpServer_new (Some hub) cpuN epfds = Inr s0" "0 < cpuN" "srv_reach server_callbacks s0 s"
    and "i < length (ts_CellManager s)" "ts_CellManager s ! i = Live l" "cm_quiet fd (lp_cm l)"
    and "length (cm_tasks (lp_cm l)) + length ps \<le> srt_cap (cm_cellTask (lp_cm l))"
    and "length (conn_list (lp_cm l) fd @ ps) \<le> serverMaxSendTimes" "\<forall>p\<in>set (conn_list (lp_cm l) fd @ ps). p \<noteq> []"
    and "\<forall>p\<in>set ps. length p + 1 < 2 ^ 31"
    and "\<forall>j<length (conn_list (lp_cm l) fd @ ps). \<exists>room. ws j = WriteOk room \<and> length ((conn_list (lp_cm l) fd @ ps) ! j) \<le> room"
  shows "\<exists>s1 s2 l2. server_sends junk fd ps s = Inr s1
    \<and> tcpServer_loop_pass server_callbacks i keys (Some [send_event fd ws]) s1 = Inr (True, s2)
    \<and> ts_CellManager s2 = (ts_CellManager s)[i := Live l2]
    \<and> cm_wire (lp_cm l2) fd = cm_wire (lp_cm l) fd @ concat (conn_list (lp_cm l) fd @ ps) \<and> conn_list (lp_cm l2) fd = []"
proof -
  have inv: "srv_inv (\<lambda>m. m \<noteq> None) s" using srv_started_inv[of hub cpuN s] assms(1-3) by blast
  have "length (conn_list (lp_cm l) fd) + length ps < SYSSENDBUF"
    using assms(8) by (simp add: serverMaxSendTimes_def SYSSENDBUF_def)
  from sh.server_sends_post[OF inv assms(4-7) this assms(10)] obtain s1 l1 where
    s1: "server_sends junk fd ps s = Inr s1" "srv_inv (\<lambda>m. m \<noteq> None) s1" "ts_CellManager s1 = (ts_CellManager s)[i := Live l1]"
      "cm_quiet fd (lp_cm l1)" "conn_list (lp_cm l1) fd = conn_list (lp_cm l) fd @ ps" "cm_wire (lp_cm l1) = cm_wire (lp_cm l)"
    by blast
  let ?cm = "(lp_cm l1)\<lparr>cm_TNotify := ts_TNotify s1\<rparr>"
  have l1: "i < length (ts_CellManager s1)" "ts_CellManager s1 ! i = Live l1" using s1(3) assms(4) by simp_all
  have "cm_inv ?cm" "cm_TNotify ?cm \<noteq> None" "cm_quiet fd ?cm"
    using srv_invD(2)[OF s1(2)] srv_invD(3)[OF s1(2) l1(1)] l1(2) s1(4) by (auto simp: loop_ok_def cm_quiet_def cm_tasks_def)
  from run_pass_sends_all[OF this, of ws keys] assms(8,9,11) s1(5,6) obtain cm2 where
    cm2: "run_pass server_callbacks keys (Some [send_event fd ws]) ?cm = Some (Inr (True, cm2))"
      "cm_wire cm2 fd = cm_wire (lp_cm l) fd @ concat (conn_list (lp_cm l) fd @ ps)" "conn_list cm2 fd = []"
    by (auto simp: conn_list_notify)
  let ?f = "\<lambda>cm. case run_pass server_callbacks keys (Some [send_event fd ws]) cm of None \<Rightarrow> Inl Diverges | Some r \<Rightarrow> r"
  have "?f ?cm = Inr (True, cm2)" using cm2(1) by simp
  note pass = on_loop_eq[where f = ?f, OF l1 this]
  let ?s2 = "s1\<lparr>ts_CellManager := (ts_CellManager s1)[i := Live (l1\<lparr>lp_cm := cm2\<rparr>)], ts_TNotify := cm_TNotify cm2\<rparr>"
  show ?thesis
    by (intro exI[of _ s1] exI[of _ ?s2] exI[of _ "l1\<lparr>lp_cm := cm2\<rparr>"])
      (use s1(1,3) pass cm2(2,3) in \<open>simp add: tcpServer_loop_pass_def\<close>)
qed

theorem server_sends_arrive_witness:
  "\<exists>s s1 s2 l2. server_sends 0 5 [encode_frame frame_a, encode_frame frame_b] (s :: nat server_notify tcpServer) = Inr s1
     \<and> tcpServer_loop_pass server_callbacks 1 [5] (Some [send_event 5 (\<lambda>_. WriteOk 100)]) s1 = Inr (True, s2)
     \<and> ts_CellManager s2 ! 1 = Live l2 \<and> conn_list (lp_cm l2) 5 = []
     \<and> (\<exists>w. cm_wire (lp_cm l2) 5 = w @ encode_frame frame_a @ encode_frame frame_b)"
proof -
  let ?ps = "[encode_frame frame_a, encode_frame frame_b]" and ?A = "cellTask_new\<lparr>ct_event := CHR ''A'', ct_clientid := 5\<rparr>"
  obtain s l epfds s0 where s: "tcpServer_new (Some count_hub) 1 epfds = Inr s0" "srv_reach server_callbacks s0 s"
    "length (ts_CellManager s) = 4" "ts_CellManager s ! 1 = Live l" "cm_Cell (lp_cm l) = [5 \<mapsto> accepted_cell demo_accepted]"
    "cm_tasks (lp_cm l) = [?A]" "srt_cap (cm_cellTask (lp_cm l)) = (2 ^ 15 - 1) * 2 ^ 16"
    using srv_demo by blast
  have addrs: "cell_addrs (accepted_cell demo_accepted) = []"
    using ce_inv_new(2) by (simp add: cell_addrs_def accepted_cell_def)
  have l0: "conn_list (lp_cm l) 5 = []"
    using s(5,6) addrs by (simp add: conn_list_def conn_unsent_def queue_unsent_def unsent_def cm_tasks_def)
  have quiet: "cm_quiet 5 (lp_cm l)" using s(5,6) addrs by (auto simp: cm_quiet_def SYSSENDBUF_def cm_tasks_def)
  have i: "1 < length (ts_CellManager s)" using s(3) by simp
  have room: "length (cm_tasks (lp_cm l)) + length ?ps \<le> srt_cap (cm_cellTask (lp_cm l))" using s(6,7) by simp
  have ps: "length (conn_list (lp_cm l) 5 @ ?ps) \<le> serverMaxSendTimes" "\<forall>p\<in>set (conn_list (lp_cm l) 5 @ ?ps). p \<noteq> []"
    "\<forall>p\<in>set ?ps. length p + 1 < 2 ^ 31"
    "\<forall>j<length (conn_list (lp_cm l) 5 @ ?ps). \<exists>room. WriteOk 100 = WriteOk room \<and> length ((conn_list (lp_cm l) 5 @ ?ps) ! j) \<le> room"
    by (auto simp: l0 serverMaxSendTimes_def less_Suc_eq simp flip: length_greater_0_conv)
  from server_sends_arrive[OF s(1) zero_less_one s(2) i s(4) quiet room ps, of 0 "[5]"]
  obtain s1 s2 l2 where "server_sends 0 5 ?ps s = Inr s1"
    "tcpServer_loop_pass server_callbacks 1 [5] (Some [send_event 5 (\<lambda>_. WriteOk 100)]) s1 = Inr (True, s2)"
    "ts_CellManager s2 = (ts_CellManager s)[1 := Live l2]" "conn_list (lp_cm l2) 5 = []"
    "cm_wire (lp_cm l2) 5 = cm_wire (lp_cm l) 5 @ concat ?ps"
    unfolding l0 by auto
  moreover from this(3) i have "ts_CellManager s2 ! 1 = Live l2" by simp
  moreover have "concat ?ps = encode_frame frame_a @ encode_frame frame_b" by simp
  ultimately show ?thesis by metis
qed

end
