(* ===== verification/Message_Base.thy ===== *)
theory Message_Base
  imports Srt_Queue Server_Notify Client_Notify "HOL-Library.Signed_Division"
begin

text \<open>
  \<open>processor_base\<close> (base/src/message_base.h): a worker's inbox, an \<open>srt_queue\<close> of messages with
  pages of \<open>2 ^ 12\<close>; and \<open>message_center\<close> (common/test/tcpserver/message_center.cpp), the hub that
  puts every message the server receives into such a queue.
\<close>

section \<open>processor_base\<close>

record processor_base =
  pb_msg_queue :: "atp_message srt_queue option"

text \<open>\<open>zero\<close> is what the memory of a new page holds.\<close>

definition processor_base_new :: "atp_message \<Rightarrow> processor_base" where
  "processor_base_new zero = \<lparr>pb_msg_queue = Some (snd (srt_init (srt_new zero 12 kDefaultPageIndexBits)))\<rparr>"

definition processor_base_delete :: "processor_base \<Rightarrow> processor_base outcome" where
  "processor_base_delete pb =
    (case pb_msg_queue pb of
       None \<Rightarrow> Inr pb
     | Some q \<Rightarrow> obind (srt_release q) (\<lambda>(ok, q'). Inr (pb\<lparr>pb_msg_queue := None\<rparr>)))"

text \<open>\<open>post\<close> returns nothing: whether the queue took the message is not reported.\<close>

definition processor_post :: "atp_message \<Rightarrow> processor_base \<Rightarrow> processor_base outcome" where
  "processor_post msg pb =
    (case pb_msg_queue pb of
       None \<Rightarrow> Inl NullDeref
     | Some q \<Rightarrow> obind (srt_push msg q) (\<lambda>(ok, q'). Inr (pb\<lparr>pb_msg_queue := Some q'\<rparr>)))"

definition processor_get :: "processor_base \<Rightarrow> (int \<times> atp_message option \<times> processor_base) outcome" where
  "processor_get pb =
    (case pb_msg_queue pb of
       None \<Rightarrow> Inl NullDeref
     | Some q \<Rightarrow> obind (srt_pop q) (\<lambda>(r, q').
         Inr (if r \<noteq> None then 0 else - 1, r, pb\<lparr>pb_msg_queue := Some q'\<rparr>)))"

fun processor_post_all :: "atp_message list \<Rightarrow> processor_base \<Rightarrow> processor_base outcome" where
  "processor_post_all [] pb = Inr pb"
| "processor_post_all (m # ms) pb = obind (processor_post m pb) (processor_post_all ms)"

text \<open>What a worker does in its loop: take messages until there is none.\<close>

fun processor_drain :: "nat \<Rightarrow> processor_base \<Rightarrow> (atp_message list \<times> processor_base) outcome" where
  "processor_drain 0 pb = Inr ([], pb)"
| "processor_drain (Suc n) pb =
    obind (processor_get pb) (\<lambda>(ret, r, pb').
      case r of
        None \<Rightarrow> Inr ([], pb')
      | Some m \<Rightarrow> obind (processor_drain n pb') (\<lambda>(ms, pb''). Inr (m # ms, pb'')))"

lemma processor_post_all_push:
  "processor_post_all ms \<lparr>pb_msg_queue = Some q\<rparr> =
    obind (push_batch srt_push ms q) (\<lambda>(n, q'). Inr \<lparr>pb_msg_queue = Some q'\<rparr>)"
proof (induction ms arbitrary: q)
  case Nil
  then show ?case by simp
next
  case (Cons m ms)
  show ?case
  proof (cases "srt_push m q")
    case (Inl e)
    then show ?thesis by (simp add: processor_post_def)
  next
    case (Inr r)
    then show ?thesis using Cons.IH[of "snd r"]
      by (cases r; cases "push_batch srt_push ms (snd r)") (auto simp: processor_post_def)
  qed
qed

lemma processor_drain_pop:
  "processor_drain n \<lparr>pb_msg_queue = Some q\<rparr> =
    obind (pop_upto srt_pop n q) (\<lambda>(ms, q'). Inr (ms, \<lparr>pb_msg_queue = Some q'\<rparr>))"
proof (induction n arbitrary: q)
  case 0
  then show ?case by simp
next
  case (Suc n)
  show ?case
  proof (cases "srt_pop q")
    case (Inl e)
    then show ?thesis by (simp add: processor_get_def)
  next
    case (Inr r)
    then show ?thesis using Suc.IH[of "snd r"]
      by (cases r; cases "fst r"; cases "pop_upto srt_pop n (snd r)") (auto simp: processor_get_def)
  qed
qed

text \<open>
  An inbox hands a worker the messages posted to it, in order and without a fault, up to its
  capacity of \<open>(2 ^ 15 - 1) * 2 ^ 12\<close>; what is posted beyond is dropped, and neither the poster nor
  the worker is told.  Deleting it afterwards frees the queue.
\<close>

lemma processor_delivers:
  "\<exists>pb pb' pb''. processor_post_all ms (processor_base_new zero) = Inr pb
    \<and> processor_drain (length ms) pb = Inr (take ((2 ^ 15 - 1) * 2 ^ 12) ms, pb')
    \<and> processor_base_delete pb' = Inr pb'' \<and> pb_msg_queue pb'' = None"
proof -
  let ?q = "snd (srt_init (srt_new zero 12 kDefaultPageIndexBits))" and ?cap = "(2 ^ 15 - 1) * 2 ^ 12 :: nat"
  have cap: "srt_cap ?q = ?cap" using srt_inv_init(3)[of zero 12 kDefaultPageIndexBits] by (simp add: kDefaultPageIndexBits_def)
  have "length (srt_contents ?q) \<le> srt_cap ?q" by (simp add: srt_inv_init(2))
  from sq.push_batch_takes[OF srt_inv_init(1) this, of ms] obtain k q' where
    q': "push_batch srt_push ms ?q = Inr (k, q')" "srt_inv q'" "srt_contents q' = take ?cap ms"
    unfolding cap srt_inv_init(2) by auto
  obtain q'' where q'': "pop_upto srt_pop (length ms) q' = Inr (take ?cap ms, q'')" "srt_inv q''"
    using sq.pop_upto_takes[OF q'(2), of "length ms"] q'(3) by (auto simp: min_def)
  obtain q3 where "srt_release q'' = Inr (True, q3)" using srt_release_no_leak[OF q''(2)] by blast
  then show ?thesis
    using processor_post_all_push[of ms ?q] processor_drain_pop[of "length ms" q'] q' q''
    by (auto simp: processor_base_new_def processor_base_delete_def)
qed

section \<open>message_center\<close>

text \<open>
  \<open>on_read\<close> allocates the message's first parameter, a multiple of 32 bytes with room for the payload,
  and leaves it as the allocator delivers it (\<open>garbage\<close>): the copy of the payload is commented out.  The
  size is computed in \<open>int32\<close>, where a division rounds towards zero; the data size of a received
  message is positive.
\<close>

definition center_dispatch :: "atp_message \<Rightarrow> atp_message srt_queue \<Rightarrow> (int \<times> atp_message srt_queue) outcome" where
  "center_dispatch msg q = obind (srt_push msg q) (\<lambda>(ok, q'). Inr (if ok then 0 else - 1, q'))"

definition center_size :: "msg_header \<Rightarrow> int" where
  "center_size m_header = (data_size m_header sdiv 32 + 1) * 32"

lemma center_size_bounds: "0 < data_size mh \<Longrightarrow> data_size mh < 2 ^ 30 \<Longrightarrow> 0 \<le> center_size mh \<and> center_size mh < 2 ^ 31"
  by (simp add: center_size_def signed_divide_int_def)

definition center_on_read :: "(nat \<Rightarrow> byte list) \<Rightarrow> 32 word \<Rightarrow> byte list \<Rightarrow> msg_header \<Rightarrow> atp_message srt_queue \<Rightarrow>
    (bool \<times> atp_message srt_queue) outcome" where
  "center_on_read garbage clientid ptr m_header q =
    (let sz = center_size m_header;
         msg = \<lparr>am_type = hd_type m_header, am_param1 = Some (garbage (nat sz)), am_param2 = Some (sint clientid)\<rparr>
     in obind (oassert SignedOverflow (sz < 2 ^ 31)) (\<lambda>_.
        obind (oassert BadAlloc (0 \<le> sz)) (\<lambda>_.
        obind (center_dispatch msg q) (\<lambda>(ret, q'). Inr (ret = 0, q')))))"

text \<open>What arrives in the queue has the type and the sender of the message, and none of its payload.\<close>

lemma center_on_read_queues:
  assumes "srt_inv q" "0 < data_size mh" "data_size mh < 2 ^ 30"
  shows "\<exists>ok q'. center_on_read garbage clientid ptr mh q = Inr (ok, q') \<and> srt_inv q' \<and> ok = srt_room q
    \<and> srt_contents q' = srt_contents q @ (if ok then [\<lparr>am_type = hd_type mh,
        am_param1 = Some (garbage (nat (center_size mh))), am_param2 = Some (sint clientid)\<rparr>] else [])"
proof -
  let ?sz = "center_size mh"
  let ?msg = "\<lparr>am_type = hd_type mh, am_param1 = Some (garbage (nat ?sz)), am_param2 = Some (sint clientid)\<rparr>"
  have "0 \<le> center_size mh" "center_size mh < 2 ^ 31" using center_size_bounds[OF assms(2,3)] by simp_all
  then have step: "center_on_read garbage clientid ptr mh q = obind (center_dispatch ?msg q) (\<lambda>(ret, q'). Inr (ret = 0, q'))"
    by (simp add: center_on_read_def Let_def)
  obtain ok q' where "srt_push ?msg q = Inr (ok, q')" "srt_inv q'" "ok = srt_room q"
    "srt_contents q' = srt_contents q @ (if ok then [?msg] else [])"
    using sq.push_total[OF assms(1), of ?msg] by blast
  then show ?thesis unfolding step by (intro exI[of _ ok] exI[of _ q']) (simp add: center_dispatch_def)
qed

end
