(* ===== verification/Message_Center.thy ===== *)
theory Message_Center
  imports Message_Base
begin

text \<open>
  The hub \<open>message_center\<close> (common/test/tcpserver/message_center.cpp) behind the receive callback of the
  server: what a connection has received becomes messages in the queue, as far as this has room.
\<close>

section \<open>The hub\<close>

text \<open>The message the hub makes of what it is given.\<close>

definition center_msg :: "(nat \<Rightarrow> byte list) \<Rightarrow> 32 word \<Rightarrow> msg_header \<Rightarrow> atp_message" where
  "center_msg garbage clientid mh = \<lparr>am_type = hd_type mh,
     am_param1 = Some (garbage (nat (center_size mh))), am_param2 = Some (sint clientid)\<rparr>"

text \<open>
  The object as a \<open>tcp_server_hub\<close>; its state is the queue \<open>m_queue\<close> points to.  A fault in
  \<open>on_read\<close>, which the type of the virtual function has no room for, stays as the state.
\<close>

definition center_hub :: "(nat \<Rightarrow> byte list) \<Rightarrow> atp_message srt_queue outcome \<Rightarrow> atp_message srt_queue outcome tcp_server_hub" where
  "center_hub garbage c = \<lparr>hub_on_read = (\<lambda>c clientid payload mh.
       case obind c (center_on_read garbage clientid payload mh) of
         Inl e \<Rightarrow> (False, Inl e)
       | Inr (ok, q) \<Rightarrow> (ok, Inr q)), hub_state = c\<rparr>"

lemma center_hub_update [simp]: "(center_hub garbage c)\<lparr>hub_state := c'\<rparr> = center_hub garbage c'"
  by (simp add: center_hub_def)

lemma center_hub_read:
  assumes "srt_inv q" "0 < data_size (fst m)" "data_size (fst m) < 2 ^ 30"
  shows "\<exists>q'. hub_read (center_hub garbage (Inr q)) clientid m = (length (srt_contents q) < srt_cap q, center_hub garbage (Inr q'))
    \<and> srt_inv q' \<and> srt_cap q' = srt_cap q \<and> srt_contents q' = srt_contents q @
        (if length (srt_contents q) < srt_cap q then [center_msg garbage clientid (fst m)] else [])"
proof -
  obtain ok q' where q': "center_on_read garbage clientid (snd m) (fst m) q = Inr (ok, q')" "srt_inv q'" "ok = srt_room q"
    "srt_contents q' = srt_contents q @ (if ok then [center_msg garbage clientid (fst m)] else [])"
    using center_on_read_queues[OF assms, of garbage clientid "snd m"] unfolding center_msg_def by blast
  have "srt_cap q' = srt_cap q"
    using q'(1) sq.cap_push by (auto simp: center_on_read_def center_dispatch_def Let_def obind_eq_Inr)
  then show ?thesis using q' sq.room_iff[OF assms(1)] by (auto simp: hub_read_def center_hub_def Let_def)
qed

text \<open>Messages offered one after the other: the first refusal ends it.\<close>

lemma center_hub_feed:
  assumes "srt_inv q" "\<forall>m\<in>set ms. 0 < data_size (fst m) \<and> data_size (fst m) < 2 ^ 30" "length (srt_contents q) \<le> srt_cap q"
  defines "k \<equiv> min (length ms) (srt_cap q - length (srt_contents q))"
  shows "\<exists>q'. hub_feed (center_hub garbage (Inr q)) clientid ms = (k, center_hub garbage (Inr q')) \<and> srt_inv q'
    \<and> srt_contents q' = srt_contents q @ map (\<lambda>m. center_msg garbage clientid (fst m)) (take k ms)"
  using assms(1-3) unfolding k_def
proof (induction ms arbitrary: q)
  case Nil
  then show ?case by (intro exI[of _ q]) simp
next
  case (Cons m ms)
  obtain q1 where q1: "hub_read (center_hub garbage (Inr q)) clientid m = (length (srt_contents q) < srt_cap q, center_hub garbage (Inr q1))"
    "srt_inv q1" "srt_cap q1 = srt_cap q" "srt_contents q1 = srt_contents q @
        (if length (srt_contents q) < srt_cap q then [center_msg garbage clientid (fst m)] else [])"
    using center_hub_read[OF Cons.prems(1), of m garbage clientid] Cons.prems(2) by auto
  show ?case
  proof (cases "length (srt_contents q) < srt_cap q")
    case True
    have le: "length (srt_contents q1) \<le> srt_cap q1" using True q1(3,4) by simp
    from Cons.IH[OF q1(2) _ le] Cons.prems(2) obtain q2 where
      q2: "hub_feed (center_hub garbage (Inr q1)) clientid ms = (min (length ms) (srt_cap q1 - length (srt_contents q1)), center_hub garbage (Inr q2))"
        "srt_inv q2" "srt_contents q2 = srt_contents q1 @
          map (\<lambda>m. center_msg garbage clientid (fst m)) (take (min (length ms) (srt_cap q1 - length (srt_contents q1))) ms)"
      by auto
    have n: "min (length (m # ms)) (srt_cap q - length (srt_contents q)) = Suc (min (length ms) (srt_cap q1 - length (srt_contents q1)))"
      using True q1(3,4) by simp
    show ?thesis unfolding n using q1(1,4) q2 True by (intro exI[of _ q2]) simp
  next
    case False
    then show ?thesis using q1 by (intro exI[of _ q1]) simp
  qed
qed

section \<open>From the connection to the queue\<close>

lemma frames_len_encode: "frames_len ms = length (concat (map encode_frame ms))"
  by (induction ms) (simp_all add: frames_len_def encode_frame_def)

text \<open>
  C16: the hub takes what its queue has room for, and the rest stays with the connection.  When the
  unread bytes of a connection begin with complete messages, \<open>OnRecvData\<close> puts the first of them, as
  many as the queue has room for, into it in order, each with its type and the number of the
  connection, and reports exactly their bytes as read, so that a message the queue refuses is not
  lost but offered again.  Of the payload the queue gets the size only.
\<close>

theorem center_takes_what_fits:
  assumes "srt_inv q" "length (srt_contents q) \<le> srt_cap q" "clientid \<noteq> 0"
    and "\<forall>m\<in>set ms. frame_ok m" "\<not> complete_front tail"
    and "bs = concat (map encode_frame ms) @ tail" "bs \<noteq> []" "length bs \<le> SYSRECVBUF"
    and "k = min (length ms) (srt_cap q - length (srt_contents q))"
  shows "\<exists>q'. server_OnRecvData (Some (center_hub garbage (Inr q))) clientid (Some bs) =
      Inr (of_nat (length (concat (map encode_frame (take k ms)))), Some (center_hub garbage (Inr q')))
    \<and> srt_inv q' \<and> srt_contents q' = srt_contents q @ map (\<lambda>m. center_msg garbage clientid (fst m)) (take k ms)"
proof -
  have cut: "fst (cut_frames bs) = ms" using cut_frames_encode[OF assms(4,5)] assms(6) by simp
  have ds: "0 < data_size (fst m) \<and> data_size (fst m) < 2 ^ 30" if "m \<in> set ms" for m
  proof -
    have "length (encode_frame m) \<le> length (concat (map encode_frame ms))" using that by (induction ms) auto
    then have "length (snd m) \<le> SYSRECVBUF" using assms(6,8) by (simp add: encode_frame_def)
    then have "length (snd m) < 2 ^ 30" by (simp add: SYSRECVBUF_def)
    then have "int (length (snd m)) < int (2 ^ 30)" by (simp only: of_nat_less_iff)
    then show ?thesis using assms(4) that by (auto simp: frame_ok_def)
  qed
  obtain q' where q': "hub_feed (center_hub garbage (Inr q)) clientid ms = (k, center_hub garbage (Inr q'))" "srt_inv q'"
    "srt_contents q' = srt_contents q @ map (\<lambda>m. center_msg garbage clientid (fst m)) (take k ms)"
    using center_hub_feed[OF assms(1) _ assms(2), of ms garbage clientid] ds assms(9) by auto
  have "length bs < 2 ^ 31" using assms(8) by (simp add: SYSRECVBUF_def)
  from server_OnRecvData_feed[OF assms(3,7) this q'(1)[folded cut]] q'
  show ?thesis unfolding cut frames_len_encode by blast
qed

theorem center_takes_what_fits_witness:
  "\<exists>q q' r. server_OnRecvData (Some (center_hub (\<lambda>n. replicate n 0) (Inr q))) 5 (Some (concat (map encode_frame [frame_a, frame_b]) @ [1, 2]))
      = Inr (r, Some (center_hub (\<lambda>n. replicate n 0) (Inr q')))
    \<and> map am_type (srt_contents q') = [1, 3] \<and> map am_param2 (srt_contents q') = [Some 5, Some 5]"
proof -
  let ?q = "snd (srt_init (srt_new zero kDefaultPageMsgCountBits kDefaultPageIndexBits)) :: atp_message srt_queue"
  let ?bs = "concat (map encode_frame [frame_a, frame_b]) @ [1, 2]"
  have cap: "srt_inv ?q" "srt_contents ?q = []" "srt_cap ?q = (2 ^ 15 - 1) * 2 ^ 16"
    by (simp_all add: srt_inv_init kDefaultPageIndexBits_def kDefaultPageMsgCountBits_def)
  have c: "length (srt_contents ?q) \<le> srt_cap ?q" "(5 :: 32 word) \<noteq> 0" "\<forall>m\<in>set [frame_a, frame_b]. frame_ok m"
    "\<not> complete_front ([1, 2] :: byte list)" "?bs \<noteq> []" "length ?bs \<le> SYSRECVBUF" "2 = min (length [frame_a, frame_b]) (srt_cap ?q - length (srt_contents ?q))"
    using cap by (simp_all add: complete_front_def SYSRECVBUF_def)
  have "\<exists>q'. server_OnRecvData (Some (center_hub (\<lambda>n. replicate n 0) (Inr ?q))) 5 (Some ?bs) =
      Inr (of_nat (length (concat (map encode_frame (take 2 [frame_a, frame_b])))), Some (center_hub (\<lambda>n. replicate n 0) (Inr q')))
    \<and> srt_inv q' \<and> srt_contents q' = srt_contents ?q @ map (\<lambda>m. center_msg (\<lambda>n. replicate n 0) 5 (fst m)) (take 2 [frame_a, frame_b])"
    by (rule center_takes_what_fits[OF cap(1) c(1-4) refl c(5-7)])
  then obtain q' where "server_OnRecvData (Some (center_hub (\<lambda>n. replicate n 0) (Inr ?q))) 5 (Some ?bs) =
      Inr (of_nat (length (concat (map encode_frame (take 2 [frame_a, frame_b])))), Some (center_hub (\<lambda>n. replicate n 0) (Inr q')))"
    "srt_contents q' = map (\<lambda>m. center_msg (\<lambda>n. replicate n 0) 5 (fst m)) (take 2 [frame_a, frame_b])"
    unfolding cap(2) by auto
  moreover from this(2) have "map am_type (srt_contents q') = [1, 3]" "map am_param2 (srt_contents q') = [Some 5, Some 5]"
    by (simp_all add: center_msg_def frame_a_def frame_b_def)
  ultimately show ?thesis by (intro exI[of _ ?q] exI[of _ q'] exI conjI)
qed

end
