(* ===== verification/Trace.thy ===== *)
theory Trace
  imports Prelude
begin

text \<open>
  \<open>trace\<close> (base/src/trace.h, .cpp): the log of the library.  Static members choose the level, the
  sinks and the form of a message; one call is a function of them to the sequence of writes and
  callback calls it makes.  What \<open>vsnprintf\<close> makes of the arguments, the time, the thread and
  \<open>errno\<close> are inputs.  The Linux branch is modelled, and \<open>parseFileName\<close> on the characters of its
  argument.
\<close>

section \<open>Levels and settings\<close>

datatype TRACE_LEVEL =
    TRACE_LEVEL_ALL | TRACE_LEVEL_VERBOSE | TRACE_LEVEL_DEBUG | TRACE_LEVEL_INFO | TRACE_LEVEL_SYSTEM
  | TRACE_LEVEL_WARNING | TRACE_LEVEL_ERROR | TRACE_LEVEL_OFF

fun level_value :: "TRACE_LEVEL \<Rightarrow> int" where
  "level_value TRACE_LEVEL_ALL = 0x0000"
| "level_value TRACE_LEVEL_VERBOSE = 0x0001"
| "level_value TRACE_LEVEL_DEBUG = 0x0002"
| "level_value TRACE_LEVEL_INFO = 0x0004"
| "level_value TRACE_LEVEL_SYSTEM = 0x0008"
| "level_value TRACE_LEVEL_WARNING = 0x0010"
| "level_value TRACE_LEVEL_ERROR = 0x0020"
| "level_value TRACE_LEVEL_OFF = 0x7FFF"

text \<open>The enumeration is ordered by its values, as its comparison with the filter orders it.\<close>

instantiation TRACE_LEVEL :: linorder
begin

definition less_eq_TRACE_LEVEL :: "TRACE_LEVEL \<Rightarrow> TRACE_LEVEL \<Rightarrow> bool" where
  "less_eq_TRACE_LEVEL a b \<longleftrightarrow> level_value a \<le> level_value b"

definition less_TRACE_LEVEL :: "TRACE_LEVEL \<Rightarrow> TRACE_LEVEL \<Rightarrow> bool" where
  "less_TRACE_LEVEL a b \<longleftrightarrow> level_value a < level_value b"

instance
proof
  fix a b :: TRACE_LEVEL
  show "a \<le> b \<Longrightarrow> b \<le> a \<Longrightarrow> a = b" by (cases a; cases b) (simp_all add: less_eq_TRACE_LEVEL_def)
qed (auto simp: less_eq_TRACE_LEVEL_def less_TRACE_LEVEL_def)

end

text \<open>A callback is a function of the user, named by a number.\<close>

record trace =
  tr_callback :: "nat option"
  tr_mo_callback :: "nat option"
  tr_level_filter :: int
  tr_error_string_translator :: "int \<Rightarrow> string"
  tr_enable_std_output :: bool
  tr_use_formated_message :: bool

definition default_error_string_translator :: "int \<Rightarrow> string" where
  "default_error_string_translator error = ''NOT DEFINED''"

definition trace_statics :: trace where
  "trace_statics =
    \<lparr>tr_callback = None, tr_mo_callback = None, tr_level_filter = level_value TRACE_LEVEL_ALL,
     tr_error_string_translator = default_error_string_translator, tr_enable_std_output = True,
     tr_use_formated_message = True\<rparr>"

definition set_trace_callback :: "nat option \<Rightarrow> trace \<Rightarrow> trace" where
  "set_trace_callback callback t = t\<lparr>tr_callback := callback\<rparr>"

definition set_trace_mo_callback :: "nat option \<Rightarrow> trace \<Rightarrow> trace" where
  "set_trace_mo_callback callback t = t\<lparr>tr_mo_callback := callback\<rparr>"

definition set_error_string_translator :: "(int \<Rightarrow> string) option \<Rightarrow> trace \<Rightarrow> trace" where
  "set_error_string_translator translator t =
    (case translator of None \<Rightarrow> t | Some f \<Rightarrow> t\<lparr>tr_error_string_translator := f\<rparr>)"

definition set_trace_level_filter :: "int \<Rightarrow> trace \<Rightarrow> trace" where
  "set_trace_level_filter level t = t\<lparr>tr_level_filter := level\<rparr>"

definition enable_std_output :: "bool \<Rightarrow> trace \<Rightarrow> trace" where
  "enable_std_output enable t = t\<lparr>tr_enable_std_output := enable\<rparr>"

definition use_formated_message :: "bool \<Rightarrow> trace \<Rightarrow> trace" where
  "use_formated_message use t = t\<lparr>tr_use_formated_message := use\<rparr>"

section \<open>Printing\<close>

fun dec_nat :: "nat \<Rightarrow> string" where
  "dec_nat n = (if n < 10 then [''0123456789'' ! n] else dec_nat (n div 10) @ [''0123456789'' ! (n mod 10)])"

declare dec_nat.simps [simp del]

definition dec :: "int \<Rightarrow> string" where
  "dec i = (if i < 0 then ''-'' @ dec_nat (nat (- i)) else dec_nat (nat i))"

text \<open>\<open>%03d\<close>.\<close>

definition dec3 :: "int \<Rightarrow> string" where
  "dec3 i = (let s = dec_nat (nat \<bar>i\<bar>); sign = (if i < 0 then ''-'' else []) in
    sign @ replicate (3 - length s - length sign) (CHR ''0'') @ s)"

text \<open>
  \<open>fprintf\<close> with the string as format and no arguments: \<open>%%\<close> prints a percent sign, and any other
  conversion reads an argument that is not there.
\<close>

fun printf_noargs :: "string \<Rightarrow> string outcome" where
  "printf_noargs [] = Inr []"
| "printf_noargs (c # cs) =
    (if c = CHR ''%'' then
       (case cs of
          [] \<Rightarrow> Inl BadFormat
        | d # ds \<Rightarrow> if d = CHR ''%'' then obind (printf_noargs ds) (\<lambda>s. Inr (CHR ''%'' # s)) else Inl BadFormat)
     else obind (printf_noargs cs) (\<lambda>s. Inr (c # s)))"

section \<open>One call\<close>

datatype trace_event =
    ToStderr string
  | ToStdout string
  | Called nat TRACE_LEVEL string int string

record trace_env =
  te_time :: string \<comment> \<open>what \<open>strftime\<close> writes\<close>
  te_usec :: int
  te_thread :: int
  te_errno :: int
  te_strerror :: "int \<Rightarrow> string"

definition MESSAGE_BUFFER :: nat where "MESSAGE_BUFFER = 4096"

definition FORMATED_MESSAGE_BUFFER :: nat where "FORMATED_MESSAGE_BUFFER = 5120"

fun level_string :: "TRACE_LEVEL \<Rightarrow> string" where
  "level_string TRACE_LEVEL_VERBOSE = ''verbose''"
| "level_string TRACE_LEVEL_DEBUG = ''debug''"
| "level_string TRACE_LEVEL_INFO = ''info''"
| "level_string TRACE_LEVEL_SYSTEM = ''system''"
| "level_string TRACE_LEVEL_WARNING = ''warning''"
| "level_string _ = ''info''"

definition time_buffer :: "trace_env \<Rightarrow> string" where
  "time_buffer env = te_time env @ ''.'' @ dec3 (te_usec env div 1000)"

definition formated_line :: "trace_env \<Rightarrow> trace \<Rightarrow> TRACE_LEVEL \<Rightarrow> string \<Rightarrow> int \<Rightarrow> string \<Rightarrow> string" where
  "formated_line env t level module code buffer =
    (let head = time_buffer env @ '' ('' @ dec (te_thread env) @ '') '' in
     if level = TRACE_LEVEL_ERROR then
       (if te_errno env \<noteq> 0 then
          head @ ''[error] '' @ module @ ''('' @ dec code @ '':'' @ tr_error_string_translator t code @ '', ''
            @ dec (te_errno env) @ '':'' @ te_strerror env (te_errno env) @ ''): '' @ buffer @ [CHR 0x0A]
        else head @ ''[error] '' @ module @ ''('' @ dec code @ '':'' @ tr_error_string_translator t code
            @ ''): '' @ buffer @ [CHR 0x0A])
     else head @ ''['' @ level_string level @ ''] '' @ module @ ''('' @ dec code @ ''): '' @ buffer @ [CHR 0x0A])"

definition trace_calls :: "trace \<Rightarrow> TRACE_LEVEL \<Rightarrow> string \<Rightarrow> int \<Rightarrow> string \<Rightarrow> trace_event list" where
  "trace_calls t level module code msg =
    (case tr_callback t of None \<Rightarrow> [] | Some f \<Rightarrow> [Called f level module code msg])
    @ (case tr_mo_callback t of None \<Rightarrow> [] | Some f \<Rightarrow> [Called f level module code msg])"

text \<open>
  \<open>message\<close> is the format the caller gave, \<open>expanded\<close> what its arguments make of it; \<open>None\<close> is an
  error of \<open>vsnprintf\<close>.  A buffer too small for what \<open>sprintf\<close> or \<open>strcat\<close> put there is a fault.
\<close>

definition trace_add :: "trace_env \<Rightarrow> TRACE_LEVEL \<Rightarrow> string \<Rightarrow> int \<Rightarrow> string \<Rightarrow> string option \<Rightarrow> trace \<Rightarrow>
    trace_event list outcome" where
  "trace_add env level module code message expanded t =
    (if tr_level_filter t > level_value level then Inr []
     else if \<not> tr_enable_std_output t \<and> tr_callback t = None \<and> tr_mo_callback t = None then Inr []
     else case expanded of
       None \<Rightarrow> Inr [ToStderr (''trace buffer out of memory, module:'' @ [CHR 0x27] @ module @ [CHR 0x27]
                 @ '', message:'' @ [CHR 0x27] @ message @ [CHR 0x27, CHR 0x0A])]
     | Some s \<Rightarrow>
         let buffer = take (MESSAGE_BUFFER - 1) s in
         if tr_enable_std_output t \<or> tr_use_formated_message t then
           obind (oassert OutOfBounds (length (time_buffer env) < 128)) (\<lambda>_.
           let line = formated_line env t level module code buffer in
           obind (oassert OutOfBounds (length line < FORMATED_MESSAGE_BUFFER)) (\<lambda>_.
           obind (if tr_enable_std_output t
                  then obind (printf_noargs line) (\<lambda>out.
                    Inr [if level = TRACE_LEVEL_ERROR then ToStderr out else ToStdout out])
                  else Inr []) (\<lambda>std.
             Inr (std @ trace_calls t level module code line))))
         else Inr (trace_calls t level module code buffer))"

section \<open>Where a message goes\<close>

lemma printf_plain: "CHR ''%'' \<notin> set s \<Longrightarrow> printf_noargs s = Inr s"
  by (induction s) auto

lemma printf_conversion:
  assumes "CHR ''%'' \<notin> set a" "c \<noteq> CHR ''%''"
  shows "printf_noargs (a @ CHR ''%'' # c # b) = Inl BadFormat"
  using assms by (induction a) auto


definition demo_env :: trace_env where
  "demo_env = \<lparr>te_time = ''## 2021-05-08 10:00:00'', te_usec = 12345, te_thread = 7, te_errno = 0, te_strerror = (\<lambda>_. [])\<rparr>"

lemma demo_line:
  "formated_line demo_env t TRACE_LEVEL_SYSTEM ''base'' 0 s =
     ''## 2021-05-08 10:00:00.012 (7) [system] base(0): '' @ s @ [CHR 0x0A]"
  "length (time_buffer demo_env) < 128"
  by (simp_all add: formated_line_def Let_def time_buffer_def demo_env_def dec_def dec3_def dec_nat.simps)


lemma formated_line_prefix: "\<exists>pre. \<forall>x. formated_line env t level module code x = pre @ x @ [CHR 0x0A]"
  unfolding formated_line_def Let_def append_assoc[symmetric] by (cases "level = TRACE_LEVEL_ERROR"; cases "te_errno env = 0") auto

text \<open>
  The line is printed as a format.  With the standard output enabled, a message that passes the
  filter and whose text, after its own arguments were put in, still holds a percent sign followed by
  another character than a second one makes \<open>fprintf\<close> read an argument that was never passed.
\<close>

lemma trace_add_percent:
  assumes "tr_enable_std_output t" "tr_level_filter t \<le> level_value level" "length (time_buffer env) < 128"
    and "length s < MESSAGE_BUFFER" "length (formated_line env t level module code s) < FORMATED_MESSAGE_BUFFER"
    and "s = a @ CHR ''%'' # c # b" "c \<noteq> CHR ''%''" "CHR ''%'' \<notin> set (formated_line env t level module code a)"
  shows "trace_add env level module code message (Some s) t = Inl BadFormat"
proof -
  obtain pre where pre: "\<And>x. formated_line env t level module code x = pre @ x @ [CHR 0x0A]"
    using formated_line_prefix by blast
  have "printf_noargs (formated_line env t level module code s) = Inl BadFormat"
    using printf_conversion[OF _ assms(7), of "pre @ a" "b @ [CHR 0x0A]"] assms(6,8) pre by simp
  moreover have "take (MESSAGE_BUFFER - 1) s = s" using assms(4) by (simp add: MESSAGE_BUFFER_def)
  ultimately show ?thesis using assms(1-3,5) by (simp add: trace_add_def Let_def del: One_nat_def)
qed

lemma trace_add_percent_example:
  "trace_add demo_env TRACE_LEVEL_SYSTEM ''base'' 0 ''load %s'' (Some ''load 50% d'') trace_statics = Inl BadFormat"
  by (rule trace_add_percent[where a = "''load 50''" and c = "CHR '' ''" and b = "''d''"])
    (simp_all add: demo_line trace_statics_def MESSAGE_BUFFER_def FORMATED_MESSAGE_BUFFER_def)

section \<open>parseFileName\<close>

definition is_sep :: "char \<Rightarrow> bool" where
  "is_sep c \<longleftrightarrow> c = CHR ''/'' \<or> c = CHR 0x5C"

text \<open>The loop, on the index of \<open>ptr\<close> in the string; the result is the index of what is returned.\<close>

fun parse_loop :: "string \<Rightarrow> nat \<Rightarrow> nat" where
  "parse_loop s 0 = 0"
| "parse_loop s (Suc i) = (if is_sep (s ! Suc i) then Suc i + 1 else parse_loop s i)"

text \<open>On the empty string the pointer starts, and is returned, before the beginning of the array.\<close>

definition parseFileName :: "string \<Rightarrow> string outcome" where
  "parseFileName s =
    obind (oassert OutOfBounds (s \<noteq> [])) (\<lambda>_. Inr (drop (parse_loop s (length s - 1)) s))"

definition last_part :: "string \<Rightarrow> string" where
  "last_part s = rev (takeWhile (\<lambda>c. \<not> is_sep c) (rev s))"

lemma parse_loop_last:
  "i \<le> length cs \<Longrightarrow> drop (parse_loop (c # cs) i) (c # take i cs) =
    (if \<exists>x\<in>set (take i cs). is_sep x then last_part (take i cs) else c # take i cs)"
proof (induction i)
  case 0
  then show ?case by simp
next
  case (Suc i)
  then have t: "take (Suc i) cs = take i cs @ [cs ! i]" "length (take i cs) = i" by (simp_all add: take_Suc_conv_app_nth)
  have le: "parse_loop (c # cs) i \<le> Suc i" by (induction i) auto
  show ?case
  proof (cases "is_sep (cs ! i)")
    case True
    then show ?thesis using t by (simp add: last_part_def)
  next
    case False
    have "drop (parse_loop (c # cs) (Suc i)) (c # take (Suc i) cs) = drop (parse_loop (c # cs) i) (c # take i cs) @ [cs ! i]"
      using False t le by (simp add: drop_append[of _ "c # take i cs", simplified])
    also have "\<dots> = (if \<exists>x\<in>set (take i cs). is_sep x then last_part (take i cs) else c # take i cs) @ [cs ! i]"
      using Suc by simp
    also have "\<dots> = (if \<exists>x\<in>set (take (Suc i) cs). is_sep x then last_part (take (Suc i) cs) else c # take (Suc i) cs)"
      unfolding t(1) using False by (auto simp: last_part_def takeWhile_append)
    finally show ?thesis .
  qed
qed

text \<open>
  C40: \<open>parseFileName\<close> of a string that is not empty is the part after its last slash or backslash,
  looking only from the second character on: a separator in first place is not seen, so that a
  file in the root directory keeps it.  On the empty string the pointer leaves the array.
\<close>

theorem parseFileName_last_part:
  "parseFileName (c # cs) = Inr (if \<exists>x\<in>set cs. is_sep x then last_part cs else c # cs)
    \<and> parseFileName [] = Inl OutOfBounds"
  using parse_loop_last[of "length cs" cs c] by (simp_all add: parseFileName_def)

end
