(* ===== verification/Micro_Buffer.thy ===== *)
theory Micro_Buffer
  imports Prelude
begin

text \<open>
  \<open>micro_buffer\<close> (base/src/tcp_common/micro_buffer.h, .cpp): a buffer one thread fills and one
  empties through its read and write positions; when the read position passes the middle, what is
  unread is moved to the front.  The pointers the methods return are offsets.  Positions are 64-bit
  words.
\<close>

record micro_buffer =
  mb_read_pos :: "64 word"
  mb_write_pos :: "64 word"
  mb_total_size :: "64 word"
  mb_buf :: "byte arr option"

definition micro_buffer_new :: "64 word \<Rightarrow> micro_buffer outcome" where
  "micro_buffer_new len =
    obind (oassert BadAlloc (unat len < 2 ^ 63)) (\<lambda>_.
      Inr \<lparr>mb_read_pos = 0, mb_write_pos = 0, mb_total_size = len, mb_buf = Some (\<lambda>_. 0)\<rparr>)"

definition mb_clear :: "micro_buffer \<Rightarrow> micro_buffer" where
  "mb_clear m = (if mb_buf m \<noteq> None then m\<lparr>mb_buf := None\<rparr> else m)"

definition micro_buffer_delete :: "micro_buffer \<Rightarrow> micro_buffer" where
  "micro_buffer_delete m = mb_clear m"

definition mb_enable_write :: "micro_buffer \<Rightarrow> 64 word" where
  "mb_enable_write m = mb_total_size m - mb_write_pos m"

definition mb_has_write :: "64 word \<Rightarrow> micro_buffer \<Rightarrow> micro_buffer" where
  "mb_has_write len m = m\<lparr>mb_write_pos := mb_write_pos m + len\<rparr>"

definition mb_enable_read :: "micro_buffer \<Rightarrow> 64 word" where
  "mb_enable_read m = mb_write_pos m - mb_read_pos m"

text \<open>\<open>memcpy\<close> takes the difference of the positions as a \<open>size_t\<close>.\<close>

definition mb_has_read :: "64 word \<Rightarrow> micro_buffer \<Rightarrow> micro_buffer outcome" where
  "mb_has_read len m =
    (let m1 = m\<lparr>mb_read_pos := mb_read_pos m + len\<rparr> in
     if mb_read_pos m1 \<ge> mb_total_size m1 div 2 then
       let r = unat (mb_read_pos m1); k = unat (mb_write_pos m1 - mb_read_pos m1) in
       case mb_buf m1 of
         None \<Rightarrow> Inl NullDeref
       | Some b \<Rightarrow>
           obind (oassert OutOfBounds (r + k \<le> unat (mb_total_size m1))) (\<lambda>_.
           obind (oassert MemcpyOverlap (memcpy_ok 0 r k)) (\<lambda>_.
             Inr (m1\<lparr>mb_buf := Some (mem_copy b 0 r k), mb_write_pos := mb_write_pos m1 - mb_read_pos m1, mb_read_pos := 0\<rparr>)))
     else Inr m1)"

text \<open>A user who stores bytes at \<open>write_pos()\<close> and reports them, and one who looks at \<open>read_pos()\<close>.\<close>

definition mb_store :: "byte list \<Rightarrow> micro_buffer \<Rightarrow> micro_buffer outcome" where
  "mb_store bs m =
    (case mb_buf m of
       None \<Rightarrow> Inl NullDeref
     | Some b \<Rightarrow>
         obind (oassert OutOfBounds (unat (mb_write_pos m) + length bs \<le> unat (mb_total_size m))) (\<lambda>_.
           Inr (mb_has_write (of_nat (length bs)) (m\<lparr>mb_buf := Some (mem_write b (unat (mb_write_pos m)) bs)\<rparr>))))"

section \<open>The stream\<close>

definition mb_inv :: "micro_buffer \<Rightarrow> bool" where
  "mb_inv m \<longleftrightarrow> mb_buf m \<noteq> None \<and> unat (mb_read_pos m) \<le> unat (mb_write_pos m) \<and> unat (mb_write_pos m) \<le> unat (mb_total_size m)
     \<and> unat (mb_total_size m) < 2 ^ 63"

definition mb_unread :: "micro_buffer \<Rightarrow> byte list" where
  "mb_unread m = (case mb_buf m of None \<Rightarrow> [] | Some b \<Rightarrow>
     mem_read b (unat (mb_read_pos m)) (unat (mb_write_pos m) - unat (mb_read_pos m)))"

lemma mb_sub: "unat r \<le> unat w \<Longrightarrow> unat (w - r) = unat w - unat r" for r w :: "64 word"
  by (subst unat_sub) (simp_all add: word_le_nat_alt)

lemma mb_add: "unat w + n \<le> unat t \<Longrightarrow> unat (w + of_nat n) = unat w + n" for w t :: "64 word"
proof -
  assume le: "unat w + n \<le> unat t"
  have "unat t < 2 ^ 64" using unsigned_less[of t] by simp
  then have "n < 2 ^ 64" "unat w + n < 2 ^ 64" using le by linarith+
  then show ?thesis by (simp add: unat_add_small unat_of_nat_small)
qed

lemma mb_inv_new: "unat len < 2 ^ 63 \<Longrightarrow> \<exists>m. micro_buffer_new len = Inr m \<and> mb_inv m \<and> mb_unread m = [] \<and> mb_total_size m = len"
  by (simp add: micro_buffer_new_def mb_inv_def mb_unread_def)

lemma mb_store_appends:
  assumes inv: "mb_inv m" and bs: "length bs \<le> unat (mb_enable_write m)"
  shows "\<exists>m'. mb_store bs m = Inr m' \<and> mb_inv m' \<and> mb_unread m' = mb_unread m @ bs \<and> mb_total_size m' = mb_total_size m"
proof -
  let ?r = "unat (mb_read_pos m)" and ?w = "unat (mb_write_pos m)"
  obtain b where b: "mb_buf m = Some b" using inv by (auto simp: mb_inv_def)
  have le: "?r \<le> ?w" "?w + length bs \<le> unat (mb_total_size m)"
    using inv bs mb_sub[of "mb_write_pos m" "mb_total_size m"] by (auto simp: mb_inv_def mb_enable_write_def)
  note w = mb_add[OF le(2)]
  have "mem_read (mem_write b ?w bs) ?r (?w + length bs - ?r) = mem_read b ?r (?w - ?r) @ bs"
    using mem_read_write_after[OF le(1), of b bs] le(1) by simp
  then show ?thesis
    using inv b le w by (simp add: mb_store_def mb_has_write_def mb_inv_def mb_unread_def)
qed

text \<open>Half of an even size is enough room to move what is unread; for an odd size it may be one short.\<close>

lemma mb_has_read_drops:
  assumes inv: "mb_inv m" and ev: "even (unat (mb_total_size m))" and k: "k \<le> length (mb_unread m)"
  shows "\<exists>m'. mb_has_read (of_nat k) m = Inr m' \<and> mb_inv m' \<and> mb_unread m' = drop k (mb_unread m) \<and> mb_total_size m' = mb_total_size m"
proof -
  let ?r = "unat (mb_read_pos m)" and ?w = "unat (mb_write_pos m)" and ?t = "unat (mb_total_size m)"
  obtain b where b: "mb_buf m = Some b" using inv by (auto simp: mb_inv_def)
  have le: "?r \<le> ?w" "?w \<le> ?t" "?t < 2 ^ 63" using inv by (simp_all add: mb_inv_def)
  have k': "?r + k \<le> ?w" using k b le by (simp add: mb_unread_def)
  define r1 where "r1 = mb_read_pos m + of_nat k"
  have r1: "unat r1 = ?r + k" unfolding r1_def by (rule mb_add[OF k'])
  have wr: "unat (mb_write_pos m - r1) = ?w - unat r1" by (rule mb_sub) (use r1 k' in simp)
  have half: "mb_total_size m div 2 \<le> r1 \<longleftrightarrow> ?t div 2 \<le> unat r1" by (simp add: word_le_nat_alt unat_div)
  have un: "mb_unread m = mem_read b ?r (?w - ?r)" using b by (simp add: mb_unread_def)
  have dr: "drop k (mb_unread m) = mem_read b (unat r1) (?w - unat r1)"
    using un r1 by (simp add: drop_mem_read)
  show ?thesis
  proof (cases "?t div 2 \<le> unat r1")
    case True
    then have ok: "memcpy_ok 0 (unat r1) (?w - unat r1)" using le(2) ev by (auto simp: memcpy_ok_def elim!: evenE)
    have "mem_read (mem_copy b 0 (unat r1) (?w - unat r1)) 0 (?w - unat r1) = mem_read b (unat r1) (?w - unat r1)"
      by (rule mem_read_copy)
    then show ?thesis
      using True half b wr ok le k' r1 dr
      by (simp add: mb_has_read_def r1_def[symmetric] Let_def mb_inv_def mb_unread_def)
  next
    case False
    then show ?thesis using half b le k' r1 dr
      by (simp add: mb_has_read_def r1_def[symmetric] Let_def mb_inv_def mb_unread_def)
  qed
qed

section \<open>Any use of the buffer\<close>

datatype mb_op = MbStore "byte list" | MbRead nat

fun mb_exec :: "mb_op list \<Rightarrow> micro_buffer \<Rightarrow> micro_buffer outcome" where
  "mb_exec [] m = Inr m"
| "mb_exec (MbStore bs # ops) m = obind (mb_store bs m) (mb_exec ops)"
| "mb_exec (MbRead k # ops) m = obind (mb_has_read (of_nat k) m) (mb_exec ops)"

text \<open>The abstract buffer is a list of bytes: stores append to it, reads drop from its front.\<close>

fun mb_list :: "mb_op list \<Rightarrow> byte list \<Rightarrow> byte list" where
  "mb_list [] l = l"
| "mb_list (MbStore bs # ops) l = mb_list ops (l @ bs)"
| "mb_list (MbRead k # ops) l = mb_list ops (drop k l)"

text \<open>Each store fits \<open>enable_write()\<close> and each read \<open>enable_read()\<close> at its time.\<close>

fun mb_used :: "mb_op list \<Rightarrow> micro_buffer \<Rightarrow> bool" where
  "mb_used [] m = True"
| "mb_used (MbStore bs # ops) m \<longleftrightarrow> length bs \<le> unat (mb_enable_write m)
     \<and> (case mb_store bs m of Inl e \<Rightarrow> True | Inr m' \<Rightarrow> mb_used ops m')"
| "mb_used (MbRead k # ops) m \<longleftrightarrow> k \<le> unat (mb_enable_read m)
     \<and> (case mb_has_read (of_nat k) m of Inl e \<Rightarrow> True | Inr m' \<Rightarrow> mb_used ops m')"

lemma mb_exec_refines:
  assumes "mb_inv m" "even (unat (mb_total_size m))" "mb_used ops m"
  shows "\<exists>m'. mb_exec ops m = Inr m' \<and> mb_inv m' \<and> mb_unread m' = mb_list ops (mb_unread m)"
  using assms
proof (induction ops arbitrary: m)
  case Nil
  then show ?case by simp
next
  case (Cons op ops)
  show ?case
  proof (cases op)
    case (MbStore bs)
    then show ?thesis using Cons mb_store_appends[of m bs] by fastforce
  next
    case (MbRead k)
    have "length (mb_unread m) = unat (mb_enable_read m)"
      using Cons.prems(1) mb_sub[of "mb_read_pos m" "mb_write_pos m"] by (auto simp: mb_inv_def mb_unread_def mb_enable_read_def)
    then show ?thesis using Cons MbRead mb_has_read_drops[of m k] by fastforce
  qed
qed

text \<open>
  A \<open>micro_buffer\<close> of even size refines a list of bytes.  Whatever sequence of stores and reads
  stays within what \<open>enable_write\<close> and \<open>enable_read\<close> allow, no access leaves the array, the \<open>memcpy\<close>
  that moves the unread bytes never overlaps, and the bytes to read are those stored and not yet
  read, in order.
\<close>

lemma micro_buffer_refines_list:
  assumes "micro_buffer_new len = Inr m" "even (unat len)" "mb_used ops m"
  shows "\<exists>m'. mb_exec ops m = Inr m' \<and> mb_unread m' = mb_list ops []"
proof -
  have "unat len < 2 ^ 63" using assms(1) by (auto simp: micro_buffer_new_def obind_eq_Inr oassert_def split: if_splits)
  from mb_inv_new[OF this] assms(1) have "mb_inv m" "mb_unread m = []" "mb_total_size m = len" by auto
  then show ?thesis using mb_exec_refines[of m ops] assms(2,3) by auto
qed

lemma micro_buffer_refines_list_example:
  "\<exists>m m'. micro_buffer_new 4 = Inr m \<and> mb_exec [MbStore [1, 2, 3], MbRead 2, MbStore [4, 5]] m = Inr m' \<and> mb_unread m' = [3, 4, 5]"
proof -
  obtain m where m: "micro_buffer_new 4 = Inr m" by (simp add: micro_buffer_new_def)
  have "mb_used [MbStore [1, 2, 3], MbRead 2, MbStore [4, 5]] m"
    using m by (auto simp: micro_buffer_new_def mb_store_def mb_has_write_def mb_has_read_def mb_enable_write_def
        mb_enable_read_def memcpy_ok_def Let_def oassert_def word_le_nat_alt)
  from micro_buffer_refines_list[OF m _ this] m show ?thesis by auto
qed

text \<open>With an odd size a full buffer of which half is read is moved by an overlapping \<open>memcpy\<close>.\<close>

lemma micro_buffer_odd_overlaps:
  "\<exists>m. micro_buffer_new 3 = Inr m \<and> mb_used [MbStore [1, 2, 3], MbRead 1] m
     \<and> mb_exec [MbStore [1, 2, 3], MbRead 1] m = Inl MemcpyOverlap"
  by (simp add: micro_buffer_new_def mb_store_def mb_has_write_def mb_has_read_def mb_enable_write_def
        mb_enable_read_def memcpy_ok_def Let_def oassert_def word_le_nat_alt unat_div)

end
