(* ===== verification/Send_Cell.thy ===== *)
theory Send_Cell
  imports Prelude
begin

text \<open>
  \<open>send_cell\<close> (base/src/tcp_common/send_cell.h, .cpp): a ring of packages to send, each a header and
  its payload, that one thread reads piece by piece.  No file of the repository defines the constants,
  the package header and the error codes it uses, nor is it used: they are parameters here, the
  header by its bytes.  Positions are 64-bit counters, reduced modulo the size of the ring at each
  use; the constructor leaves the slots unassigned.
\<close>

record send_cell_consts =
  sendCellSize :: nat
  sendCellUnitSize :: int
  sendCellUnitSingleSize :: int
  CROSS_PLATFORM_AT_S_OK :: int
  CROSS_PLATFORM_AT_E_TCP_SERVER_WRITE_CACHE_FULL :: int

record send_cell_unit =
  su_ptr :: "byte arr option"
  su_size :: int
  su_sendPos :: int
  su_bufSize :: int
  su_enableRead :: int

text \<open>A slot that was never written, a null pointer, or a unit, which belongs to its slot alone.\<close>

datatype scu_slot = ScuGarbage | ScuNull | Scu send_cell_unit

record send_cell =
  sl_scu_ptr :: "scu_slot arr"
  sl_read_pos :: "64 word"
  sl_write_pos :: "64 word"

definition send_cell_unit_new :: "send_cell_consts \<Rightarrow> send_cell_unit" where
  "send_cell_unit_new K =
    \<lparr>su_ptr = None, su_size = 0, su_sendPos = 0, su_bufSize = sendCellUnitSize K, su_enableRead = 0\<rparr>"

definition send_cell_new :: "send_cell" where
  "send_cell_new = \<lparr>sl_scu_ptr = (\<lambda>_. ScuGarbage), sl_read_pos = 0, sl_write_pos = 0\<rparr>"

definition sl_rpos :: "send_cell_consts \<Rightarrow> send_cell \<Rightarrow> nat" where
  "sl_rpos K c = unat (sl_read_pos c) mod sendCellSize K"

definition sl_wpos :: "send_cell_consts \<Rightarrow> send_cell \<Rightarrow> nat" where
  "sl_wpos K c = unat (sl_write_pos c) mod sendCellSize K"

definition sl_is_empty :: "send_cell_consts \<Rightarrow> send_cell \<Rightarrow> bool" where
  "sl_is_empty K c \<longleftrightarrow> sl_wpos K c = sl_rpos K c"

definition sl_is_full :: "send_cell_consts \<Rightarrow> send_cell \<Rightarrow> bool" where
  "sl_is_full K c \<longleftrightarrow> unat (sl_write_pos c + 1) mod sendCellSize K = sl_rpos K c"

text \<open>\<open>head\<close> are the bytes of the header, \<open>sz\<close> its member \<open>size\<close>, \<open>fresh\<close> the array \<open>new\<close> delivers.\<close>

definition write_chche :: "send_cell_consts \<Rightarrow> byte arr \<Rightarrow> byte list \<Rightarrow> int \<Rightarrow> byte list \<Rightarrow> send_cell \<Rightarrow>
    (int \<times> send_cell) outcome" where
  "write_chche K fresh head sz ptr c =
    (if sl_is_full K c then Inr (CROSS_PLATFORM_AT_E_TCP_SERVER_WRITE_CACHE_FULL K, c)
     else
       obind (oassert DivByZero (sendCellUnitSingleSize K \<noteq> 0)) (\<lambda>_.
       let hl = int (length head);
           bs = ((hl + sz) div sendCellUnitSingleSize K + 1) * sendCellUnitSingleSize K
       in obind (oassert BadAlloc (0 \<le> bs)) (\<lambda>_.
       obind (oassert OutOfBounds (0 \<le> sz \<and> sz \<le> int (length ptr) \<and> hl + sz \<le> bs)) (\<lambda>_.
       let mem = mem_write (mem_write fresh 0 head) (length head) (take (nat sz) ptr);
           u = (send_cell_unit_new K)\<lparr>su_bufSize := bs, su_ptr := Some mem, su_sendPos := 0, su_size := hl + sz, su_enableRead := 1\<rparr>
       in Inr (CROSS_PLATFORM_AT_S_OK K,
               c\<lparr>sl_write_pos := sl_write_pos c + 1, sl_scu_ptr := (sl_scu_ptr c)(sl_wpos K c := Scu u)\<rparr>)))))"

definition sl_enable_read :: "send_cell_consts \<Rightarrow> send_cell \<Rightarrow> bool outcome" where
  "sl_enable_read K c =
    (if sl_wpos K c = sl_rpos K c then Inr False
     else case sl_scu_ptr c (sl_rpos K c) of
       ScuGarbage \<Rightarrow> Inl Uninitialised
     | ScuNull \<Rightarrow> Inr False
     | Scu u \<Rightarrow> Inr (su_enableRead u \<noteq> 0))"

text \<open>
  The unit the next two methods use once \<open>enable_read\<close> has said yes.  \<open>read_chche\<close> returns a pointer; we
  return what can be read there, \<open>read_enable_len\<close> bytes.
\<close>

definition sl_unit :: "send_cell_consts \<Rightarrow> send_cell \<Rightarrow> send_cell_unit outcome" where
  "sl_unit K c =
    (case sl_scu_ptr c (sl_rpos K c) of ScuGarbage \<Rightarrow> Inl Uninitialised | ScuNull \<Rightarrow> Inl NullDeref | Scu u \<Rightarrow> Inr u)"

definition read_enable_len :: "send_cell_consts \<Rightarrow> send_cell \<Rightarrow> int outcome" where
  "read_enable_len K c =
    obind (sl_enable_read K c) (\<lambda>en.
      if \<not> en then Inr 0 else obind (sl_unit K c) (\<lambda>u. Inr (su_size u - su_sendPos u)))"

definition read_chche :: "send_cell_consts \<Rightarrow> send_cell \<Rightarrow> byte list option outcome" where
  "read_chche K c =
    obind (sl_enable_read K c) (\<lambda>en.
      if \<not> en then Inr None
      else obind (sl_unit K c) (\<lambda>u.
        case su_ptr u of
          None \<Rightarrow> Inl NullDeref
        | Some mem \<Rightarrow> Inr (Some (mem_read mem (nat (su_sendPos u)) (nat (su_size u - su_sendPos u))))))"

definition sl_has_read :: "send_cell_consts \<Rightarrow> nat \<Rightarrow> send_cell \<Rightarrow> send_cell outcome" where
  "sl_has_read K len c =
    obind (sl_unit K c) (\<lambda>u.
      let u1 = u\<lparr>su_sendPos := su_sendPos u + int len\<rparr> in
      if su_size u1 \<le> su_sendPos u1
      then Inr (c\<lparr>sl_read_pos := sl_read_pos c + 1, sl_scu_ptr := (sl_scu_ptr c)(sl_rpos K c := ScuNull)\<rparr>)
      else Inr (c\<lparr>sl_scu_ptr := (sl_scu_ptr c)(sl_rpos K c := Scu u1)\<rparr>))"

text \<open>
  The loop of \<open>clear\<close>.  A round that meets a null slot changes nothing, so that the loop never ends;
  after as many rounds as there are slots every slot is null.
\<close>

fun sl_clear_loop :: "nat \<Rightarrow> send_cell_consts \<Rightarrow> send_cell \<Rightarrow> send_cell outcome" where
  "sl_clear_loop n K c =
    (if sl_is_empty K c then Inr c
     else case sl_scu_ptr c (sl_rpos K c) of
       ScuGarbage \<Rightarrow> Inl Uninitialised
     | ScuNull \<Rightarrow> Inl Diverges
     | Scu u \<Rightarrow>
         (case n of
            0 \<Rightarrow> Inl Diverges
          | Suc m \<Rightarrow> sl_clear_loop m K (c\<lparr>sl_read_pos := sl_read_pos c + 1,
              sl_scu_ptr := (sl_scu_ptr c)(sl_rpos K c := ScuNull)\<rparr>)))"

declare sl_clear_loop.simps [simp del]

definition sl_clear :: "send_cell_consts \<Rightarrow> send_cell \<Rightarrow> send_cell outcome" where
  "sl_clear K c = sl_clear_loop (sendCellSize K) K c"

definition send_cell_delete :: "send_cell_consts \<Rightarrow> send_cell \<Rightarrow> send_cell outcome" where
  "send_cell_delete K c = sl_clear K c"

section \<open>A ring of packages\<close>

definition su_unread :: "scu_slot \<Rightarrow> byte list" where
  "su_unread s = (case s of Scu u \<Rightarrow> (case su_ptr u of None \<Rightarrow> []
     | Some mem \<Rightarrow> mem_read mem (nat (su_sendPos u)) (nat (su_size u - su_sendPos u))) | _ \<Rightarrow> [])"

definition su_ok :: "scu_slot \<Rightarrow> bool" where
  "su_ok s \<longleftrightarrow> (\<exists>u. s = Scu u \<and> su_ptr u \<noteq> None \<and> 0 \<le> su_sendPos u \<and> su_sendPos u \<le> su_size u
     \<and> su_size u \<le> su_bufSize u \<and> su_enableRead u = 1)"

definition sl_slots :: "send_cell_consts \<Rightarrow> send_cell \<Rightarrow> scu_slot list" where
  "sl_slots K c = ring_list (sl_scu_ptr c) (sendCellSize K) (sl_rpos K c) (sl_wpos K c)"

definition sl_contents :: "send_cell_consts \<Rightarrow> send_cell \<Rightarrow> byte list list" where
  "sl_contents K c = map su_unread (sl_slots K c)"

text \<open>The size of the ring has to divide the range of the counters.\<close>

definition consts_ok :: "send_cell_consts \<Rightarrow> bool" where
  "consts_ok K \<longleftrightarrow> 0 < sendCellSize K \<and> sendCellSize K dvd 2 ^ 64 \<and> 0 < sendCellUnitSingleSize K"

definition sl_inv :: "send_cell_consts \<Rightarrow> send_cell \<Rightarrow> bool" where
  "sl_inv K c \<longleftrightarrow> consts_ok K \<and> (\<forall>s\<in>set (sl_slots K c). su_ok s)"

lemma unat_next_mod:
  assumes "consts_ok K"
  shows "unat (p + 1 :: 64 word) mod sendCellSize K = (unat p mod sendCellSize K + 1) mod sendCellSize K"
proof -
  have "unat (p + 1) = (unat p + 1) mod 2 ^ 64" by (simp add: unat_word_ariths)
  then show ?thesis using assms by (simp only: consts_ok_def mod_mod_cancel mod_add_left_eq)
qed

lemma sl_pos_range: "consts_ok K \<Longrightarrow> sl_rpos K c < sendCellSize K" "consts_ok K \<Longrightarrow> sl_wpos K c < sendCellSize K"
  by (simp_all add: sl_rpos_def sl_wpos_def consts_ok_def)

lemma sl_inv_new: "consts_ok K \<Longrightarrow> sl_inv K send_cell_new \<and> sl_contents K send_cell_new = []"
  by (simp add: sl_inv_def sl_contents_def sl_slots_def send_cell_new_def sl_rpos_def sl_wpos_def ring_list_def ring_len_def)

text \<open>A write to a ring that is not full appends the package; a full one refuses it.\<close>

lemma write_chche_appends:
  assumes inv: "sl_inv K c" and sz: "0 \<le> sz" "sz \<le> int (length ptr)"
  shows "if sl_is_full K c then write_chche K fresh head sz ptr c = Inr (CROSS_PLATFORM_AT_E_TCP_SERVER_WRITE_CACHE_FULL K, c)
    else \<exists>c'. write_chche K fresh head sz ptr c = Inr (CROSS_PLATFORM_AT_S_OK K, c') \<and> sl_inv K c'
      \<and> sl_contents K c' = sl_contents K c @ [head @ take (nat sz) ptr]"
proof (cases "sl_is_full K c")
  case True
  then show ?thesis by (simp add: write_chche_def)
next
  case False
  have K: "consts_ok K" using inv by (simp add: sl_inv_def)
  let ?s = "sendCellUnitSingleSize K" and ?hl = "int (length head)" and ?N = "sendCellSize K"
  let ?bs = "((?hl + sz) div ?s + 1) * ?s"
  have s: "0 < ?s" using K by (simp add: consts_ok_def)
  have "?hl + sz = (?hl + sz) div ?s * ?s + (?hl + sz) mod ?s" by simp
  moreover have "(?hl + sz) mod ?s < ?s" using s by simp
  ultimately have "?hl + sz < (?hl + sz) div ?s * ?s + ?s" by linarith
  then have bs: "?hl + sz \<le> ?bs" by (simp add: distrib_right)
  let ?mem = "mem_write (mem_write fresh 0 head) (length head) (take (nat sz) ptr)"
  let ?u = "(send_cell_unit_new K)\<lparr>su_bufSize := ?bs, su_ptr := Some ?mem, su_sendPos := 0, su_size := ?hl + sz, su_enableRead := 1\<rparr>"
  let ?c' = "c\<lparr>sl_write_pos := sl_write_pos c + 1, sl_scu_ptr := (sl_scu_ptr c)(sl_wpos K c := Scu ?u)\<rparr>"
  have w: "write_chche K fresh head sz ptr c = Inr (CROSS_PLATFORM_AT_S_OK K, ?c')"
    using False s sz bs by (simp add: write_chche_def Let_def)
  have n: "nat (?hl + sz) = length head + length (take (nat sz) ptr)" using sz by simp
  have "mem_read ?mem 0 (nat (?hl + sz)) = head @ take (nat sz) ptr"
    unfolding n using mem_read_write_after[of 0 "length head" "mem_write fresh 0 head" "take (nat sz) ptr"] by simp
  then have un: "su_unread (Scu ?u) = head @ take (nat sz) ptr" by (simp add: su_unread_def)
  have "(sl_wpos K c + 1) mod ?N \<noteq> sl_rpos K c"
    using False unat_next_mod[OF K] by (simp add: sl_is_full_def sl_wpos_def)
  from ring_list_push[OF sl_pos_range[OF K] this]
  have sl: "sl_slots K ?c' = sl_slots K c @ [Scu ?u]"
    using unat_next_mod[OF K, of "sl_write_pos c"] by (simp add: sl_slots_def sl_rpos_def sl_wpos_def)
  have "su_ok (Scu ?u)" using sz bs by (simp add: su_ok_def)
  then have "sl_inv K ?c'" using inv sl by (auto simp: sl_inv_def)
  moreover have "sl_contents K ?c' = sl_contents K c @ [head @ take (nat sz) ptr]" using sl un by (simp add: sl_contents_def)
  ultimately show ?thesis using False w by auto
qed

lemma sl_empty_iff: "sl_inv K c \<Longrightarrow> sl_is_empty K c \<longleftrightarrow> sl_contents K c = []"
  by (auto simp: sl_is_empty_def sl_contents_def sl_slots_def sl_inv_def ring_list_eq_Nil sl_pos_range)

text \<open>The first slot of a ring with contents, and the ring without it.\<close>

lemma sl_first:
  assumes inv: "sl_inv K c" and ne: "\<not> sl_is_empty K c"
  shows "\<exists>u. sl_scu_ptr c (sl_rpos K c) = Scu u \<and> su_ok (Scu u)
    \<and> sl_contents K c = su_unread (Scu u) # sl_contents K (c\<lparr>sl_read_pos := sl_read_pos c + 1\<rparr>)
    \<and> sl_slots K (c\<lparr>sl_read_pos := sl_read_pos c + 1, sl_scu_ptr := (sl_scu_ptr c)(sl_rpos K c := x)\<rparr>)
        = sl_slots K (c\<lparr>sl_read_pos := sl_read_pos c + 1\<rparr>)
    \<and> sl_slots K (c\<lparr>sl_scu_ptr := (sl_scu_ptr c)(sl_rpos K c := x)\<rparr>) = x # sl_slots K (c\<lparr>sl_read_pos := sl_read_pos c + 1\<rparr>)
    \<and> sl_inv K (c\<lparr>sl_read_pos := sl_read_pos c + 1\<rparr>)"
proof -
  have K: "consts_ok K" using inv by (simp add: sl_inv_def)
  let ?N = "sendCellSize K" and ?f = "sl_rpos K c" and ?r = "sl_wpos K c" and ?a = "sl_scu_ptr c"
  have fr: "?f \<noteq> ?r" using ne by (simp add: sl_is_empty_def)
  note pop = ring_list_pop[OF sl_pos_range[OF K] fr]
  have nx: "unat (sl_read_pos c + 1) mod ?N = (?f + 1) mod ?N" using unat_next_mod[OF K, of "sl_read_pos c"] by (simp add: sl_rpos_def)
  have sl: "sl_slots K c = ?a ?f # sl_slots K (c\<lparr>sl_read_pos := sl_read_pos c + 1\<rparr>)"
    using pop[of ?a] nx by (simp add: sl_slots_def sl_rpos_def sl_wpos_def)
  then obtain u where u: "?a ?f = Scu u" "su_ok (Scu u)" using inv by (auto simp: sl_inv_def su_ok_def)
  have "sl_slots K (c\<lparr>sl_read_pos := sl_read_pos c + 1, sl_scu_ptr := ?a(?f := x)\<rparr>) = sl_slots K (c\<lparr>sl_read_pos := sl_read_pos c + 1\<rparr>)"
    using ring_list_upd_released[OF sl_pos_range[OF K] fr, of ?a x] nx by (simp add: sl_slots_def sl_rpos_def sl_wpos_def)
  moreover from this have "sl_slots K (c\<lparr>sl_scu_ptr := ?a(?f := x)\<rparr>) = x # sl_slots K (c\<lparr>sl_read_pos := sl_read_pos c + 1\<rparr>)"
    using pop[of "?a(?f := x)"] nx by (simp add: sl_slots_def sl_rpos_def sl_wpos_def)
  ultimately show ?thesis using u sl inv by (auto simp: sl_contents_def sl_inv_def)
qed

text \<open>The reader sees the front package from where it stopped, and takes bytes off it.\<close>

lemma read_chche_front:
  assumes "sl_inv K c"
  shows "read_chche K c = Inr (case sl_contents K c of [] \<Rightarrow> None | x # xs \<Rightarrow> Some x)"
    "read_enable_len K c = Inr (case sl_contents K c of [] \<Rightarrow> 0 | x # xs \<Rightarrow> int (length x))"
proof -
  have "read_chche K c = Inr (case sl_contents K c of [] \<Rightarrow> None | x # xs \<Rightarrow> Some x)
    \<and> read_enable_len K c = Inr (case sl_contents K c of [] \<Rightarrow> 0 | x # xs \<Rightarrow> int (length x))"
  proof (cases "sl_is_empty K c")
    case True
    moreover from True have "sl_contents K c = []" using sl_empty_iff[OF assms] by simp
    ultimately show ?thesis by (simp add: read_chche_def read_enable_len_def sl_enable_read_def sl_is_empty_def)
  next
    case False
    obtain u where "sl_scu_ptr c (sl_rpos K c) = Scu u" "su_ok (Scu u)"
      "sl_contents K c = su_unread (Scu u) # sl_contents K (c\<lparr>sl_read_pos := sl_read_pos c + 1\<rparr>)"
      using sl_first[OF assms False] by blast
    then show ?thesis using False
      by (auto simp: read_chche_def read_enable_len_def sl_enable_read_def sl_is_empty_def sl_unit_def su_ok_def su_unread_def)
  qed
  then show "read_chche K c = Inr (case sl_contents K c of [] \<Rightarrow> None | x # xs \<Rightarrow> Some x)"
    "read_enable_len K c = Inr (case sl_contents K c of [] \<Rightarrow> 0 | x # xs \<Rightarrow> int (length x))" by auto
qed

lemma sl_has_read_takes:
  assumes inv: "sl_inv K c" and x: "sl_contents K c = x # xs" and k: "k \<le> length x"
  shows "\<exists>c'. sl_has_read K k c = Inr c' \<and> sl_inv K c' \<and> sl_contents K c' = (if k = length x then xs else drop k x # xs)"
proof -
  have ne: "\<not> sl_is_empty K c" using sl_empty_iff[OF inv] x by simp
  from sl_first[OF inv ne] obtain u where u: "sl_scu_ptr c (sl_rpos K c) = Scu u" "su_ok (Scu u)"
    "sl_contents K c = su_unread (Scu u) # sl_contents K (c\<lparr>sl_read_pos := sl_read_pos c + 1\<rparr>)"
    "sl_inv K (c\<lparr>sl_read_pos := sl_read_pos c + 1\<rparr>)" by blast
  have pop: "sl_slots K (c\<lparr>sl_read_pos := sl_read_pos c + 1, sl_scu_ptr := (sl_scu_ptr c)(sl_rpos K c := y)\<rparr>)
        = sl_slots K (c\<lparr>sl_read_pos := sl_read_pos c + 1\<rparr>)"
    "sl_slots K (c\<lparr>sl_scu_ptr := (sl_scu_ptr c)(sl_rpos K c := y)\<rparr>) = y # sl_slots K (c\<lparr>sl_read_pos := sl_read_pos c + 1\<rparr>)" for y
    using sl_first[OF inv ne, of y] by blast+
  obtain mem where mem: "su_ptr u = Some mem" using u(2) by (auto simp: su_ok_def)
  have un: "x = mem_read mem (nat (su_sendPos u)) (nat (su_size u - su_sendPos u))" "xs = sl_contents K (c\<lparr>sl_read_pos := sl_read_pos c + 1\<rparr>)"
    using x u(3) mem by (simp_all add: su_unread_def)
  have b: "0 \<le> su_sendPos u" "su_sendPos u \<le> su_size u" "su_size u \<le> su_bufSize u" "su_enableRead u = 1" using u(2) by (auto simp: su_ok_def)
  have len: "int (length x) = su_size u - su_sendPos u" using un(1) b by simp
  show ?thesis
  proof (cases "k = length x")
    case True
    then have "sl_has_read K k c = Inr (c\<lparr>sl_read_pos := sl_read_pos c + 1, sl_scu_ptr := (sl_scu_ptr c)(sl_rpos K c := ScuNull)\<rparr>)"
      using u(1) len by (simp add: sl_has_read_def sl_unit_def Let_def)
    then show ?thesis using True pop(1) u(4) un(2) by (simp add: sl_inv_def sl_contents_def)
  next
    case False
    let ?u1 = "u\<lparr>su_sendPos := su_sendPos u + int k\<rparr>"
    have lt: "su_sendPos u + int k < su_size u" using False k len by linarith
    then have "sl_has_read K k c = Inr (c\<lparr>sl_scu_ptr := (sl_scu_ptr c)(sl_rpos K c := Scu ?u1)\<rparr>)"
      using u(1) by (simp add: sl_has_read_def sl_unit_def Let_def)
    moreover have "su_ok (Scu ?u1)" using b lt mem by (simp add: su_ok_def)
    moreover have "su_unread (Scu ?u1) = drop k x"
      using un(1) mem b lt by (simp add: su_unread_def drop_mem_read nat_add_distrib nat_diff_distrib)
    ultimately show ?thesis using False pop(2) u(4) un(2) by (auto simp: sl_inv_def sl_contents_def)
  qed
qed

section \<open>Clearing\<close>

text \<open>\<open>clear\<close> ends on a ring in order, with nothing left; on a null slot between the positions it does not end.\<close>

lemma sl_clear_loop_empties:
  "sl_inv K c \<Longrightarrow> length (sl_contents K c) \<le> n \<Longrightarrow> \<exists>c'. sl_clear_loop n K c = Inr c' \<and> sl_inv K c' \<and> sl_contents K c' = []"
proof (induction n arbitrary: c)
  case 0
  then have "sl_is_empty K c" using sl_empty_iff by simp
  then show ?case using 0 by (simp add: sl_clear_loop.simps[of 0 K c])
next
  case (Suc n)
  show ?case
  proof (cases "sl_is_empty K c")
    case True
    then show ?thesis using Suc.prems sl_empty_iff by (auto simp: sl_clear_loop.simps[of "Suc n" K c])
  next
    case False
    let ?c = "c\<lparr>sl_read_pos := sl_read_pos c + 1\<rparr>"
    let ?c' = "c\<lparr>sl_read_pos := sl_read_pos c + 1, sl_scu_ptr := (sl_scu_ptr c)(sl_rpos K c := ScuNull)\<rparr>"
    obtain u where u: "sl_scu_ptr c (sl_rpos K c) = Scu u" "sl_contents K c = su_unread (Scu u) # sl_contents K ?c"
      "sl_slots K ?c' = sl_slots K ?c" "sl_inv K ?c"
      using sl_first[OF Suc.prems(1) False, of ScuNull] by blast
    have "sl_inv K ?c'" "sl_contents K ?c' = sl_contents K ?c" using u(3,4) by (simp_all add: sl_inv_def sl_contents_def)
    then show ?thesis using Suc.IH[of ?c'] Suc.prems(2) u(1,2) False by (simp add: sl_clear_loop.simps[of "Suc n" K c])
  qed
qed

lemma send_cell_delete_empties:
  assumes "sl_inv K c"
  shows "\<exists>c'. send_cell_delete K c = Inr c' \<and> sl_contents K c' = []"
proof -
  have K: "consts_ok K" using assms by (simp add: sl_inv_def)
  have "length (sl_contents K c) \<le> sendCellSize K"
    using ring_len_less[OF sl_pos_range[OF K], of c c] by (simp add: sl_contents_def sl_slots_def)
  from sl_clear_loop_empties[OF assms this] show ?thesis by (auto simp: send_cell_delete_def sl_clear_def)
qed

lemma sl_clear_null_diverges:
  "\<not> sl_is_empty K c \<Longrightarrow> sl_scu_ptr c (sl_rpos K c) = ScuNull \<Longrightarrow> sl_clear K c = Inl Diverges"
  by (simp add: sl_clear_def sl_clear_loop.simps[of "sendCellSize K" K c])

end
