(* ===== verification/Thread_Util.thy ===== *)
theory Thread_Util
  imports Proc_Thread
begin

text \<open>
  What is left of base/src/thread.cpp, and tools.cpp: sleeping, thread numbers, the number of
  processors, the accessors of \<open>process_thread\<close>, and binding a thread to a processor.  What
  \<open>pthread_self\<close>, \<open>sysconf\<close> and \<open>pthread_setaffinity_np\<close> answer are arguments.
\<close>

section \<open>Sleeping\<close>

text \<open>
  The time \<open>usleep\<close> is asked for, in microseconds: the product is computed in \<open>unsigned int\<close>.
\<close>

definition thread_sleep :: "32 word \<Rightarrow> 32 word" where
  "thread_sleep milli_seconds = milli_seconds * 1000"

definition process_thread_sleep :: "32 word \<Rightarrow> 32 word" where
  "process_thread_sleep milli_seconds = milli_seconds * 1000"

lemma thread_sleep_exact:
  "unat (thread_sleep ms) = unat ms * 1000 \<longleftrightarrow> unat ms \<le> 4294967"
proof -
  have "unat (thread_sleep ms) = unat ms * 1000 mod 2 ^ 32"
    by (simp add: thread_sleep_def unat_word_ariths)
  moreover have "unat ms * 1000 mod 2 ^ 32 < (2 :: nat) ^ 32" by simp
  moreover have "unat ms * 1000 < 2 ^ 32 \<longleftrightarrow> unat ms \<le> 4294967" by auto
  ultimately show ?thesis by (metis mod_less)
qed

text \<open>A pause of 4294968 milliseconds, about 50 days, lasts less than one.\<close>

lemma thread_sleep_wraps: "unat (thread_sleep 4294968) = 704"
  by (simp add: thread_sleep_def)

lemma process_thread_sleep_eq: "process_thread_sleep = thread_sleep"
  by (simp add: fun_eq_iff process_thread_sleep_def thread_sleep_def)

section \<open>Numbers\<close>

text \<open>\<open>pthread_t\<close> and \<open>long\<close> have 64 bits, and \<open>sysconf\<close> returns a \<open>long\<close> that is cut to an \<open>int\<close>.\<close>

definition thread_curr_thread_id :: "64 word \<Rightarrow> int" where
  "thread_curr_thread_id self = sint self"

definition process_thread_curr_thread_id :: "64 word \<Rightarrow> int" where
  "process_thread_curr_thread_id self = sint self"

definition curr_thread_id :: "64 word \<Rightarrow> int" where
  "curr_thread_id self = sint self"

definition number_of_processors :: "64 word \<Rightarrow> int" where
  "number_of_processors conf = sint (ucast conf :: 32 word)"

lemma number_of_processors_exact:
  assumes "- (2 ^ 31) \<le> sint conf" "sint conf < 2 ^ 31"
  shows "number_of_processors conf = sint conf"
proof -
  have "sint (ucast conf :: 32 word) = signed_take_bit 31 (sint conf)"
    by (rule bit_eqI) (auto simp: bit_simps min_def)
  also have "\<dots> = sint conf" using assms by (intro signed_take_bit_int_eq_self) simp_all
  finally show ?thesis by (simp add: number_of_processors_def)
qed

section \<open>The accessors of process_thread\<close>

definition process_thread_is_running :: "process_thread \<Rightarrow> bool" where
  "process_thread_is_running p = pt_is_running p"

definition process_thread_set_running :: "bool \<Rightarrow> process_thread \<Rightarrow> process_thread" where
  "process_thread_set_running r p = p\<lparr>pt_is_running := r\<rparr>"

text \<open>\<open>wait\<close> does not wait, \<open>release\<close> and \<open>set_priority\<close> do nothing.\<close>

definition process_thread_wait :: "int \<Rightarrow> process_thread \<Rightarrow> bool \<times> process_thread" where
  "process_thread_wait milli_seconds p = (True, p)"

definition process_thread_release :: "process_thread \<Rightarrow> process_thread" where
  "process_thread_release p = p"

datatype THREAD_PRIORITY = THREAD_PRI_LOW | THREAD_PRI_NORMAL | THREAD_PRI_HIGH

fun priority_value :: "THREAD_PRIORITY \<Rightarrow> int" where
  "priority_value THREAD_PRI_LOW = - 1"
| "priority_value THREAD_PRI_NORMAL = 0"
| "priority_value THREAD_PRI_HIGH = 1"

definition thread_set_priority :: "THREAD_PRIORITY \<Rightarrow> cthread \<Rightarrow> cthread" where
  "thread_set_priority pri t = t"

definition process_thread_set_priority :: "THREAD_PRIORITY \<Rightarrow> process_thread \<Rightarrow> process_thread" where
  "process_thread_set_priority pri p = p"

text \<open>
  \<open>set_running\<close> is how a new thread raises its flag; and \<open>wait\<close> reports success for a thread that
  is still in its loop.
\<close>

lemma set_running_of_new_thread:
  assumes "t < length (pt_pcs p)" "pt_pcs p ! t = TSpawned"
  shows "thread_proc_step t p = Some ((process_thread_set_running True p)\<lparr>pt_pcs := (pt_pcs p)[t := TLoop]\<rparr>)"
  using assms by (simp add: thread_proc_step_def process_thread_set_running_def)

lemma wait_does_not_wait: "\<exists>p. process_thread_wait 5000 p = (True, p) \<and> process_thread_is_running p \<and> pt_pcs p = [TLoop]"
  by (rule exI[of _ "process_thread_set_running True (process_thread_new\<lparr>pt_pcs := [TLoop]\<rparr>)"])
    (simp add: process_thread_wait_def process_thread_is_running_def process_thread_set_running_def)

section \<open>Binding a thread to a processor\<close>

text \<open>
  A \<open>cpu_set_t\<close> has a bit for each of 1024 processors.  \<open>CPU_SET\<close> converts the number to \<open>size_t\<close> and
  does nothing if there is no such bit.
\<close>

definition CPU_SETSIZE :: nat where
  "CPU_SETSIZE = 1024"

definition CPU_SET :: "int \<Rightarrow> nat set \<Rightarrow> nat set" where
  "CPU_SET cpu cpu_set =
    (let c = unat (word_of_int cpu :: 64 word) in if c < CPU_SETSIZE then insert c cpu_set else cpu_set)"

definition bind_cpu :: "(64 word \<Rightarrow> nat set \<Rightarrow> int) \<Rightarrow> 64 word \<Rightarrow> int \<Rightarrow> int" where
  "bind_cpu setaffinity thread_id cpu_id = setaffinity thread_id (CPU_SET cpu_id {})"

text \<open>
  The thread is bound to the one processor asked for; a number out of range leaves the set empty,
  which the kernel refuses.
\<close>

lemma CPU_SET_one:
  assumes "- (2 ^ 31) \<le> cpu" "cpu < 2 ^ 31"
  shows "CPU_SET cpu {} = (if 0 \<le> cpu \<and> cpu < 1024 then {nat cpu} else {})"
proof (cases "0 \<le> cpu")
  case True
  then have "unat (word_of_int cpu :: 64 word) = nat cpu"
    using assms(2) by (simp add: unsigned_of_int take_bit_int_eq_self)
  then show ?thesis using True by (auto simp: CPU_SET_def CPU_SETSIZE_def Let_def nat_less_iff)
next
  case False
  have "take_bit 64 cpu = cpu + 2 ^ 64"
    using False assms(1) by (simp add: take_bit_eq_mod) (smt (verit) mod_add_self2 mod_pos_pos_trivial)
  then have "unat (word_of_int cpu :: 64 word) = nat (cpu + 2 ^ 64)" by (simp add: unsigned_of_int)
  then show ?thesis using False assms(1) by (simp add: CPU_SET_def CPU_SETSIZE_def Let_def nat_less_iff)
qed

lemma bind_cpu_binds:
  assumes "- (2 ^ 31) \<le> cpu" "cpu < 2 ^ 31" "\<And>t. setaffinity t {} \<noteq> 0"
  shows "bind_cpu setaffinity t cpu = 0 \<Longrightarrow> 0 \<le> cpu \<and> cpu < 1024 \<and> bind_cpu setaffinity t cpu = setaffinity t {nat cpu}"
  using assms by (auto simp: bind_cpu_def CPU_SET_one split: if_splits)

end
