(* ===== verification/Common_Types.thy ===== *)
theory Common_Types
  imports Base_Util
begin

text \<open>
  The constants and structures of common/src/common.h and tcpMessageHeader.h: the error codes of
  the common module, and a message header with its defaults.  The notify classes put the codes in
  their log lines; the structures are for programs that use the library.
\<close>

section \<open>Error codes of the common module\<close>

datatype RISK_CTRL_ERROR =
    NAUT_AT_S_OK_common
  | NAUT_AT_E_LOG_INIT_INVALID
  | NAUT_AT_E_TRIAL_SERVER_START_FAILED
  | NAUT_AT_E_CONFIGFILE_INVALID
  | NAUT_AT_E_CONFIG_INVALID
  | NAUT_AT_E_CONFIG_READ_INVALID
  | NAUT_AT_E_DATA_HANDLE_START_ERROR
  | NAUT_AT_E_TRIAL_SERVER_START_ERROR
  | NAUT_AT_E_TCP_CLIENT_OPEN_FALIED
  | NAUT_AT_E_TCP_SERVER_NOTIFY_PARAM_ERROR
  | NAUT_AT_E_TCP_SERVER_NOTIFY_RECV_ERROR
  | NAUT_AT_E_TCP_CLIENT_NOTIFY_PARAM_ERROR
  | NAUT_AT_E_TRIAL_HANDLE_ERROR_EXCHANGE
  | NAUT_AT_E_DATA_HANDLE_ERROR_POSITION
  | NAUT_AT_E_CLIENT_NOTIFY_ERROR_CONTRACE
  | NAUT_AT_E_CLIENT_NOTIFY_ERROR_INSTRATE
  | NAUT_AT_E_CLIENT_NOTIFY_ERROR_DCEPAIR
  | NAUT_AT_E_CLIENT_NOTIFY_ERROR_EXPIRE
  | NAUT_AT_E_TRIVL_UNIT_ERROR_INSTRUMENT
  | NAUT_AT_E_TCP_CLI_CLOSE_CONN

fun risk_code :: "RISK_CTRL_ERROR \<Rightarrow> int" where
  "risk_code NAUT_AT_S_OK_common = 0"
| "risk_code NAUT_AT_E_LOG_INIT_INVALID = 30000"
| "risk_code NAUT_AT_E_TRIAL_SERVER_START_FAILED = 30001"
| "risk_code NAUT_AT_E_CONFIGFILE_INVALID = 30100"
| "risk_code NAUT_AT_E_CONFIG_INVALID = 30101"
| "risk_code NAUT_AT_E_CONFIG_READ_INVALID = 30102"
| "risk_code NAUT_AT_E_DATA_HANDLE_START_ERROR = 30103"
| "risk_code NAUT_AT_E_TRIAL_SERVER_START_ERROR = 30104"
| "risk_code NAUT_AT_E_TCP_CLIENT_OPEN_FALIED = 30105"
| "risk_code NAUT_AT_E_TCP_SERVER_NOTIFY_PARAM_ERROR = 30400"
| "risk_code NAUT_AT_E_TCP_SERVER_NOTIFY_RECV_ERROR = 30401"
| "risk_code NAUT_AT_E_TCP_CLIENT_NOTIFY_PARAM_ERROR = 30402"
| "risk_code NAUT_AT_E_TRIAL_HANDLE_ERROR_EXCHANGE = 30500"
| "risk_code NAUT_AT_E_DATA_HANDLE_ERROR_POSITION = 30501"
| "risk_code NAUT_AT_E_CLIENT_NOTIFY_ERROR_CONTRACE = 30502"
| "risk_code NAUT_AT_E_CLIENT_NOTIFY_ERROR_INSTRATE = 30503"
| "risk_code NAUT_AT_E_CLIENT_NOTIFY_ERROR_DCEPAIR = 30504"
| "risk_code NAUT_AT_E_CLIENT_NOTIFY_ERROR_EXPIRE = 30505"
| "risk_code NAUT_AT_E_TRIVL_UNIT_ERROR_INSTRUMENT = 30601"
| "risk_code NAUT_AT_E_TCP_CLI_CLOSE_CONN = 30701"

lemma risk_code_inj: "risk_code e = risk_code e' \<Longrightarrow> e = e'"
  by (cases e; cases e') simp_all

lemma risk_code_range: "risk_code e = 0 \<or> 30000 \<le> risk_code e \<and> risk_code e < 31000"
  by (cases e) simp_all

instantiation RISK_CTRL_ERROR :: linorder
begin

definition less_eq_RISK_CTRL_ERROR :: "RISK_CTRL_ERROR \<Rightarrow> RISK_CTRL_ERROR \<Rightarrow> bool" where
  "less_eq_RISK_CTRL_ERROR a b \<longleftrightarrow> risk_code a \<le> risk_code b"

definition less_RISK_CTRL_ERROR :: "RISK_CTRL_ERROR \<Rightarrow> RISK_CTRL_ERROR \<Rightarrow> bool" where
  "less_RISK_CTRL_ERROR a b \<longleftrightarrow> risk_code a < risk_code b"

instance
  by standard (auto simp: less_eq_RISK_CTRL_ERROR_def less_RISK_CTRL_ERROR_def dest: risk_code_inj)

end

text \<open>A code in a log tells the module: the two modules share none but that for success.\<close>

lemma codes_disjoint: "risk_code e = error_code b \<Longrightarrow> e = NAUT_AT_S_OK_common \<and> b = NAUT_AT_S_OK"
  by (cases b; cases e) simp_all

section \<open>The message header\<close>

definition CMD_ERROR :: "32 word" where
  "CMD_ERROR = 0"

record dataHeader =
  dh_cmd :: "32 word"
  dh_dataLength :: "32 word"

text \<open>\<open>sizeof(dataHeader)\<close> is 8.\<close>

definition dataHeader_new :: dataHeader where
  "dataHeader_new = \<lparr>dh_cmd = CMD_ERROR, dh_dataLength = 8\<rparr>"

record dataRecv =
  dr_cmd :: "32 word"
  dr_data :: "nat option"

definition dataRecv_new :: dataRecv where
  "dataRecv_new = \<lparr>dr_cmd = CMD_ERROR, dr_data = None\<rparr>"

end
