(* ===== verification/Test_Structs.thy ===== *)
theory Test_Structs
  imports Framing Base_Util
begin

text \<open>
  The messages of the test programs (common/test/structInfo.h): the commands, the structures with
  their layout in memory, and the C string functions the programs fill them with.
\<close>

section \<open>Commands\<close>

datatype CMD1 = CMD_LOGIN | CMD_LOGIN_RESULT | CMD_LOGOUT | CMD_LOGOUT_RESULT | CMD_ERROR_1 | CMD_NEWUSR_JOIN

fun cmd1_value :: "CMD1 \<Rightarrow> int" where
  "cmd1_value CMD_LOGIN = 1"
| "cmd1_value CMD_LOGIN_RESULT = 2"
| "cmd1_value CMD_LOGOUT = 3"
| "cmd1_value CMD_LOGOUT_RESULT = 4"
| "cmd1_value CMD_ERROR_1 = 5"
| "cmd1_value CMD_NEWUSR_JOIN = 6"

section \<open>Structures\<close>

text \<open>
  A \<open>char\<close> array is the list of its bytes.  The members stand one after the other, an \<open>int\<close> in four
  bytes in front, so that no structure has padding.
\<close>

record Login =
  lg_passWd :: "byte list"
  lg_data :: "byte list"
  lg_usrName :: "byte list"

record LoginResult =
  lr_result :: int
  lr_data :: "byte list"

record Logout =
  lo_usrName :: "byte list"

record LogoutResult =
  lor_result :: int

record NewUsrJoin =
  nj_sockid :: int

definition Login_ok :: "Login \<Rightarrow> bool" where
  "Login_ok l \<longleftrightarrow> length (lg_passWd l) = 32 \<and> length (lg_data l) = 932 \<and> length (lg_usrName l) = 32"

definition sizeof_Login :: nat where "sizeof_Login = 32 + 932 + 32"
definition sizeof_LoginResult :: nat where "sizeof_LoginResult = 4 + 992"

definition Login_bytes :: "Login \<Rightarrow> byte list" where
  "Login_bytes l = lg_passWd l @ lg_data l @ lg_usrName l"

definition LoginResult_bytes :: "LoginResult \<Rightarrow> byte list" where
  "LoginResult_bytes r = int32_bytes (lr_result r) @ lr_data r"

text \<open>\<open>new LoginResult()\<close> zeroes the object.\<close>

definition LoginResult_new :: LoginResult where
  "LoginResult_new = \<lparr>lr_result = 0, lr_data = replicate 992 0\<rparr>"

lemma length_Login_bytes [simp]: "Login_ok l \<Longrightarrow> length (Login_bytes l) = 996"
  by (simp add: Login_ok_def Login_bytes_def)

lemma sizeof_simps [simp]: "sizeof_Login = 996" "sizeof_LoginResult = 996"
  by (simp_all add: sizeof_Login_def sizeof_LoginResult_def)

section \<open>C strings\<close>

text \<open>\<open>strcpy\<close> into an array: the string and its terminator, which have to fit.\<close>

definition strcpy :: "byte list \<Rightarrow> cstring \<Rightarrow> byte list outcome" where
  "strcpy dst s = (if length s < length dst then Inr (s @ 0 # drop (length s + 1) dst) else Inl OutOfBounds)"

lemma strcpy_ok:
  "length s < length dst \<Longrightarrow> \<exists>d. strcpy dst s = Inr d \<and> length d = length dst \<and> take (length s) d = s"
  by (simp add: strcpy_def)

text \<open>Decimal numbers, as \<open>%d\<close> and \<open>std::to_string\<close> write them.\<close>

fun dec_digits :: "nat \<Rightarrow> cstring" where
  "dec_digits n = (if n < 10 then [of_nat (48 + n)] else dec_digits (n div 10) @ [of_nat (48 + n mod 10)])"

declare dec_digits.simps [simp del]

definition dec_string :: "int \<Rightarrow> cstring" where
  "dec_string i = (if i < 0 then 45 # dec_digits (nat (- i)) else dec_digits (nat i))"

lemma length_dec_digits: "n < 10 ^ Suc k \<Longrightarrow> length (dec_digits n) \<le> Suc k"
proof (induction k arbitrary: n)
  case 0
  then show ?case by (simp add: dec_digits.simps[of n])
next
  case (Suc k)
  have "n div 10 < 10 ^ Suc k" using Suc.prems by (simp add: less_mult_imp_div_less mult.commute)
  with Suc.IH[OF this] show ?case by (subst dec_digits.simps) simp
qed

text \<open>Different numbers give different strings, so that a reply tells which request it answers.\<close>

lemma dec_digits_inj: "dec_digits m = dec_digits n \<Longrightarrow> m = n"
proof (induction m arbitrary: n rule: dec_digits.induct)
  case (1 m)
  have digit: "(of_nat (48 + a) :: byte) = of_nat (48 + b) \<Longrightarrow> a = b" if "a < 10" "b < 10" for a b
    using that by (simp add: word_of_nat_eq_iff take_bit_nat_eq_self del: of_nat_add)
  have ne: "dec_digits k \<noteq> []" for k by (subst dec_digits.simps) simp
  show ?case
  proof (cases "m < 10"; cases "n < 10")
    assume "m < 10" "n < 10"
    then show ?thesis using "1.prems" digit[of m n] by (simp add: dec_digits.simps[of m] dec_digits.simps[of n])
  next
    assume a: "\<not> m < 10" "\<not> n < 10"
    then have "dec_digits (m div 10) = dec_digits (n div 10)" "(of_nat (48 + m mod 10) :: byte) = of_nat (48 + n mod 10)"
      using "1.prems" by (simp_all add: dec_digits.simps[of m] dec_digits.simps[of n])
    then have "m div 10 = n div 10" "m mod 10 = n mod 10"
      using "1.IH"[OF a(1)] digit[of "m mod 10" "n mod 10"] by simp_all
    then show ?thesis by (metis div_mult_mod_eq)
  qed (use "1.prems" ne[of "m div 10"] ne[of "n div 10"] in \<open>auto simp: dec_digits.simps[of m] dec_digits.simps[of n]\<close>)
qed

end
