(* ===== verification/Test_Server.thy ===== *)
theory Test_Server
  imports Test_Structs Ring_Buffer Message_Center Tcp_Server_Props
begin

text \<open>
  The test server (common/test/tcpserver/main.cpp).  The hub \<open>message_center\<close> puts every message the
  server receives into one queue; the main thread deals them out, in turn, to the rings of 30 workers;
  a worker answers each login with a result through \<open>senddata\<close> and frees the message.  Arrivals and
  rounds of the loops of the main thread and of the workers are steps, in any order.
\<close>

section \<open>The program\<close>

definition MAXSENDBUF :: nat where "MAXSENDBUF = 1024 * 4"
definition threadNum :: int where "threadNum = 30"

text \<open>The local arrays of \<open>handlemsg\<close>: \<open>ptr\<close> is as allocated, \<open>data\<close> as the stack holds it.\<close>

record worker =
  wk_ptr :: "byte list"
  wk_data :: "byte list"

text \<open>
  The variables of \<open>main\<close> and the global ones; the server is behind \<open>'s\<close>.  The last members record
  what has happened: messages the queue has taken, those dealt out with what \<open>push\<close> returned (which
  the code ignores), those a worker is through with and has freed, and the calls of \<open>senddata\<close>.
\<close>

record 's test_app =
  ta_queue :: "atp_message srt_queue"
  ta_mq :: "atp_message ringBuffer list"
  ta_insertTh :: int
  ta_total_num :: int
  ta_workers :: "worker list"
  ta_recv_num :: "64 word"
  ta_send_num :: "64 word"
  ta_server :: 's
  ta_arrived :: "atp_message list"
  ta_dealt :: "(atp_message \<times> bool) list"
  ta_handled :: "(nat \<times> atp_message) list"
  ta_replies :: "(int \<times> byte list) list"

text \<open>\<open>ringBuffer\<close> is created with its default size; what the arrays hold is given.\<close>

definition test_app_new :: "atp_message \<Rightarrow> atp_message arr \<Rightarrow> worker list \<Rightarrow> 's \<Rightarrow> 's test_app" where
  "test_app_new zero fresh ws s =
    \<lparr>ta_queue = snd (srt_init (srt_new zero kDefaultPageMsgCountBits kDefaultPageIndexBits)), ta_mq = replicate (nat threadNum) (rb_new 100000 fresh), ta_insertTh = 0, ta_total_num = 100,
     ta_workers = ws, ta_recv_num = 0, ta_send_num = 0, ta_server = s,
     ta_arrived = [], ta_dealt = [], ta_handled = [], ta_replies = []\<rparr>"

text \<open>
  A login: \<open>sprintf\<close> of the number, the structure with a copy of the text, header and structure into
  \<open>ptr\<close>, and \<open>senddata\<close>.  The counter is 64 bits wide and printed with \<open>%d\<close>: its low half.
  The result of \<open>senddata\<close> only chooses whether a line is printed.
\<close>

definition handle_login ::
  "(int \<Rightarrow> byte list \<Rightarrow> int \<Rightarrow> 's \<Rightarrow> (64 word \<times> 's) outcome) \<Rightarrow> int option \<Rightarrow> worker \<Rightarrow> 's test_app \<Rightarrow> (worker \<times> 's test_app) outcome" where
  "handle_login send param2 wk a =
    (let txt = map of_char ''wsc:'' @ dec_string (sint (ucast (ta_recv_num a) :: 32 word)) in
     obind (strcpy (wk_data wk) txt) (\<lambda>data.
     obind (strcpy (lr_data LoginResult_new) txt) (\<lambda>ldata.
     let lr = LoginResult_new\<lparr>lr_result := 2, lr_data := ldata\<rparr>;
         m_header = \<lparr>hd_type = cmd1_value CMD_LOGIN_RESULT, data_size = int sizeof_LoginResult\<rparr>;
         ptr = header_bytes m_header @ LoginResult_bytes lr @ [0] @ drop (8 + sizeof_LoginResult + 1) (wk_ptr wk);
         len = 8 + int sizeof_LoginResult
     in obind (oassert OutOfBounds (8 + sizeof_LoginResult + 1 \<le> length (wk_ptr wk))) (\<lambda>_.
        case param2 of
          None \<Rightarrow> Inl NullDeref
        | Some fd \<Rightarrow> obind (send fd ptr len (ta_server a)) (\<lambda>(ret, s).
            Inr (wk\<lparr>wk_data := data, wk_ptr := ptr\<rparr>,
                 a\<lparr>ta_recv_num := ta_recv_num a + 1, ta_send_num := ta_send_num a + 1, ta_server := s,
                   ta_replies := ta_replies a @ [(fd, take (nat len) ptr)]\<rparr>))))))"

text \<open>
  One round of \<open>handlemsg\<close>, by worker \<open>k\<close>.  Its parameter \<open>isRunning\<close> is a copy of the global variable
  from the time the thread was started, true for ever.
\<close>

definition handlemsg_round :: "(int \<Rightarrow> byte list \<Rightarrow> int \<Rightarrow> 's \<Rightarrow> (64 word \<times> 's) outcome) \<Rightarrow> nat \<Rightarrow> 's test_app \<Rightarrow> 's test_app outcome" where
  "handlemsg_round send k a =
    obind (rb_pop (ta_mq a ! k)) (\<lambda>(r, rb).
      let a1 = a\<lparr>ta_mq := (ta_mq a)[k := rb]\<rparr> in
      case r of
        None \<Rightarrow> Inr a1
      | Some msg \<Rightarrow>
          if am_param1 msg = None then Inr a1
          else obind (if am_type msg = cmd1_value CMD_LOGIN then handle_login send (am_param2 msg) (ta_workers a1 ! k) a1
                      else Inr (ta_workers a1 ! k, a1))
            (\<lambda>(wk, a2). Inr (a2\<lparr>ta_workers := (ta_workers a2)[k := wk], ta_handled := ta_handled a2 @ [(k, msg)]\<rparr>)))"

text \<open>
  One round of the loop of \<open>main\<close>.  In an idle round \<open>total_num\<close>, which nothing reads, is decremented.
\<close>

definition main_round :: "'s test_app \<Rightarrow> 's test_app outcome" where
  "main_round a =
    obind (srt_pop (ta_queue a)) (\<lambda>(r, q).
      let a1 = a\<lparr>ta_queue := q\<rparr> in
      case r of
        None \<Rightarrow> obind (oassert SignedOverflow (- (2 ^ 31) < ta_total_num a1)) (\<lambda>_.
          Inr (a1\<lparr>ta_total_num := ta_total_num a1 - 1\<rparr>))
      | Some msg \<Rightarrow>
          if am_param1 msg = None then Inr a1
          else let i = (ta_insertTh a1 + 1) mod threadNum in
            obind (rb_push msg (ta_mq a1 ! nat i)) (\<lambda>(ok, rb).
              Inr (a1\<lparr>ta_insertTh := i, ta_mq := (ta_mq a1)[nat i := rb], ta_dealt := ta_dealt a1 @ [(msg, ok)]\<rparr>)))"

text \<open>What the steps are: a message arrives at the hub, a round of the main thread, a round of a worker.\<close>

datatype test_action = TArrive "32 word" "byte list" msg_header | TMain | TWorker nat

fun test_act :: "(int \<Rightarrow> byte list \<Rightarrow> int \<Rightarrow> 's \<Rightarrow> (64 word \<times> 's) outcome) \<Rightarrow> (nat \<Rightarrow> byte list) \<Rightarrow>
    test_action \<Rightarrow> 's test_app \<Rightarrow> 's test_app outcome" where
  "test_act send garbage (TArrive clientid ptr mh) a =
    obind (center_on_read garbage clientid ptr mh (ta_queue a)) (\<lambda>(ok, q).
      Inr (a\<lparr>ta_queue := q, ta_arrived := ta_arrived a @ (if ok then [center_msg garbage clientid mh] else [])\<rparr>))"
| "test_act send garbage TMain a = main_round a"
| "test_act send garbage (TWorker k) a = handlemsg_round send k a"

fun test_run :: "(int \<Rightarrow> byte list \<Rightarrow> int \<Rightarrow> 's \<Rightarrow> (64 word \<times> 's) outcome) \<Rightarrow> (nat \<Rightarrow> byte list) \<Rightarrow>
    test_action list \<Rightarrow> 's test_app \<Rightarrow> 's test_app outcome" where
  "test_run send garbage [] a = Inr a"
| "test_run send garbage (x # xs) a = obind (test_act send garbage x a) (test_run send garbage xs)"

text \<open>Messages have a payload, and there are 30 workers.\<close>

fun test_act_ok :: "test_action \<Rightarrow> bool" where
  "test_act_ok (TArrive clientid ptr mh) \<longleftrightarrow> 0 < data_size mh \<and> data_size mh < 2 ^ 30"
| "test_act_ok TMain \<longleftrightarrow> True"
| "test_act_ok (TWorker k) \<longleftrightarrow> k < 30"

end
