(* ===== verification/Test_Server_Props.thy ===== *)
theory Test_Server_Props
  imports Test_Server
begin

text \<open>
  What the test server does: every message the hub takes is dealt out, handled by one worker in the
  order of its ring and, if it is a login, answered with one complete result; but one client's
  answers can come out of order.
\<close>

section \<open>What it is meant to do\<close>

text \<open>The messages dealt to worker \<open>k\<close>, if the first is the one with number \<open>j\<close>; the first of all goes to worker 1.\<close>

fun dealt_to :: "nat \<Rightarrow> nat \<Rightarrow> (atp_message \<times> bool) list \<Rightarrow> atp_message list" where
  "dealt_to k j [] = []"
| "dealt_to k j ((m, ok) # ds) = (if ok \<and> Suc j mod 30 = k then [m] else []) @ dealt_to k (Suc j) ds"

lemma dealt_to_snoc:
  "dealt_to k j (ds @ [(m, ok)]) = dealt_to k j ds @ (if ok \<and> Suc (j + length ds) mod 30 = k then [m] else [])"
  by (induction k j ds rule: dealt_to.induct) auto

lemma length_dealt_to: "length (dealt_to k j ds) \<le> length ds"
  by (induction k j ds rule: dealt_to.induct) auto

definition handled_by :: "nat \<Rightarrow> (nat \<times> atp_message) list \<Rightarrow> atp_message list" where
  "handled_by k h = map snd (filter (\<lambda>x. fst x = k) h)"

text \<open>The answer to the login with number \<open>n\<close>: the text \<open>wsc:n\<close>, padded with zeros.\<close>

definition login_result :: "nat \<Rightarrow> frame" where
  "login_result n = (let txt = map of_char ''wsc:'' @ dec_string (int n) in
     (\<lparr>hd_type = 2, data_size = 996\<rparr>, LoginResult_bytes \<lparr>lr_result = 2, lr_data = txt @ replicate (992 - length txt) 0\<rparr>))"

definition is_login :: "atp_message \<Rightarrow> bool" where
  "is_login m \<longleftrightarrow> am_type m = 1"

fun login_replies :: "nat \<Rightarrow> atp_message list \<Rightarrow> (int \<times> byte list) list" where
  "login_replies n [] = []"
| "login_replies n (m # ms) = (the (am_param2 m), encode_frame (login_result n)) # login_replies (Suc n) ms"

lemma login_replies_snoc:
  "login_replies n (ms @ [m]) = login_replies n ms @ [(the (am_param2 m), encode_frame (login_result (n + length ms)))]"
  by (induction n ms rule: login_replies.induct) auto

lemma length_login_replies [simp]: "length (login_replies n ms) = length ms"
  by (induction n ms rule: login_replies.induct) auto

lemma length_login_text: "n < 2 ^ 31 \<Longrightarrow> length (map of_char ''wsc:'' @ dec_string (int n) :: byte list) \<le> 14"
  using length_dec_digits[of n 9] by (simp add: dec_string_def)

lemma login_result_ok:
  assumes "n < 2 ^ 31"
  shows "frame_ok (login_result n)"
  using length_login_text[OF assms] by (simp add: login_result_def frame_ok_def LoginResult_bytes_def Let_def)

section \<open>The invariant\<close>

definition worker_ok :: "worker \<Rightarrow> bool" where
  "worker_ok wk \<longleftrightarrow> length (wk_ptr wk) = MAXSENDBUF \<and> length (wk_data wk) = 100"

definition msg_filled :: "atp_message \<Rightarrow> bool" where
  "msg_filled m \<longleftrightarrow> am_param1 m \<noteq> None \<and> am_param2 m \<noteq> None"

text \<open>What has arrived; where it went; the answers after at most \<open>n\<close> steps.\<close>

definition arrive_inv :: "'s test_app \<Rightarrow> bool" where
  "arrive_inv a \<longleftrightarrow> srt_inv (ta_queue a) \<and> ta_arrived a = map fst (ta_dealt a) @ srt_contents (ta_queue a)
     \<and> (\<forall>m\<in>set (ta_arrived a). msg_filled m)"

definition deal_inv :: "'s test_app \<Rightarrow> bool" where
  "deal_inv a \<longleftrightarrow> length (ta_mq a) = 30 \<and> (\<forall>k<30. rb_inv (ta_mq a ! k) \<and> rb_cap (ta_mq a ! k) = 99999
       \<and> handled_by k (ta_handled a) @ rb_contents (ta_mq a ! k) = dealt_to k 0 (ta_dealt a))
     \<and> (length (ta_dealt a) \<le> 99999 \<longrightarrow> (\<forall>d\<in>set (ta_dealt a). snd d))
     \<and> ta_insertTh a = int (length (ta_dealt a) mod 30)"

definition reply_inv :: "nat \<Rightarrow> 's test_app \<Rightarrow> bool" where
  "reply_inv n a \<longleftrightarrow> 100 - int n \<le> ta_total_num a \<and> length (ta_workers a) = 30 \<and> (\<forall>wk\<in>set (ta_workers a). worker_ok wk)
     \<and> length (ta_replies a) \<le> n \<and> ta_recv_num a = of_nat (length (ta_replies a)) \<and> ta_send_num a = ta_recv_num a
     \<and> ta_replies a = login_replies 0 (filter is_login (map snd (ta_handled a)))"

definition test_inv :: "nat \<Rightarrow> 's test_app \<Rightarrow> bool" where
  "test_inv n a \<longleftrightarrow> arrive_inv a \<and> deal_inv a \<and> reply_inv n a"

lemma test_inv_frames:
  "arrive_inv (a\<lparr>ta_total_num := t\<rparr>) = arrive_inv a" "arrive_inv (a\<lparr>ta_mq := mq\<rparr>) = arrive_inv a"
  "deal_inv (a\<lparr>ta_queue := q\<rparr>) = deal_inv a" "deal_inv (a\<lparr>ta_arrived := ar\<rparr>) = deal_inv a" "deal_inv (a\<lparr>ta_total_num := t\<rparr>) = deal_inv a"
  "reply_inv n (a\<lparr>ta_queue := q\<rparr>) = reply_inv n a" "reply_inv n (a\<lparr>ta_arrived := ar\<rparr>) = reply_inv n a"
  "reply_inv n (a\<lparr>ta_mq := mq\<rparr>) = reply_inv n a" "reply_inv n (a\<lparr>ta_insertTh := i\<rparr>) = reply_inv n a"
  "reply_inv n (a\<lparr>ta_dealt := d\<rparr>) = reply_inv n a"
  "arrive_inv (a\<lparr>ta_handled := h\<rparr>) = arrive_inv a" "arrive_inv (a\<lparr>ta_workers := ws\<rparr>) = arrive_inv a"
  "arrive_inv (a\<lparr>ta_recv_num := x, ta_send_num := y, ta_server := s, ta_replies := rs\<rparr>) = arrive_inv a"
  "deal_inv (a\<lparr>ta_workers := ws\<rparr>) = deal_inv a"
  "deal_inv (a\<lparr>ta_recv_num := x, ta_send_num := y, ta_server := s, ta_replies := rs\<rparr>) = deal_inv a"
  by (simp_all add: arrive_inv_def deal_inv_def reply_inv_def)

lemma reply_inv_mono: "reply_inv n a \<Longrightarrow> reply_inv (Suc n) a"
  unfolding reply_inv_def by (elim conjE, intro conjI) simp_all

lemma reply_invD:
  assumes "reply_inv n a" "k < 30"
  shows "worker_ok (ta_workers a ! k)" "length (ta_workers a) = 30" "length (ta_replies a) \<le> n" "ta_recv_num a = of_nat (length (ta_replies a))"
    "ta_replies a = login_replies 0 (filter is_login (map snd (ta_handled a)))"
proof -
  show "length (ta_workers a) = 30" "length (ta_replies a) \<le> n" "ta_recv_num a = of_nat (length (ta_replies a))"
    "ta_replies a = login_replies 0 (filter is_login (map snd (ta_handled a)))"
    using assms(1) unfolding reply_inv_def by blast+
  then show "worker_ok (ta_workers a ! k)" using assms unfolding reply_inv_def by simp
qed

lemma test_inv_new:
  assumes "length ws = 30" "\<forall>wk\<in>set ws. worker_ok wk"
  shows "test_inv 0 (test_app_new zero fresh ws s)"
proof -
  have "rb_inv (rb_new 100000 fresh)" "rb_contents (rb_new 100000 fresh) = []" "rb_cap (rb_new 100000 fresh) = 99999"
    using rb_inv_new[of 100000 fresh] by (simp_all add: rb_cap_def rb_new_def)
  then show ?thesis
    using assms by (simp add: test_inv_def arrive_inv_def deal_inv_def reply_inv_def test_app_new_def threadNum_def srt_inv_init handled_by_def)
qed

lemma handled_by_snoc: "handled_by k (h @ [(j, m)]) = handled_by k h @ (if j = k then [m] else [])"
  by (simp add: handled_by_def)

text \<open>An arrival.\<close>

lemma test_arrive:
  assumes inv: "test_inv n a" and mh: "0 < data_size mh" "data_size mh < 2 ^ 30"
  shows "\<exists>a'. test_act send garbage (TArrive clientid ptr mh) a = Inr a' \<and> test_inv (Suc n) a' \<and> ta_server a' = ta_server a
    \<and> ta_mq a' = ta_mq a \<and> ta_dealt a' = ta_dealt a \<and> srt_cap (ta_queue a') = srt_cap (ta_queue a)
    \<and> srt_contents (ta_queue a') = srt_contents (ta_queue a) @
        (if length (srt_contents (ta_queue a)) < srt_cap (ta_queue a) then [center_msg garbage clientid mh] else [])"
proof -
  have q: "srt_inv (ta_queue a)" using inv by (simp add: test_inv_def arrive_inv_def)
  let ?m = "center_msg garbage clientid mh"
  from center_on_read_queues[OF q mh, of garbage clientid ptr] obtain ok q' where
    q': "center_on_read garbage clientid ptr mh (ta_queue a) = Inr (ok, q')" "srt_inv q'" "ok = srt_room (ta_queue a)"
      "srt_contents q' = srt_contents (ta_queue a) @ (if ok then [?m] else [])"
    unfolding center_msg_def by blast
  let ?a = "a\<lparr>ta_queue := q', ta_arrived := ta_arrived a @ (if ok then [?m] else [])\<rparr>"
  have "msg_filled ?m" by (simp add: msg_filled_def center_msg_def)
  then have "\<forall>m\<in>set (ta_arrived ?a). msg_filled m" using inv by (cases ok) (simp_all add: test_inv_def arrive_inv_def)
  then have "arrive_inv ?a"
    using inv q'(2,4) unfolding test_inv_def arrive_inv_def by (elim conjE, intro conjI) simp_all
  then have "test_inv (Suc n) ?a" using inv by (simp add: test_inv_def test_inv_frames reply_inv_mono)
  moreover have "srt_cap q' = srt_cap (ta_queue a)"
    using q'(1) sq.cap_push by (auto simp: center_on_read_def center_dispatch_def Let_def obind_eq_Inr)
  ultimately show ?thesis using q'(1,3,4) sq.room_iff[OF q] by simp
qed

text \<open>A round of the main thread.\<close>

lemma main_round_deals:
  assumes "deal_inv a"
  defines "k \<equiv> Suc (length (ta_dealt a)) mod 30"
  shows "(ta_insertTh a + 1) mod threadNum = int k"
    "\<exists>ok rb. rb_push msg (ta_mq a ! k) = Inr (ok, rb) \<and> ok = (length (rb_contents (ta_mq a ! k)) < 99999)
      \<and> deal_inv (a\<lparr>ta_queue := q, ta_insertTh := int k, ta_mq := (ta_mq a)[k := rb], ta_dealt := ta_dealt a @ [(msg, ok)]\<rparr>)"
proof -
  show "(ta_insertTh a + 1) mod threadNum = int k"
    using assms(1) by (simp add: deal_inv_def k_def threadNum_def zmod_int mod_simps add.commute)
  have k: "k < 30" by (simp add: k_def)
  then have rb: "rb_inv (ta_mq a ! k)" "rb_cap (ta_mq a ! k) = 99999" "length (ta_mq a) = 30"
    "handled_by k (ta_handled a) @ rb_contents (ta_mq a ! k) = dealt_to k 0 (ta_dealt a)"
    using assms(1) by (simp_all add: deal_inv_def)
  obtain ok rb where push: "rb_push msg (ta_mq a ! k) = Inr (ok, rb)" "rb_inv rb" "ok = rb_room (ta_mq a ! k)"
    "rb_contents rb = rb_contents (ta_mq a ! k) @ (if ok then [msg] else [])"
    using rb.push_total[OF rb(1)] by blast
  have cap: "rb_cap rb = 99999" using rb_push_cap[OF push(1)] rb(2) by simp
  have "length (rb_contents (ta_mq a ! k)) \<le> length (dealt_to k 0 (ta_dealt a))" by (simp flip: rb(4))
  then have full: "ok" if "Suc (length (ta_dealt a)) \<le> 99999"
    using that push(3) rb_room_cap[OF rb(1)] rb(2) length_dealt_to[of k 0 "ta_dealt a"] by simp
  let ?a = "a\<lparr>ta_queue := q, ta_insertTh := int k, ta_mq := (ta_mq a)[k := rb], ta_dealt := ta_dealt a @ [(msg, ok)]\<rparr>"
  have "rb_inv (ta_mq ?a ! j) \<and> rb_cap (ta_mq ?a ! j) = 99999
      \<and> handled_by j (ta_handled ?a) @ rb_contents (ta_mq ?a ! j) = dealt_to j 0 (ta_dealt ?a)" if j: "j < 30" for j
  proof (cases "j = k")
    case True
    have "handled_by k (ta_handled a) @ rb_contents rb = dealt_to k 0 (ta_dealt a @ [(msg, ok)])"
      unfolding dealt_to_snoc rb(4)[symmetric] push(4) by (simp add: k_def)
    then show ?thesis using True push(2) cap rb(3) k by simp
  next
    case False
    then show ?thesis using assms(1) j by (simp add: deal_inv_def dealt_to_snoc k_def)
  qed
  moreover have "\<forall>d\<in>set (ta_dealt ?a). snd d" if "length (ta_dealt ?a) \<le> 99999"
    using that full assms(1) by (simp add: deal_inv_def)
  ultimately have "deal_inv ?a" using rb(3) by (simp add: deal_inv_def k_def)
  then show "\<exists>ok rb. rb_push msg (ta_mq a ! k) = Inr (ok, rb) \<and> ok = (length (rb_contents (ta_mq a ! k)) < 99999)
      \<and> deal_inv (a\<lparr>ta_queue := q, ta_insertTh := int k, ta_mq := (ta_mq a)[k := rb], ta_dealt := ta_dealt a @ [(msg, ok)]\<rparr>)"
    using push(1,3) rb_room_cap[OF rb(1)] rb(2) by (intro exI[of _ ok] exI[of _ rb]) simp
qed

lemma main_round_inv:
  assumes inv: "test_inv n a" and n: "n \<le> 2 ^ 31"
  shows "\<exists>a'. main_round a = Inr a' \<and> test_inv (Suc n) a' \<and> ta_server a' = ta_server a \<and> ta_handled a' = ta_handled a
    \<and> (\<forall>m ms. srt_contents (ta_queue a) = m # ms \<longrightarrow> srt_contents (ta_queue a') = ms \<and> ta_dealt a' = ta_dealt a @
        [(m, length (rb_contents (ta_mq a ! (Suc (length (ta_dealt a)) mod 30))) < 99999)])"
proof -
  have I: "arrive_inv a" "deal_inv a" "reply_inv n a" using inv by (simp_all add: test_inv_def)
  obtain r q where r: "srt_pop (ta_queue a) = Inr (r, q)" "srt_inv q"
    "srt_contents (ta_queue a) = (case r of None \<Rightarrow> [] | Some x \<Rightarrow> [x]) @ srt_contents q" "r = None \<longleftrightarrow> srt_contents (ta_queue a) = []"
    using sq.pop_total[of "ta_queue a"] I(1) unfolding arrive_inv_def by blast
  show ?thesis
  proof (cases r)
    case None
    have "int n \<le> int (2 ^ 31)" using n by (simp only: of_nat_le_iff)
    then have t: "- (2 ^ 31) < ta_total_num a" using I(3) by (simp add: reply_inv_def)
    let ?a = "a\<lparr>ta_queue := q, ta_total_num := ta_total_num a - 1\<rparr>"
    have "arrive_inv ?a" using I(1) r(2,3) None by (simp add: arrive_inv_def)
    moreover have "reply_inv (Suc n) ?a" using I(3) unfolding reply_inv_def by (elim conjE, intro conjI) simp_all
    ultimately show ?thesis using r(1,4) None t I(2) by (simp add: main_round_def test_inv_def test_inv_frames)
  next
    case (Some msg)
    have arr: "ta_arrived a = map fst (ta_dealt a) @ msg # srt_contents q" using I(1) r(3) Some by (simp add: arrive_inv_def)
    then have p1: "am_param1 msg \<noteq> None" using I(1) by (auto simp: arrive_inv_def msg_filled_def)
    let ?k = "Suc (length (ta_dealt a)) mod 30"
    from main_round_deals(2)[OF I(2), of msg q] obtain ok rb where push: "rb_push msg (ta_mq a ! ?k) = Inr (ok, rb)"
      "deal_inv (a\<lparr>ta_queue := q, ta_insertTh := int ?k, ta_mq := (ta_mq a)[?k := rb], ta_dealt := ta_dealt a @ [(msg, ok)]\<rparr>)"
      "ok = (length (rb_contents (ta_mq a ! ?k)) < 99999)"
      by blast
    let ?a = "a\<lparr>ta_queue := q, ta_insertTh := int ?k, ta_mq := (ta_mq a)[?k := rb], ta_dealt := ta_dealt a @ [(msg, ok)]\<rparr>"
    have "arrive_inv ?a" using I(1) r(2) arr unfolding arrive_inv_def by (elim conjE, intro conjI) simp_all
    then have "test_inv (Suc n) ?a" using push(2) I(3) by (simp add: test_inv_def test_inv_frames reply_inv_mono)
    moreover have "main_round a = Inr ?a"
      using r(1) Some p1 main_round_deals(1)[OF I(2)] push(1) by (auto simp: main_round_def Let_def)
    ultimately show ?thesis using r(3) Some push(3) by (intro exI[of _ ?a]) simp
  qed
qed

text \<open>A worker takes the oldest message of its ring.\<close>

lemma set_dealt_to: "set (dealt_to k j ds) \<subseteq> fst ` set ds"
  by (induction k j ds rule: dealt_to.induct) auto

lemma worker_takes:
  assumes "deal_inv a" "k < 30"
  shows "\<exists>r rb. rb_pop (ta_mq a ! k) = Inr (r, rb)
    \<and> deal_inv (a\<lparr>ta_mq := (ta_mq a)[k := rb], ta_handled := ta_handled a @ (case r of None \<Rightarrow> [] | Some m \<Rightarrow> [(k, m)])\<rparr>)
    \<and> (\<forall>m. r = Some m \<longrightarrow> m \<in> fst ` set (ta_dealt a)) \<and> (\<forall>m ms. rb_contents (ta_mq a ! k) = m # ms \<longrightarrow> r = Some m)"
proof -
  have rb: "rb_inv (ta_mq a ! k)" "rb_cap (ta_mq a ! k) = 99999" "length (ta_mq a) = 30"
    "handled_by k (ta_handled a) @ rb_contents (ta_mq a ! k) = dealt_to k 0 (ta_dealt a)"
    using assms by (simp_all add: deal_inv_def)
  obtain r rb where pop: "rb_pop (ta_mq a ! k) = Inr (r, rb)" "rb_inv rb"
    "rb_contents (ta_mq a ! k) = (case r of None \<Rightarrow> [] | Some x \<Rightarrow> [x]) @ rb_contents rb"
    using rb.pop_total[OF rb(1)] by blast
  have cap: "rb_cap rb = 99999" using rb_pop_cap[OF pop(1)] rb(2) by simp
  let ?h = "ta_handled a @ (case r of None \<Rightarrow> [] | Some m \<Rightarrow> [(k, m)])"
  have h: "handled_by j ?h = handled_by j (ta_handled a) @ (if j = k then (case r of None \<Rightarrow> [] | Some m \<Rightarrow> [m]) else [])" for j
    by (cases r) (simp_all add: handled_by_snoc)
  have "rb_inv ((ta_mq a)[k := rb] ! j) \<and> rb_cap ((ta_mq a)[k := rb] ! j) = 99999
      \<and> handled_by j ?h @ rb_contents ((ta_mq a)[k := rb] ! j) = dealt_to j 0 (ta_dealt a)" if j: "j < 30" for j
  proof (cases "j = k")
    case True
    then show ?thesis using pop(2) cap rb(3) assms(2) rb(4)[unfolded pop(3)] by (simp add: h)
  next
    case False
    then show ?thesis using assms(1) j by (simp add: deal_inv_def h)
  qed
  then have "deal_inv (a\<lparr>ta_mq := (ta_mq a)[k := rb], ta_handled := ?h\<rparr>)" using assms(1) by (simp add: deal_inv_def)
  moreover have "m \<in> set (dealt_to k 0 (ta_dealt a))" if "r = Some m" for m
    using that rb(4)[unfolded pop(3)] by (metis in_set_conv_decomp append_Cons append_Nil option.simps(5))
  moreover have "r = Some m" if "rb_contents (ta_mq a ! k) = m # ms" for m ms
    using rb_pop_head[OF rb(1) that] pop(1) by auto
  ultimately show ?thesis using pop(1) set_dealt_to[of k 0 "ta_dealt a"] by blast
qed

section \<open>Workers\<close>

text \<open>What the workers need of \<open>senddata\<close>: it returns, whatever it reports, and can be called again.\<close>

locale reply_sender =
  fixes send :: "int \<Rightarrow> byte list \<Rightarrow> int \<Rightarrow> 's \<Rightarrow> (64 word \<times> 's) outcome"
    and ok :: "'s \<Rightarrow> bool"
  assumes send_returns: "ok s \<Longrightarrow> 0 \<le> len \<Longrightarrow> len + 1 < 2 ^ 31 \<Longrightarrow> nat len \<le> length p \<Longrightarrow>
    \<exists>ret s'. send fd p len s = Inr (ret, s') \<and> ok s'"
begin

lemma handle_login_replies:
  assumes "worker_ok wk" "ta_recv_num a = of_nat n" "n < 2 ^ 31" "ok (ta_server a)"
  shows "\<exists>wk' s. handle_login send (Some fd) wk a = Inr (wk', a\<lparr>ta_recv_num := ta_recv_num a + 1,
      ta_send_num := ta_send_num a + 1, ta_server := s, ta_replies := ta_replies a @ [(fd, encode_frame (login_result n))]\<rparr>)
    \<and> worker_ok wk' \<and> ok s"
proof -
  let ?txt = "map of_char ''wsc:'' @ dec_string (int n) :: byte list"
  have "int n < int (2 ^ 31)" using assms(3) by (simp only: of_nat_less_iff)
  then have num: "sint (ucast (ta_recv_num a) :: 32 word) = int n"
    using size_cast_small[of "int n"] by (simp add: assms(2) size_cast_def int_of_size_def)
  have len: "length ?txt < 100" using length_login_text[OF assms(3)] by simp
  have wk: "length (wk_data wk) = 100" "length (wk_ptr wk) = 4096" using assms(1) by (simp_all add: worker_ok_def MAXSENDBUF_def)
  let ?lr = "\<lparr>lr_result = 2, lr_data = ?txt @ replicate (992 - length ?txt) 0\<rparr>"
  let ?ptr = "header_bytes \<lparr>hd_type = 2, data_size = 996\<rparr> @ LoginResult_bytes ?lr @ [0] @ drop 1005 (wk_ptr wk)"
  have d: "strcpy (wk_data wk) ?txt = Inr (?txt @ 0 # drop (length ?txt + 1) (wk_data wk))"
    using len wk(1) by (simp add: strcpy_def)
  have rep: "0 # replicate (991 - length ?txt) 0 = (replicate (992 - length ?txt) 0 :: byte list)"
    using len by (cases "992 - length ?txt") (auto simp: replicate_Suc[symmetric] simp del: replicate_Suc)
  have l: "strcpy (lr_data LoginResult_new) ?txt = Inr (?txt @ replicate (992 - length ?txt) 0)"
    using len rep by (simp add: strcpy_def LoginResult_new_def)
  have tk: "take 1004 ?ptr = encode_frame (login_result n)" "length ?ptr = 4096"
    using len wk(2) by (simp_all add: encode_frame_def login_result_def Let_def LoginResult_bytes_def)
  obtain ret s where s: "send fd ?ptr 1004 (ta_server a) = Inr (ret, s)" "ok s"
    using send_returns[OF assms(4), of 1004 ?ptr fd] tk(2) by auto
  let ?wk = "wk\<lparr>wk_data := ?txt @ 0 # drop (length ?txt + 1) (wk_data wk), wk_ptr := ?ptr\<rparr>"
  have "worker_ok ?wk" using len wk tk(2) by (simp add: worker_ok_def MAXSENDBUF_def)
  moreover have "handle_login send (Some fd) wk a = Inr (?wk, a\<lparr>ta_recv_num := ta_recv_num a + 1,
      ta_send_num := ta_send_num a + 1, ta_server := s, ta_replies := ta_replies a @ [(fd, take 1004 ?ptr)]\<rparr>)"
    using num d l s(1) wk(2) by (simp add: handle_login_def Let_def LoginResult_new_def)
  ultimately show ?thesis unfolding tk(1) using s(2) by blast
qed

lemma handlemsg_round_inv:
  assumes inv: "test_inv n a" and n: "n < 2 ^ 31" and k: "k < 30" and s: "ok (ta_server a)"
  shows "\<exists>a'. handlemsg_round send k a = Inr a' \<and> test_inv (Suc n) a' \<and> ok (ta_server a') \<and> ta_dealt a' = ta_dealt a
    \<and> (\<forall>m ms. rb_contents (ta_mq a ! k) = m # ms \<longrightarrow> ta_handled a' = ta_handled a @ [(k, m)])"
proof -
  have I: "arrive_inv a" "deal_inv a" "reply_inv n a" using inv by (simp_all add: test_inv_def)
  obtain r rb where pop: "rb_pop (ta_mq a ! k) = Inr (r, rb)"
    "deal_inv (a\<lparr>ta_mq := (ta_mq a)[k := rb], ta_handled := ta_handled a @ (case r of None \<Rightarrow> [] | Some m \<Rightarrow> [(k, m)])\<rparr>)"
    "\<And>m. r = Some m \<Longrightarrow> m \<in> fst ` set (ta_dealt a)" and
    first: "\<And>m ms. rb_contents (ta_mq a ! k) = m # ms \<Longrightarrow> r = Some m"
    using worker_takes[OF I(2) k] by blast
  show ?thesis
  proof (cases r)
    case None
    then show ?thesis
      using pop(1,2) I(1,3) s first by (auto simp: handlemsg_round_def test_inv_def test_inv_frames reply_inv_mono)
  next
    case (Some m)
    have "m \<in> set (ta_arrived a)" using I(1) pop(3)[OF Some] by (auto simp: arrive_inv_def)
    then have "msg_filled m" using I(1) unfolding arrive_inv_def by blast
    then obtain p1 fd where m: "am_param1 m = Some p1" "am_param2 m = Some fd" by (auto simp: msg_filled_def)
    let ?a = "a\<lparr>ta_mq := (ta_mq a)[k := rb]\<rparr>" and ?h = "ta_handled a @ [(k, m)]"
    have deal: "deal_inv (?a\<lparr>ta_handled := ?h\<rparr>)" using pop(2) Some by simp
    note wk = reply_invD[OF I(3) k]
    show ?thesis
    proof (cases "is_login m")
      case False
      let ?a' = "?a\<lparr>ta_workers := (ta_workers a)[k := ta_workers a ! k], ta_handled := ?h\<rparr>"
      have "handlemsg_round send k a = Inr ?a'"
        using pop(1) Some m False by (simp add: handlemsg_round_def is_login_def)
      moreover have "reply_inv (Suc n) ?a'" using I(3) False unfolding reply_inv_def by (elim conjE, intro conjI) simp_all
      ultimately show ?thesis using deal I(1) s first Some by (auto simp: test_inv_def test_inv_frames)
    next
      case True
      let ?n = "length (ta_replies a)"
      have num: "ta_recv_num ?a = of_nat ?n" "?n < 2 ^ 31" "ok (ta_server ?a)" using wk(3,4) n s by simp_all
      from handle_login_replies[OF wk(1) num, of fd] obtain wk' s' where
        w: "handle_login send (Some fd) (ta_workers a ! k) ?a = Inr (wk', ?a\<lparr>ta_recv_num := ta_recv_num a + 1,
            ta_send_num := ta_send_num a + 1, ta_server := s', ta_replies := ta_replies a @ [(fd, encode_frame (login_result ?n))]\<rparr>)"
          "worker_ok wk'" "ok s'"
        by auto
      let ?a' = "?a\<lparr>ta_recv_num := ta_recv_num a + 1, ta_send_num := ta_send_num a + 1, ta_server := s',
          ta_replies := ta_replies a @ [(fd, encode_frame (login_result ?n))], ta_workers := (ta_workers a)[k := wk'], ta_handled := ?h\<rparr>"
      have "handlemsg_round send k a = Inr ?a'"
        using pop(1) Some m True w(1) by (simp add: handlemsg_round_def is_login_def)
      moreover have "reply_inv (Suc n) ?a'"
        using I(3) True m(2) w(2) wk(2,3) k unfolding reply_inv_def
        by (elim conjE, intro conjI) (auto simp: login_replies_snoc dest: set_update_subset_insert[THEN subsetD])
      moreover have "deal_inv ?a'" "arrive_inv ?a'"
        using deal I(1) by (simp_all add: deal_inv_def arrive_inv_def)
      ultimately show ?thesis using w(3) first Some by (auto simp: test_inv_def)
    qed
  qed
qed

lemma test_run_inv:
  assumes "test_inv n a" "ok (ta_server a)" "\<forall>x\<in>set xs. test_act_ok x" "n + length xs \<le> 2 ^ 31"
  shows "\<exists>a'. test_run send garbage xs a = Inr a' \<and> test_inv (n + length xs) a' \<and> ok (ta_server a')"
  using assms
proof (induction xs arbitrary: n a)
  case (Cons x xs)
  have "\<exists>a'. test_act send garbage x a = Inr a' \<and> test_inv (Suc n) a' \<and> ok (ta_server a')"
  proof (cases x)
    case (TArrive clientid ptr mh)
    then show ?thesis using test_arrive[OF Cons.prems(1), of mh send garbage clientid ptr] Cons.prems(2,3) by auto
  next
    case TMain
    then show ?thesis using main_round_inv[OF Cons.prems(1)] Cons.prems(2,4) by auto
  next
    case (TWorker k)
    then show ?thesis using handlemsg_round_inv[OF Cons.prems(1) _ _ Cons.prems(2), of k] Cons.prems(3,4) by auto
  qed
  then obtain a' where a': "test_act send garbage x a = Inr a'" "test_inv (Suc n) a'" "ok (ta_server a')" by blast
  from Cons.IH[OF a'(2,3)] Cons.prems(3,4) a'(1) show ?case by simp
qed simp

end

section \<open>On the server of the library\<close>

text \<open>\<open>m_tcp_server_\<close> with a running server behind it.\<close>

definition serving :: "'c tcp_server \<Rightarrow> bool" where
  "serving w \<longleftrightarrow> (\<exists>s. tw_tcpserver w = Some s \<and> srv_inv (\<lambda>m. m \<noteq> None) s)"

lemma senddata_returns:
  assumes "serving w" "0 \<le> len" "len + 1 < 2 ^ 31" "nat len \<le> length p"
  shows "\<exists>ret w'. tcp_server_senddata junk fd p len w = Inr (ret, w') \<and> serving w'"
proof -
  obtain s where s: "tw_tcpserver w = Some s" "srv_inv (\<lambda>m. m \<noteq> None) s" using assms(1) by (auto simp: serving_def)
  from SendData_ok[OF s(2) assms(2-4), of junk fd] show ?thesis
    using s(1) by (auto simp: tcp_server_senddata_def serving_def)
qed

interpretation ts: reply_sender "tcp_server_senddata junk" serving for junk
  by unfold_locales (rule senddata_returns)


text \<open>Two messages dealt out, then the second worker before the first.\<close>

context reply_sender
begin

lemma second_worker_first:
  assumes inv: "test_inv n a" "ok (ta_server a)" and n: "n + 4 \<le> 2 ^ 31"
    and q: "srt_contents (ta_queue a) = m1 # m2 # ms"
  defines "k1 \<equiv> Suc (length (ta_dealt a)) mod 30" and "k2 \<equiv> Suc (Suc (length (ta_dealt a))) mod 30"
  assumes empty: "rb_contents (ta_mq a ! k1) = []" "rb_contents (ta_mq a ! k2) = []"
  shows "\<exists>a'. test_run send garbage [TMain, TMain, TWorker k2, TWorker k1] a = Inr a' \<and> test_inv (n + 4) a'
    \<and> ta_handled a' = ta_handled a @ [(k2, m2), (k1, m1)]"
proof -
  have k: "k1 < 30" "k2 < 30" "k1 \<noteq> k2" by (auto simp: k1_def k2_def mod_Suc)
  have ring: "handled_by k (ta_handled b) @ rb_contents (ta_mq b ! k) = dealt_to k 0 (ta_dealt b)" if "test_inv i b" "k < 30" for i b k
    using that by (simp add: test_inv_def deal_inv_def)
  obtain a1 where a1: "main_round a = Inr a1" "test_inv (Suc n) a1" "ok (ta_server a1)" "ta_handled a1 = ta_handled a"
    "srt_contents (ta_queue a1) = m2 # ms" "ta_dealt a1 = ta_dealt a @ [(m1, True)]"
    using main_round_inv[OF inv(1)] n q inv(2) empty(1) by (auto simp: k1_def)
  have "handled_by k2 (ta_handled a1) @ rb_contents (ta_mq a1 ! k2) = handled_by k2 (ta_handled a) @ rb_contents (ta_mq a ! k2)"
    using ring[OF a1(2) k(2)] ring[OF inv(1) k(2)] k(3) by (simp add: a1(6) dealt_to_snoc k1_def)
  then have e2: "rb_contents (ta_mq a1 ! k2) = []" using a1(4) empty(2) by simp
  have e2': "rb_contents (ta_mq a1 ! (Suc (length (ta_dealt a1)) mod 30)) = []" using e2 by (simp add: k2_def a1(6))
  obtain a2 where a2: "main_round a1 = Inr a2" "test_inv (Suc (Suc n)) a2" "ok (ta_server a2)" "ta_handled a2 = ta_handled a"
    "ta_dealt a2 = ta_dealt a @ [(m1, True), (m2, True)]"
    using main_round_inv[OF a1(2)] n a1(3-6) e2' by auto
  have d: "ta_dealt a2 = (ta_dealt a @ [(m1, True)]) @ [(m2, True)]" by (simp add: a2(5))
  have c1: "rb_contents (ta_mq a2 ! k1) = [m1]" "rb_contents (ta_mq a2 ! k2) = [m2]"
    using ring[OF a2(2) k(1)] ring[OF a2(2) k(2)] ring[OF inv(1) k(1)] ring[OF inv(1) k(2)] empty k(3)
    unfolding d dealt_to_snoc by (simp_all add: a2(4) k1_def k2_def)
  obtain a3 where a3: "handlemsg_round send k2 a2 = Inr a3" "test_inv (Suc (Suc (Suc n))) a3" "ok (ta_server a3)"
    "ta_handled a3 = ta_handled a @ [(k2, m2)]" "ta_dealt a3 = ta_dealt a2"
    using handlemsg_round_inv[OF a2(2) _ k(2) a2(3)] n c1(2) a2(4) by auto
  have "handled_by k1 (ta_handled a) @ rb_contents (ta_mq a3 ! k1) = handled_by k1 (ta_handled a) @ [m1]"
    using ring[OF a3(2) k(1)] ring[OF a2(2) k(1)] c1(1) k(3) by (simp add: a3(4,5) a2(4) handled_by_snoc)
  then have c3: "rb_contents (ta_mq a3 ! k1) = [m1]" by simp
  obtain a4 where "handlemsg_round send k1 a3 = Inr a4" "test_inv (Suc (Suc (Suc (Suc n)))) a4"
    "ta_handled a4 = ta_handled a @ [(k2, m2), (k1, m1)]"
    using handlemsg_round_inv[OF a3(2) _ k(1) a3(3)] n c3 a3(4) by auto
  then show ?thesis using a1(1) a2(1) a3(1) by (intro exI[of _ a4]) (simp add: numeral_eq_Suc)
qed

end

definition worker_demo :: worker where
  "worker_demo = \<lparr>wk_ptr = replicate MAXSENDBUF 0, wk_data = replicate 100 0\<rparr>"

definition blank_demo :: atp_message where
  "blank_demo = \<lparr>am_type = 0, am_param1 = None, am_param2 = None\<rparr>"

definition login_demo :: test_action where
  "login_demo = TArrive 5 [] \<lparr>hd_type = 1, data_size = 996\<rparr>"

lemma demo_ok: "length (replicate 30 worker_demo) = 30" "\<forall>wk\<in>set (replicate 30 worker_demo). worker_ok wk" "test_act_ok login_demo"
  by (simp_all add: worker_ok_def worker_demo_def login_demo_def)


text \<open>
  The test server answers a client out of order.  In any state of it, when two logins of the same
  client are next in the queue and the rings of the next two workers are empty, then the main thread
  deals them to different workers, and if the second of these is faster, the login that came second is
  answered first.
\<close>

lemma test_server_overtakes:
  assumes "tw_tcpserver w = Some s" "tcpServer_new (Some hub) cpuN epfds = Inr s0" "0 < cpuN" "srv_reach server_callbacks s0 s"
    and "length ws = 30" "\<forall>wk\<in>set ws. worker_ok wk" "\<forall>x\<in>set xs. test_act_ok x" "length xs + 4 \<le> 2 ^ 31"
    and "test_run (tcp_server_senddata junk) garbage xs (test_app_new zero fresh ws w) = Inr a"
    and "srt_contents (ta_queue a) = m1 # m2 # ms" "is_login m1" "is_login m2"
    and "k1 = Suc (length (ta_dealt a)) mod 30" "k2 = Suc (Suc (length (ta_dealt a))) mod 30"
    and "rb_contents (ta_mq a ! k1) = []" "rb_contents (ta_mq a ! k2) = []"
  shows "\<exists>a'. test_run (tcp_server_senddata junk) garbage [TMain, TMain, TWorker k2, TWorker k1] a = Inr a'
    \<and> ta_handled a' = ta_handled a @ [(k2, m2), (k1, m1)]
    \<and> ta_replies a' = ta_replies a @ [(the (am_param2 m2), encode_frame (login_result (length (ta_replies a)))),
        (the (am_param2 m1), encode_frame (login_result (Suc (length (ta_replies a)))))]"
proof -
  have "srv_inv (\<lambda>m. m \<noteq> None) s" using srv_started_inv[of hub cpuN s] assms(2-4) by blast
  then have "serving (ta_server (test_app_new zero fresh ws w))" using assms(1) by (simp add: serving_def test_app_new_def)
  from ts.test_run_inv[OF test_inv_new[OF assms(5,6)] this assms(7), of junk garbage] assms(8,9)
  have inv: "test_inv (length xs) a" "serving (ta_server a)" by auto
  from ts.second_worker_first[OF inv assms(8,10) assms(15,16)[unfolded assms(13,14)], folded assms(13,14), of junk garbage]
  obtain a' where a': "test_run (tcp_server_senddata junk) garbage [TMain, TMain, TWorker k2, TWorker k1] a = Inr a'"
    "test_inv (length xs + 4) a'" "ta_handled a' = ta_handled a @ [(k2, m2), (k1, m1)]"
    by blast
  have r: "ta_replies a = login_replies 0 (filter is_login (map snd (ta_handled a)))"
    "ta_replies a' = login_replies 0 (filter is_login (map snd (ta_handled a')))"
    using inv(1) a'(2) reply_invD(5)[of _ _ 0] unfolding test_inv_def by (metis zero_less_numeral)+
  have "ta_replies a' = login_replies 0 ((filter is_login (map snd (ta_handled a)) @ [m2]) @ [m1])"
    unfolding r(2) a'(3) using assms(11,12) by simp
  also have "\<dots> = ta_replies a @ [(the (am_param2 m2), encode_frame (login_result (length (ta_replies a)))),
        (the (am_param2 m1), encode_frame (login_result (Suc (length (ta_replies a)))))]"
    unfolding login_replies_snoc by (simp add: r(1))
  finally show ?thesis using a' by blast
qed

lemma test_server_overtakes_example:
  "\<exists>w a a'. test_run (tcp_server_senddata 0) (\<lambda>n. replicate n 0) [login_demo, login_demo]
      (test_app_new blank_demo (\<lambda>_. blank_demo) (replicate 30 worker_demo) (w :: nat tcp_server)) = Inr a
    \<and> test_run (tcp_server_senddata 0) (\<lambda>n. replicate n 0) [TMain, TMain, TWorker 2, TWorker 1] a = Inr a'
    \<and> map fst (ta_handled a') = map fst (ta_handled a) @ [2, 1]"
proof -
  obtain s epfds s0 where s: "tcpServer_new (Some count_hub) 1 epfds = Inr s0" "srv_reach server_callbacks s0 s"
    using srv_demo by blast
  let ?w = "tcp_server_new\<lparr>tw_tcpserver := Some s\<rparr>" and ?g = "\<lambda>n. replicate n (0 :: byte)" and ?ws = "replicate 30 worker_demo"
  let ?a0 = "test_app_new blank_demo (\<lambda>_. blank_demo) ?ws ?w" and ?m = "center_msg (\<lambda>n. replicate n 0) 5 \<lparr>hd_type = 1, data_size = 996\<rparr>"
  have w: "tw_tcpserver ?w = Some s" by simp
  have cap: "srt_cap (ta_queue ?a0) = (2 ^ 15 - 1) * 2 ^ 16" "srt_contents (ta_queue ?a0) = []"
    by (simp_all add: test_app_new_def srt_inv_init kDefaultPageIndexBits_def kDefaultPageMsgCountBits_def)
  have mh: "0 < data_size \<lparr>hd_type = 1, data_size = 996\<rparr>" "data_size \<lparr>hd_type = 1, data_size = 996\<rparr> < 2 ^ 30" by simp_all
  have i0: "test_inv 0 ?a0" by (rule test_inv_new[OF demo_ok(1,2)])
  obtain a1 where a1: "test_act (tcp_server_senddata 0) ?g login_demo ?a0 = Inr a1" "test_inv (Suc 0) a1" "ta_mq a1 = ta_mq ?a0"
    "ta_dealt a1 = []" "srt_contents (ta_queue a1) = [?m]" "srt_cap (ta_queue a1) = (2 ^ 15 - 1) * 2 ^ 16"
    using test_arrive[OF i0 mh, of "tcp_server_senddata 0" ?g 5 "[]"] cap by (auto simp: login_demo_def test_app_new_def)
  obtain a where a: "test_act (tcp_server_senddata 0) ?g login_demo a1 = Inr a" "ta_mq a = ta_mq ?a0"
    "ta_dealt a = []" "srt_contents (ta_queue a) = ?m # ?m # []"
    using test_arrive[OF a1(2) mh, of "tcp_server_senddata 0" ?g 5 "[]"] a1(3-6) by (auto simp: login_demo_def)
  have run: "test_run (tcp_server_senddata 0) ?g [login_demo, login_demo] ?a0 = Inr a" using a1(1) a(1) by simp
  have xs: "\<forall>x\<in>set [login_demo, login_demo]. test_act_ok x" "length [login_demo, login_demo] + 4 \<le> 2 ^ 31"
    using demo_ok(3) by simp_all
  have k: "(1 :: nat) = Suc (length (ta_dealt a)) mod 30" "2 = Suc (Suc (length (ta_dealt a))) mod 30" by (simp_all add: a(3))
  have "rb_contents (rb_new 100000 (\<lambda>_. blank_demo)) = []" using rb_inv_new[of 100000 "\<lambda>_. blank_demo"] by simp
  then have e: "rb_contents (ta_mq a ! 1) = []" "rb_contents (ta_mq a ! 2) = []"
    by (simp_all add: a(2) test_app_new_def threadNum_def)
  have login: "is_login ?m" by (simp add: is_login_def center_msg_def)
  from test_server_overtakes[OF w s(1) zero_less_one s(2) demo_ok(1,2) xs run a(4) login login k e]
  obtain a' where "test_run (tcp_server_senddata 0) ?g [TMain, TMain, TWorker 2, TWorker 1] a = Inr a'"
    "map fst (ta_handled a') = map fst (ta_handled a) @ [2, 1]" by auto
  then show ?thesis using run by blast
qed

end
