(* ===== verification/Test_Client.thy ===== *)
theory Test_Client
  imports Test_Structs Client_To_Server "HOL-Library.Signed_Division"
begin

text \<open>
  The test client (common/test/tcpclient/tcp_client.cpp): 200 connections, each with a thread that
  sends five million numbered logins, a handler that counts the answers, and the main thread that
  waits for all of them.  What \<open>send\<close> returns, the values of the counter the main thread reads and the
  clock are arguments.
\<close>

section \<open>The program\<close>

definition SendNum :: nat where "SendNum = 5000000"
definition cCount :: nat where "cCount = 200"

text \<open>\<open>handle_msg\<close> counts and returns; the rest of it is not reached.\<close>

definition test_handle_msg :: "64 word \<Rightarrow> atp_message \<Rightarrow> 64 word" where
  "test_handle_msg total_recv msg = total_recv + 1"

text \<open>
  The loop of \<open>sendData\<close> from number \<open>i\<close> on, one round for each result of \<open>send\<close>; in front of the result
  the bytes that have gone into the socket.  A failed call is traced and the loop goes on.
\<close>

fun sendData_loop :: "'h tCliNotify \<Rightarrow> int list \<Rightarrow> nat \<Rightarrow> Login \<Rightarrow> 'h tcp_client \<Rightarrow> (byte list \<times> 'h tcp_client) outcome" where
  "sendData_loop n [] i login c = Inr ([], c)"
| "sendData_loop n (ret # rets) i login c =
    obind (strcpy (lg_passWd login) (dec_string (int i))) (\<lambda>passWd.
      let login' = login\<lparr>lg_passWd := passWd\<rparr>;
          m_header = \<lparr>hd_type = cmd1_value CMD_LOGIN, data_size = int sizeof_Login\<rparr>;
          ptr = header_bytes m_header @ Login_bytes login' @ [0];
          buf = take (8 + sizeof_Login) ptr
      in obind (client_SendData n (Some buf) ret c) (\<lambda>(r, c').
           obind (sendData_loop n rets (Suc i) login' c') (\<lambda>(w, c'').
             Inr ((if client_isRun c then take (nat ret) buf else []) @ w, c''))))"

text \<open>
  \<open>sendData\<close> up to its closing brace, on the uninitialised local \<open>login\<close>; the function has a result
  type and no \<open>return\<close>.
\<close>

definition sendData_body :: "'h tCliNotify \<Rightarrow> int list \<Rightarrow> Login \<Rightarrow> 64 word \<Rightarrow> 'h tcp_client \<Rightarrow> (byte list \<times> 64 word \<times> 'h tcp_client) outcome" where
  "sendData_body n rets login total_send c =
    obind (strcpy (lg_usrName login) (map of_char ''lsm'')) (\<lambda>usr.
    obind (strcpy (lg_passWd login) (map of_char ''154029'')) (\<lambda>pw.
    obind (sendData_loop n rets 0 (login\<lparr>lg_usrName := usr, lg_passWd := pw\<rparr>) c) (\<lambda>(w, c').
      Inr (w, total_send + of_nat SendNum, c'))))"

definition sendData :: "'h tCliNotify \<Rightarrow> int list \<Rightarrow> Login \<Rightarrow> 64 word \<Rightarrow> 'h tcp_client \<Rightarrow> int outcome" where
  "sendData n rets login total_send c = obind (sendData_body n rets login total_send c) (\<lambda>_. Inl MissingReturn)"

text \<open>
  The wait of \<open>stress_test\<close>, over the values of \<open>total_recv\<close> it reads: \<open>None\<close> is a thread still in the loop.
  Then the two rates; the clock has counted whole seconds and milliseconds.
\<close>

fun stress_wait :: "int list \<Rightarrow> nat option" where
  "stress_wait [] = None"
| "stress_wait (v # vs) = (if v < int (SendNum * cCount) then map_option Suc (stress_wait vs) else Some 0)"

definition stress_report :: "int \<Rightarrow> int \<Rightarrow> int \<Rightarrow> (int \<times> int) outcome" where
  "stress_report total_recv castTime castTime2 =
    obind (oassert DivByZero (castTime \<noteq> 0)) (\<lambda>_.
    obind (oassert DivByZero (castTime2 \<noteq> 0)) (\<lambda>_.
      Inr (total_recv sdiv castTime * 2, total_recv sdiv castTime2 * 2)))"

section \<open>What it sends\<close>

text \<open>The login with number \<open>i\<close>: the number as the password, over what was there.\<close>

definition numbered :: "nat \<Rightarrow> Login \<Rightarrow> Login" where
  "numbered i l = l\<lparr>lg_passWd := dec_string (int i) @ 0 # drop (length (dec_string (int i)) + 1) (lg_passWd l)\<rparr>"

definition login_frame :: "Login \<Rightarrow> frame" where
  "login_frame l = (\<lparr>hd_type = 1, data_size = 996\<rparr>, Login_bytes l)"

fun login_frames :: "nat \<Rightarrow> nat \<Rightarrow> Login \<Rightarrow> frame list" where
  "login_frames 0 i l = []"
| "login_frames (Suc k) i l = login_frame (numbered i l) # login_frames k (Suc i) (numbered i l)"

lemma length_login_frames [simp]: "length (login_frames k i l) = k"
  by (induction k i l rule: login_frames.induct) auto

lemma numbered_ok:
  assumes "Login_ok l" "i < 10 ^ 10"
  shows "Login_ok (numbered i l)" "length (dec_string (int i)) < 32"
proof -
  have "length (dec_string (int i)) \<le> 10" using length_dec_digits[of i 9] assms(2) by (simp add: dec_string_def)
  then show "length (dec_string (int i)) < 32" "Login_ok (numbered i l)" using assms(1) by (simp_all add: numbered_def Login_ok_def)
qed

lemma login_frame_ok: "Login_ok l \<Longrightarrow> frame_ok (login_frame l)"
  using length_Login_bytes[of l] by (simp add: frame_ok_def login_frame_def)

lemma login_frames_ok:
  "Login_ok l \<Longrightarrow> i + k < 10 ^ 10 \<Longrightarrow> \<forall>m\<in>set (login_frames k i l). frame_ok m \<and> length (encode_frame m) = 1004"
proof (induction k i l rule: login_frames.induct)
  case (2 k i l)
  then have ok: "Login_ok (numbered i l)" by (simp add: numbered_ok)
  then have "length (encode_frame (login_frame (numbered i l))) = 1004"
    using length_Login_bytes[OF ok] by (simp add: encode_frame_def login_frame_def)
  then show ?case using 2 ok by (simp add: login_frame_ok)
qed simp

text \<open>The number is in the message, in front of the payload.\<close>

lemma login_frames_nth:
  assumes "j < k"
  shows "\<exists>r. snd (login_frames k i l ! j) = dec_string (int (i + j)) @ 0 # r"
  using assms
proof (induction k i l arbitrary: j rule: login_frames.induct)
  case (2 k i l)
  then show ?case
    by (cases j) (auto simp: login_frame_def numbered_def Login_bytes_def)
qed simp

text \<open>The loop is a user who passes these messages to \<open>SendData\<close>.\<close>

lemma sendData_loop_sends:
  assumes "Login_ok l" "i + length rets < 10 ^ 10"
  shows "sendData_loop n rets i l c = client_sends n (zip (map encode_frame (login_frames (length rets) i l)) rets) c"
  using assms
proof (induction rets arbitrary: i l c)
  case (Cons ret rets)
  note num = numbered_ok[OF Cons.prems(1), of i]
  have i: "i < 10 ^ 10" using Cons.prems(2) by simp
  have pw: "strcpy (lg_passWd l) (dec_string (int i)) = Inr (lg_passWd (numbered i l))" "l\<lparr>lg_passWd := lg_passWd (numbered i l)\<rparr> = numbered i l"
    using num(2)[OF i] Cons.prems(1) by (simp_all add: strcpy_def numbered_def Login_ok_def)
  have "take 1004 (header_bytes \<lparr>hd_type = 1, data_size = 996\<rparr> @ Login_bytes (numbered i l) @ [0]) = encode_frame (login_frame (numbered i l))"
    using length_Login_bytes[OF num(1)[OF i]] by (simp add: encode_frame_def login_frame_def)
  then show ?case using Cons.IH[OF num(1)[OF i], of "Suc i"] Cons.prems(2) pw by (simp add: Let_def)
qed simp

text \<open>
  What a thread of the test client sends: whatever the stack held, if each \<open>send\<close> takes its message
  whole or fails, the bytes are those of the logins before the first failure, each complete, with its
  number; the counter of sent messages is raised by all five million, failed or not; and then the
  function ends without the value it is declared to return.
\<close>

lemma sendData_logins:
  assumes "Login_ok login" "length rets = SendNum" "client_isRun c" "cl_Tcn c = Some h" "\<forall>r\<in>set rets. r = - 1 \<or> r = 1004"
  shows "\<exists>l c'. sendData_body n rets login total_send c = Inr (concat (map encode_frame (take (sends_before rets) (login_frames SendNum 0 l))),
      total_send + 5000000, c')
    \<and> Login_ok l \<and> (client_isRun c' \<longleftrightarrow> - 1 \<notin> set rets) \<and> sendData n rets login total_send c = Inl MissingReturn"
proof -
  obtain usr pw where s: "strcpy (lg_usrName login) (map of_char ''lsm'') = Inr usr" "length usr = 32"
    "strcpy (lg_passWd login) (map of_char ''154029'') = Inr pw" "length pw = 32"
    using strcpy_ok[of "map of_char ''lsm''" "lg_usrName login"] strcpy_ok[of "map of_char ''154029''" "lg_passWd login"] assms(1)
    by (auto simp: Login_ok_def)
  let ?l = "login\<lparr>lg_usrName := usr, lg_passWd := pw\<rparr>"
  have l: "Login_ok ?l" using assms(1) s(2,4) by (simp add: Login_ok_def)
  let ?ms = "login_frames (length rets) 0 ?l"
  have lim: "0 + length rets < 10 ^ 10" using assms(2) by (simp add: SendNum_def)
  have "list_all2 (\<lambda>b r. r = - 1 \<or> r = int (length b)) (map encode_frame ?ms) rets"
    using login_frames_ok[OF l lim] assms(5) by (simp add: list_all2_conv_all_nth)
  from client_sends_whole[OF assms(3,4) this, of n] obtain c' where
    "sendData_loop n rets 0 ?l c = Inr (concat (map encode_frame (take (sends_before rets) ?ms)), c')" "client_isRun c' \<longleftrightarrow> - 1 \<notin> set rets"
    using sendData_loop_sends[OF l lim, where n = n and c = c] by (auto simp: take_map)
  then show ?thesis
    using l s by (intro exI[of _ ?l] exI[of _ c']) (simp add: sendData_def sendData_body_def assms(2)[symmetric], simp add: assms(2) SendNum_def)
qed

text \<open>\<open>SendNum * cCount\<close> is an \<open>int\<close>, and fits.\<close>

lemma SendNum_cCount: "int (SendNum * cCount) = 1000000000" "int (SendNum * cCount) < 2 ^ 31"
  by (simp_all add: SendNum_def cCount_def)

text \<open>If a single answer is lost the main thread never leaves its wait.\<close>

lemma stress_wait_lost: "\<forall>v\<in>set vs. v < 1000000000 \<Longrightarrow> stress_wait vs = None"
  by (induction vs) (simp_all add: SendNum_cCount del: of_nat_mult)

end
