(* ===== verification/Spec2Isabelle.thy ===== *)
theory Spec2Isabelle
  imports Ring_Concurrent Srt_Concurrent Drb_Concurrent_Inv Base_Util End_To_End Cell_Manager_Close Cell_Manager_Memory Cell_Manager_Stale
    Tcp_Server_Lifecycle Client_To_Server Server_Delivery Message_Center Trace Message_Base Micro_Buffer Send_Cell Thread_Util
    Common_Types Test_Server_Props Test_Client
begin

text \<open>
  A verification of linux_tcp_lib, a C++ library for TCP servers and clients on Linux.

  \<^bold>\<open>The program.\<close>  A server (\<open>tcpServer\<close>, base/src/tcp_server/server.cpp, and its wrapper \<open>tcp_server\<close>,
  common/src/tcp_server.cpp) has one listening thread and a fixed number of event loops
  (\<open>cellManager\<close>, cell_manager.cpp).  An accepted connection (\<open>clientCell\<close>, client_cell.h) is put in the
  map of the loop its descriptor selects, and a task is posted to the loop's queue (\<open>srt_queue\<close>,
  base/src/mqueue.h); a message to send is copied and posted as a task too.  A loop handles its
  tasks, asks epoll for output where a connection has something to send, and handles the events epoll
  reports: it reads into a connection's buffer and offers what is there to the callback
  (\<open>tcp_server_notify\<close>, common/src), which cuts it into messages for the application's hub, or it writes
  the messages of the connection's ring.  The client (\<open>easyTcpClient\<close>, base/src/tcp_client) does the
  same for one connection with \<open>select\<close>.  Around this are the threads (base/src/thread.cpp), the log
  (trace.cpp), an inbox for workers (message_base.h), a growing queue read by index (\<open>drb_queue\<close>, mqueue.h),
  and small utilities (base.h).  The test server (common/test/tcpserver) puts what arrives into one queue
  (\<open>message_center\<close>), from which its main thread fills the rings (\<open>ringBuffer\<close>) of 30 workers, who answer;
  the test client (common/test/tcpclient) sends numbered messages and counts the answers.

  \<^bold>\<open>The theories.\<close>
  \<^item> \<open>Prelude\<close>: faults (what the C++ code leaves undefined) and the sum type of outcomes, arrays, ring
    arithmetic, integer conversions.  \<open>Sockets\<close>: \<open>read\<close> and \<open>write\<close> on a stream socket.
  \<^item> \<open>Fifo_Interface\<close>, \<open>Notify_Interface\<close>: the contracts of a queue and of a callback as locales and
    records.  Their clients' lemmas are proved in the locales; \<open>Srt_Queue\<close> and \<open>Ring_Buffer\<close> interpret the
    first on the two queues, \<open>Cell_Manager_Safety\<close> and \<open>Cell_Manager_Recv\<close> (locales \<open>safe_handler\<close>,
    \<open>connection_handler\<close>) the second on the library's callback.  \<open>Test_Server_Props\<close> has the contract of
    \<open>senddata\<close> as the test server relies on it (locale \<open>reply_sender\<close>), interpreted on the server's.
  \<^item> \<open>Srt_Queue\<close>: \<open>srt_queue\<close> with atomic methods, a bounded first-in first-out queue.
    \<open>Srt_Concurrent\<close>: the same methods as the steps between their accesses to shared memory, two
    producers and one consumer; nothing is lost, reordered, used after it was freed or read outside
    its page; and a run in which three producers overrun the capacity and lose a message.
  \<^item> \<open>Drb_Queue\<close>: \<open>drb_queue\<close> with atomic methods, a list that grows.  \<open>Drb_Concurrent\<close>, \<open>Drb_Concurrent_Inv\<close>:
    \<open>push\<close> and \<open>get\<close> step by step, any number of readers beside one producer, or beside several while
    the first table lasts; and a run in which two producers extend the table and one reads beyond it.
  \<^item> \<open>Ring_Buffer\<close>, \<open>Micro_Buffer\<close>, \<open>Send_Cell\<close>: the other containers, against lists.  \<open>Ring_Concurrent\<close>: the ring
    step by step between one thread that pushes and one that pops, and a run in which a second producer
    loses a message.
  \<^item> \<open>Framing\<close>: the message header and the cutting of a byte stream into messages, once as the
    specification for both sides.  \<open>Server_Notify\<close> and \<open>Client_Notify\<close> are the two callbacks.
  \<^item> \<open>Client_Cell\<close> (the connection), \<open>Cell_Manager\<close> (all operations of the event loop), and about them:
    \<open>Cell_Manager_Safety\<close> (ownership of messages and absence of faults), \<open>Cell_Manager_Recv\<close> (what is
    received is the stream that was sent, however the network splits it), \<open>Cell_Manager_Send\<close> and
    \<open>Cell_Manager_Stream\<close> (the send loop refines a function on lists, and a pass of the loop neither loses
    nor reorders a byte), \<open>Cell_Manager_Close\<close> (how a connection ends, and the accept that can fall into this),
    \<open>Cell_Manager_Stale\<close> (\<open>handleTask\<close> round by round: safe, but a message can go to the next user of a number), and
    \<open>Cell_Manager_Memory\<close> (no message leaks, and when one does).  \<open>Cell_Manager_Frame\<close> is the locale of
    relations that the handling of events keeps, which \<open>Cell_Manager_Stream\<close> and \<open>Cell_Manager_Memory\<close> share.
  \<^item> \<open>Proc_Thread\<close>: threads, step by step, with \<open>Thread_Util\<close> their helpers.  \<open>Tcp_Server\<close>: the server and the wrapper;
    \<open>Tcp_Server_Safety\<close>, \<open>Tcp_Server_Props\<close>, \<open>Tcp_Server_Recv\<close>, \<open>Tcp_Server_Lifecycle\<close>: safety of every
    call, ownership of connections by loops, the paths of an accepted connection, of a message sent
    and of messages received, listening, starting and stopping.
  \<^item> \<open>Tcp_Client\<close>: the client.  \<open>End_To_End\<close>: what users of the server send, through any run of the server,
    to the handler of a client.  \<open>Server_Delivery\<close>: that what they send does arrive at the socket.
    \<open>Client_To_Server\<close>: what a client sends, to the hub of the application, and what a short \<open>send\<close> does to
    it.  \<open>Message_Center\<close>: from the buffer of a connection to the queue of the test hub.  \<open>Trace\<close>, \<open>Base_Util\<close>, \<open>Common_Types\<close>, \<open>Message_Base\<close>: log, utilities,
    constants, inbox and test hub.
  \<^item> \<open>Test_Structs\<close>, \<open>Test_Server\<close>, \<open>Test_Client\<close>: the message structures and the two test programs.
    \<open>Test_Server_Props\<close>: which messages each worker handles, that each login is answered once, and that two
    of one client can be answered in the wrong order.

  \<^bold>\<open>Conventions.\<close>  A class is a record with the members' names behind a prefix, a method a function from
  the state to an \<open>outcome\<close>: \<open>Inl\<close> of a fault, or \<open>Inr\<close> of the result and the new state.  Objects that
  change owner (the messages to send, the pages of a queue) live in explicit heaps, so that a double
  free or a use after free is a fault.  What the kernel answers (bytes read, room for a write, events,
  descriptors, results of system calls) is an argument, and the theorems hold for all of them.
  Integers are words where the code can wrap around, and unbounded where it cannot.

  \<^bold>\<open>Bounds.\<close>  The sizes are those of the source: buffers of \<open>2 ^ 20\<close> bytes, rings of \<open>2 ^ 20\<close> slots, 1000 rounds
  of the send loop, queues of \<open>(2 ^ 15 - 1) * 2 ^ 16\<close> messages.  The loop of a connection's destructor runs on
  fuel, one more than the ring has slots, which \<open>clientCell_delete_ring\<close> shows to be enough.  The loop of
  \<open>doRecv\<close> recurses on the answers of the kernel; when they run out it reports that the thread is
  still in the loop (\<open>RecvLooping\<close>).  \<open>handleTask\<close>, the destructor's task loop and the extension of a
  page table are partial functions, proved to return.

  \<^bold>\<open>Not modelled.\<close>  The Windows branches.  The methods of \<open>cellManager\<close> are atomic, but for the accept in the
  middle of \<open>handleDel\<close> in \<open>Cell_Manager_Close\<close> and the rounds of \<open>handleTask\<close> in \<open>Cell_Manager_Stale\<close>: that other threads read and write \<open>m_Cell\<close> while the loop
  changes it, without a lock, is outside the model, as is a memory model weaker than sequential
  consistency.  \<open>setsockopt\<close> and \<open>fcntl\<close>, whose results the code ignores, have no effect on the state.
  The floating point macros and memory fences of base.h are left out, and of the test
  programs \<open>sendThread\<close>, which no one calls (\<open>#if 0\<close>), the start-up and the output.  What the test client does
  with more than one connection is not modelled either.  Constants and types that \<open>send_cell\<close> uses and no file defines are
  parameters.
\<close>

end
